(* ===== verification/Prelude.thy ===== *)
theory Prelude
  imports Main "HOL-Library.Word"
begin

text \<open>
  Shared vocabulary of the development: the fixed-width integers and buffers of the C++
  sources, the error values that stand for thrown exceptions, and the generic lemmas on
  lists, sums and words that the component theories use.
\<close>

unbundle bit_operations_syntax

section \<open>Machine integers and buffers\<close>

type_synonym u8 = "8 word"
type_synonym u16 = "16 word"
type_synonym u32 = "32 word"
type_synonym u64 = "64 word"

text \<open>A buffer given in C++ as a pointer and a length is the list of the bytes it holds.\<close>

type_synonym bytes = "u8 list"

section \<open>Thrown exceptions\<close>

text \<open>
  The exception classes the headers throw. A function that may throw returns
  \<open>exn + 'a\<close>: \<open>Inl\<close> is the exception in flight, \<open>Inr\<close> the normal return.
\<close>

datatype exn = InvalidArgument | LengthError | LogicError | OutOfRange | RuntimeError

definition bind_exn :: "exn + 'a \<Rightarrow> ('a \<Rightarrow> exn + 'b) \<Rightarrow> exn + 'b" where
  "bind_exn m f = (case m of Inl e \<Rightarrow> Inl e | Inr x \<Rightarrow> f x)"

lemma bind_exn_simps [simp]:
  "bind_exn (Inl e) f = Inl e"
  "bind_exn (Inr x) f = f x"
  by (simp_all add: bind_exn_def)

lemma bind_exn_Inr_iff:
  "bind_exn m f = Inr y \<longleftrightarrow> (\<exists>x. m = Inr x \<and> f x = Inr y)"
  by (cases m) auto

text \<open>A loop whose body may throw, collecting one value per iteration.\<close>

fun mapM_exn :: "('a \<Rightarrow> exn + 'b) \<Rightarrow> 'a list \<Rightarrow> exn + 'b list" where
  "mapM_exn f [] = Inr []"
| "mapM_exn f (x # xs) =
     bind_exn (f x) (\<lambda>y. bind_exn (mapM_exn f xs) (\<lambda>ys. Inr (y # ys)))"

lemma mapM_exn_Inr [simp]:
  "(\<And>x. x \<in> set xs \<Longrightarrow> f x = Inr (g x)) \<Longrightarrow> mapM_exn f xs = Inr (map g xs)"
  by (induction xs) auto

section \<open>Words\<close>

lemma xor_word_eq_0_iff: "(a :: 'a::len word) XOR b = 0 \<longleftrightarrow> a = b"
  by (auto simp: bit_eq_iff bit_xor_iff)

lemma unat_of_nat_small: "n < 2 ^ LENGTH('a) \<Longrightarrow> unat (of_nat n :: 'a::len word) = n"
  by (simp add: unat_of_nat)

lemma unat_add_small: "unat x + unat y < 2 ^ LENGTH('a) \<Longrightarrow> unat (x + y :: 'a::len word) = unat x + unat y"
  by (simp only: unat_add_lem)

lemma u64_less: "unat (a :: u64) < 2 ^ 64"
  using unsigned_less [of a] by simp

lemma u32_less: "unat (a :: u32) < 2 ^ 32"
  using unsigned_less [of a] by simp

lemma unat_ucast_u64: "unat (ucast (a :: u32) :: u64) = unat a"
proof -
  have "unat a < 2 ^ 64" using unsigned_less [of a] by (rule less_trans) simp
  then show ?thesis by (simp add: unsigned_ucast_eq take_bit_nat_eq_self)
qed

lemma unat_inc: "Suc (unat a) < 2 ^ LENGTH('a) \<Longrightarrow> unat (a + 1 :: 'a::len word) = Suc (unat a)"
  using unat_add_small [of a 1] by simp

lemma unat_inc_less: "a < b \<Longrightarrow> unat (a + 1 :: 'a::len word) = Suc (unat a)"
proof (rule unat_inc)
  assume "a < b"
  then have "Suc (unat a) \<le> unat b" by (simp add: word_less_nat_alt Suc_le_eq)
  also have "unat b < 2 ^ LENGTH('a)" by (rule unsigned_less)
  finally show "Suc (unat a) < 2 ^ LENGTH('a)" .
qed

lemma unat_and_mask: "unat (a AND mask n :: 'a::len word) = unat a mod 2 ^ n"
  unfolding take_bit_eq_mask [symmetric] unsigned_take_bit_eq by (rule take_bit_eq_mod)

lemma unat_pow2: "n < LENGTH('a) \<Longrightarrow> unat (2 ^ n :: 'a::len word) = 2 ^ n"
  using unat_of_nat_small [of "2 ^ n", where ?'a = 'a] by simp

text \<open>The usual test for a power of two.\<close>

lemma bit_top:
  assumes "2 ^ k \<le> n" "n < 2 ^ Suc k"
  shows "bit (n :: nat) k"
proof -
  have "n div 2 ^ k = 1" using assms by (intro div_nat_eqI) simp_all
  then show ?thesis by (simp add: bit_iff_odd)
qed

lemma pow2_if_and_dec:
  assumes "x \<noteq> (0 :: 'a::len word)" "x AND (x - 1) = 0"
  shows "\<exists>k<LENGTH('a). x = 2 ^ k"
proof -
  have "0 < unat x" using assms(1) by (simp add: unat_gt_0)
  then obtain k where k: "2 ^ k \<le> unat x" "unat x < 2 ^ Suc k" using ex_power_ivl1 [of 2 "unat x"] by auto
  have lt: "k < LENGTH('a)"
    using le_less_trans [OF k(1) unsigned_less [of x]] by simp
  have d: "unat (x - 1) = unat x - 1" using \<open>0 < unat x\<close> by (simp add: unat_minus_one assms(1))
  have "unat x = 2 ^ k"
  proof (rule ccontr)
    assume "unat x \<noteq> 2 ^ k"
    then have "bit (unat x) k" "bit (unat (x - 1)) k" using k bit_top unfolding d by simp_all
    then have "bit (x AND (x - 1)) k" by (simp add: bit_unsigned_iff bit_and_iff)
    then show False by (simp add: assms(2))
  qed
  then have "x = 2 ^ k" using lt by (metis unat_pow2 word_unat_eq_iff)
  then show ?thesis using lt by blast
qed

section \<open>Residues\<close>

lemma dvd_lt_zero: "n dvd m \<Longrightarrow> m < n \<Longrightarrow> m = (0 :: nat)"
  using dvd_imp_le [of n m] by (cases "m = 0") simp_all

text \<open>Within a span of \<open>N\<close> numbers the residues are distinct.\<close>

lemma residue_eq:
  assumes "b \<le> s" "s < b + n" "b \<le> t" "t < b + n" "s mod n = t mod n"
  shows "s = (t :: nat)"
proof -
  have uv: "u = v" if "u \<le> v" "b \<le> u" "v < b + n" "u mod n = v mod n" for u v :: nat
  proof -
    have "n dvd v - u" by (rule iffD1 [OF mod_eq_dvd_iff_nat [OF that(1)] that(4) [symmetric]])
    moreover have "v - u < n" using that(1-3) by linarith
    ultimately have "v - u = 0" by (rule dvd_lt_zero)
    then show ?thesis using that(1) by simp
  qed
  show ?thesis
  proof (cases "s \<le> t")
    case True
    then show ?thesis by (rule uv [OF _ assms(1,4,5)])
  next
    case False
    then show ?thesis using uv [OF _ assms(3,2) assms(5) [symmetric]] by simp
  qed
qed

text \<open>Every residue below \<open>n\<close> has a representative among the last \<open>n\<close> numbers below \<open>l\<close>.\<close>

lemma residue_repr:
  assumes "j < n" "j < (l :: nat)"
  obtains i where "i < l" "l \<le> i + n" "i mod n = j"
proof
  let ?i = "j + n * ((l - 1 - j) div n)"
  have d: "n * ((l - 1 - j) div n) + (l - 1 - j) mod n = l - 1 - j" by simp
  have m: "(l - 1 - j) mod n < n" using assms(1) by simp
  show "?i < l" using d assms(2) by linarith
  show "l \<le> ?i + n" using d m assms(2) by linarith
  show "?i mod n = j" using assms(1) by simp
qed

end
