(* ===== verification/GF256.thy ===== *)
theory GF256
  imports Prelude
begin

text \<open>
  The field arithmetic of \<open>fec.h\<close>: \<open>mul\<close>, \<open>inverse\<close> and
  \<open>coefficient\<close> over GF(256) with the polynomial 0x11d. The first half translates
  the three functions; the second shows that the bytes with XOR and \<open>mul\<close> are a field
  (type \<open>gf\<close>, an instance of the library's \<open>field\<close> class), so that the
  library's field reasoning applies to the code's arithmetic.
\<close>

section \<open>The functions of the source\<close>

text \<open>The update of \<open>a\<close> in the loop of \<open>mul\<close>: shift left, reduce on overflow.\<close>

definition mul_shift :: "u8 \<Rightarrow> u8" where
  "mul_shift a = (if a AND 128 \<noteq> 0 then push_bit 1 a XOR 0x1d else push_bit 1 a)"

function mul_loop :: "u8 \<Rightarrow> u8 \<Rightarrow> u8 \<Rightarrow> u8" where
  "mul_loop out a b =
     (if b = 0 then out
      else mul_loop (if b AND 1 \<noteq> 0 then out XOR a else out) (mul_shift a) (drop_bit 1 b))"
  by pat_completeness auto
termination
proof (relation "measure (\<lambda>(out, a, b). unat b)", goal_cases)
  case (2 out a b)
  then have "0 < unat b" by (simp add: unat_gt_0)
  then show ?case by (simp add: drop_bit_eq_div unat_div)
qed simp

declare mul_loop.simps [simp del]

definition mul :: "u8 \<Rightarrow> u8 \<Rightarrow> u8" where
  "mul a b = mul_loop 0 a b"

fun inverse_loop :: "nat \<Rightarrow> u8 \<Rightarrow> u8 \<Rightarrow> u8" where
  "inverse_loop n out a =
     (if n = 0 then out
      else inverse_loop (n div 2) (if odd n then mul out a else out) (mul a a))"

declare inverse_loop.simps [simp del]

definition gf_inverse :: "u8 \<Rightarrow> exn + u8" where
  "gf_inverse a = (if a = 0 then Inl InvalidArgument else Inr (inverse_loop 254 1 a))"

definition coefficient :: "u16 \<Rightarrow> u16 \<Rightarrow> exn + u8" where
  "coefficient row col =
     bind_exn (gf_inverse (ucast (col XOR (128 + row))))
       (\<lambda>i. Inr (mul (ucast (col XOR 128)) i))"

section \<open>Linearity of the product\<close>

lemma mul_shift_alt: "mul_shift a = push_bit 1 a XOR (if bit a 7 then 0x1d else 0)"
proof -
  have "a AND 128 \<noteq> 0 \<longleftrightarrow> bit a 7"
    using and_exp_eq_0_iff_not_bit [of a 7] by simp
  then show ?thesis by (simp add: mul_shift_def)
qed

lemma mul_shift_0 [simp]: "mul_shift 0 = 0"
  by (simp add: mul_shift_def)

lemma mul_shift_xor: "mul_shift (a XOR b) = mul_shift a XOR mul_shift b"
  by (auto simp: mul_shift_alt push_bit_xor bit_xor_iff xor.assoc xor.left_commute)

text \<open>The product as a sum over the lowest \<open>n\<close> bits of \<open>b\<close>.\<close>

fun mul_sum :: "nat \<Rightarrow> u8 \<Rightarrow> u8 \<Rightarrow> u8" where
  "mul_sum 0 a b = 0"
| "mul_sum (Suc n) a b = (if bit b 0 then a else 0) XOR mul_sum n (mul_shift a) (drop_bit 1 b)"

lemma mul_sum_0_right [simp]: "mul_sum n a 0 = 0"
  by (induction n arbitrary: a) auto

lemma mul_loop_sum: "drop_bit n b = 0 \<Longrightarrow> mul_loop out a b = out XOR mul_sum n a b"
proof (induction n arbitrary: out a b)
  case 0
  then show ?case by (simp add: mul_loop.simps)
next
  case (Suc n)
  have "b AND 1 \<noteq> 0 \<longleftrightarrow> bit b 0"
    using and_exp_eq_0_iff_not_bit [of b 0] by simp
  moreover have "drop_bit n (drop_bit 1 b) = 0"
    using Suc.prems by (simp add: drop_bit_drop_bit)
  ultimately show ?case
    using Suc.IH [of "drop_bit 1 b"] by (subst mul_loop.simps) (auto simp: xor.assoc)
qed

lemma drop_bit_8_u8 [simp]: "drop_bit 8 (b :: u8) = 0"
  by (rule bit_eqI) (simp add: bit_drop_bit_eq bit_imp_le_length [where 'a = 8, simplified])

lemma mul_eq_sum: "mul a b = mul_sum 8 a b"
  using mul_loop_sum [of 8 b 0 a] by (simp add: mul_def)

lemma mul_sum_xor_right: "mul_sum n a (b XOR c) = mul_sum n a b XOR mul_sum n a c"
proof (induction n arbitrary: a b c)
  case (Suc n)
  then show ?case
    by (auto simp: drop_bit_xor bit_xor_iff xor.assoc xor.left_commute)
qed simp

lemma mul_sum_xor_left: "mul_sum n (a XOR b) c = mul_sum n a c XOR mul_sum n b c"
proof (induction n arbitrary: a b c)
  case (Suc n)
  then show ?case
    by (auto simp: mul_shift_xor xor.assoc xor.left_commute)
qed simp

lemma mul_sum_shift_left: "mul_sum n (mul_shift a) b = mul_shift (mul_sum n a b)"
  by (induction n arbitrary: a b) (auto simp: mul_shift_xor)

lemma mul_xor_right: "mul a (b XOR c) = mul a b XOR mul a c"
  by (simp add: mul_eq_sum mul_sum_xor_right)

lemma mul_xor_left: "mul (a XOR b) c = mul a c XOR mul b c"
  by (simp add: mul_eq_sum mul_sum_xor_left)

lemma mul_0_left [simp]: "mul 0 b = 0"
  using mul_xor_left [of b b b] mul_xor_left [of 0 0 b] by simp

lemma mul_0_right [simp]: "mul a 0 = 0"
  by (simp add: mul_eq_sum)

lemma mul_1_right [simp]: "mul a 1 = a"
  by (simp add: mul_def mul_loop.simps)

section \<open>The generator 2 and its powers\<close>

text \<open>Every byte is a XOR of powers of two, so a linear identity is checked on eight values.\<close>

lemma take_bit_Suc_xor: "take_bit (Suc n) (a :: u8) = take_bit n a XOR (if bit a n then 2 ^ n else 0)"
  by (rule bit_eqI) (auto simp: bit_take_bit_iff bit_xor_iff bit_exp_iff less_Suc_eq)

lemma u8_xor_induct:
  fixes P :: "u8 \<Rightarrow> bool"
  assumes "P 0" and "\<And>n. n < 8 \<Longrightarrow> P (2 ^ n)" and "\<And>a b. P a \<Longrightarrow> P b \<Longrightarrow> P (a XOR b)"
  shows "P a"
proof -
  have "P (take_bit n a)" if "n \<le> 8" for n
    using that
  proof (induction n)
    case 0
    then show ?case using assms(1) by simp
  next
    case (Suc n)
    then show ?case using assms by (auto simp: take_bit_Suc_xor)
  qed
  from this [of 8] show ?thesis by (simp add: take_bit_length_eq [where 'a = 8, simplified])
qed

lemma less_8_cases: "n < 8 \<Longrightarrow> n = 0 \<or> n = 1 \<or> n = 2 \<or> n = 3 \<or> n = 4 \<or> n = 5 \<or> n = 6 \<or> n = (7::nat)"
  by arith

lemma mul_shift_right_basis: "n < 8 \<Longrightarrow> m < 8 \<Longrightarrow> mul (2 ^ m) (mul_shift (2 ^ n)) = mul_shift (mul (2 ^ m) (2 ^ n))"
  by (drule less_8_cases, drule less_8_cases) (elim disjE; simp add: mul_def mul_loop.simps mul_shift_def)

lemma mul_shift_right: "mul a (mul_shift b) = mul_shift (mul a b)"
proof (induction a rule: u8_xor_induct)
  case (2 m)
  show ?case
    by (induction b rule: u8_xor_induct)
       (auto simp: mul_xor_right mul_shift_xor mul_shift_right_basis 2)
qed (auto simp: mul_xor_left mul_shift_xor)

lemma mul_shift_eq_0 [simp]: "mul_shift a = 0 \<longleftrightarrow> a = 0"
proof
  assume eq: "mul_shift a = 0"
  have "\<not> bit a 7"
  proof
    assume "bit a 7"
    have "bit (push_bit 1 a XOR 0x1d) 0"
      by (simp only: bit_xor_iff bit_push_bit_iff) simp
    moreover have "push_bit 1 a XOR 0x1d = 0" using eq \<open>bit a 7\<close> by (simp add: mul_shift_alt)
    ultimately show False by simp
  qed
  with eq have "push_bit 1 a = 0" by (simp add: mul_shift_alt)
  have "\<not> bit a n" for n
  proof (cases "n < 7")
    case True
    have "bit (push_bit 1 a) (Suc n) = bit a n"
      using True by (simp only: bit_push_bit_iff) simp
    with \<open>push_bit 1 a = 0\<close> show ?thesis by simp
  next
    case False
    with \<open>\<not> bit a 7\<close> show ?thesis
      using bit_imp_le_length [of a n] by (cases "n = 7") auto
  qed
  then show "a = 0" by (intro bit_eqI) simp
qed simp

lemma inj_mul_shift: "mul_shift a = mul_shift b \<Longrightarrow> a = b"
  using mul_shift_xor [of a b] mul_shift_eq_0 [of "a XOR b"] by (simp add: xor_word_eq_0_iff)

definition gen_pow :: "nat \<Rightarrow> u8" where
  "gen_pow n = (mul_shift ^^ n) 1"

lemma gen_pow_simps [simp]: "gen_pow 0 = 1" "gen_pow (Suc n) = mul_shift (gen_pow n)"
  by (simp_all add: gen_pow_def)

lemma mul_gen_pow: "mul a (gen_pow n) = (mul_shift ^^ n) a"
  by (induction n) (auto simp: mul_shift_right)

lemma mul_gen_pow_add: "mul (gen_pow m) (gen_pow n) = gen_pow (m + n)"
  by (simp add: mul_gen_pow) (simp add: gen_pow_def funpow_add add.commute [of m])

lemma gen_pow_nonzero [simp]: "gen_pow n \<noteq> 0"
  by (induction n) auto

fun shift_orbit :: "nat \<Rightarrow> u8 \<Rightarrow> bool" where
  "shift_orbit 0 a \<longleftrightarrow> a = 1"
| "shift_orbit (Suc n) a \<longleftrightarrow> a \<noteq> 1 \<and> shift_orbit n (mul_shift a)"

lemma shift_orbit_pow:
  "shift_orbit n a \<Longrightarrow> (mul_shift ^^ n) a = 1 \<and> (\<forall>i < n. (mul_shift ^^ i) a \<noteq> 1)"
proof (induction n arbitrary: a)
  case (Suc n)
  then show ?case
    by (auto simp: funpow_Suc_right less_Suc_eq_0_disj simp del: funpow.simps(2))
qed simp

lemma shift_orbit_254: "shift_orbit 254 2"
  by code_simp

lemma gen_pow_2: "gen_pow (Suc n) = (mul_shift ^^ n) 2"
proof -
  have "mul_shift 1 = 2" by (simp add: mul_shift_def)
  then show ?thesis unfolding gen_pow_def funpow_Suc_right by simp
qed

lemma gen_pow_255: "gen_pow 255 = 1"
proof -
  have "gen_pow (Suc 254) = 1"
    unfolding gen_pow_2 using shift_orbit_pow [OF shift_orbit_254] by blast
  moreover have "Suc 254 = 255" by simp
  ultimately show ?thesis by metis
qed

lemma gen_pow_order: "0 < n \<Longrightarrow> n < 255 \<Longrightarrow> gen_pow n \<noteq> 1"
proof -
  assume "0 < n" "n < 255"
  then obtain m where "n = Suc m" "m < 254" by (cases n) auto
  then show ?thesis
    unfolding \<open>n = Suc m\<close> gen_pow_2 using shift_orbit_pow [OF shift_orbit_254] by blast
qed

lemma gen_pow_inj: "i < j \<Longrightarrow> j < 255 \<Longrightarrow> gen_pow i \<noteq> gen_pow j"
proof (induction i arbitrary: j)
  case 0
  then show ?case using gen_pow_order [of j] by simp
next
  case (Suc i)
  then obtain j' where "j = Suc j'" by (cases j) auto
  with Suc show ?case using inj_mul_shift by fastforce
qed

lemma gen_pow_surj: "(a :: u8) \<noteq> 0 \<Longrightarrow> \<exists>n < 255. a = gen_pow n"
proof -
  have "inj_on gen_pow {..<255}"
    by (rule inj_onI) (metis gen_pow_inj lessThan_iff linorder_neqE_nat)
  then have "card (gen_pow ` {..<255}) = card (UNIV - {0 :: u8})"
    by (simp add: card_image card_Diff_singleton card_word)
  moreover have "gen_pow ` {..<255} \<subseteq> UNIV - {0}" by auto
  ultimately have "gen_pow ` {..<255} = UNIV - {0}"
    by (intro card_subset_eq) auto
  then show "a \<noteq> 0 \<Longrightarrow> ?thesis" by blast
qed

section \<open>The bytes as a field\<close>

lemma mul_commute: "mul a b = mul b a"
proof (cases "a = 0 \<or> b = 0")
  case False
  then obtain m n where "a = gen_pow m" "b = gen_pow n"
    using gen_pow_surj by metis
  then show ?thesis by (simp add: mul_gen_pow_add add.commute)
qed auto

lemma mul_assoc: "mul (mul a b) c = mul a (mul b c)"
proof (cases "a = 0 \<or> b = 0 \<or> c = 0")
  case False
  then obtain l m n where "a = gen_pow l" "b = gen_pow m" "c = gen_pow n"
    using gen_pow_surj by metis
  then show ?thesis by (simp add: mul_gen_pow_add add.assoc)
qed auto

lemma mul_1_left [simp]: "mul 1 b = b"
  using mul_commute [of 1 b] by simp

typedef gf = "UNIV :: u8 set"
  morphisms byte_of gf_of
  by simp

setup_lifting type_definition_gf

instantiation gf :: comm_ring_1
begin

lift_definition zero_gf :: gf is 0 .
lift_definition one_gf :: gf is 1 .
lift_definition plus_gf :: "gf \<Rightarrow> gf \<Rightarrow> gf" is "\<lambda>a b. a XOR b" .
lift_definition minus_gf :: "gf \<Rightarrow> gf \<Rightarrow> gf" is "\<lambda>a b. a XOR b" .
lift_definition uminus_gf :: "gf \<Rightarrow> gf" is "\<lambda>a. a" .
lift_definition times_gf :: "gf \<Rightarrow> gf \<Rightarrow> gf" is mul .

instance
proof
  fix a b c :: gf
  show "a + b + c = a + (b + c)" by transfer (rule xor.assoc)
  show "a + b = b + a" by transfer (rule xor.commute)
  show "0 + a = a" by transfer simp
  show "- a + a = 0" by transfer simp
  show "a - b = a + - b" by transfer simp
  show "a * b * c = a * (b * c)" by transfer (rule mul_assoc)
  show "a * b = b * a" by transfer (rule mul_commute)
  show "1 * a = a" by transfer simp
  show "(a + b) * c = a * c + b * c" by transfer (rule mul_xor_left)
  show "(0 :: gf) \<noteq> 1" by transfer simp
qed

end

lemma gf_of_0 [simp]: "gf_of 0 = 0" by (simp add: zero_gf_def)
lemma gf_of_1 [simp]: "gf_of 1 = 1" by (simp add: one_gf_def)
lemma gf_of_xor [simp]: "gf_of (a XOR b) = gf_of a + gf_of b"
  by (simp add: plus_gf.abs_eq)
lemma gf_of_mul [simp]: "gf_of (mul a b) = gf_of a * gf_of b"
  by (simp add: times_gf.abs_eq)
lemma gf_of_eq_iff [simp]: "gf_of a = gf_of b \<longleftrightarrow> a = b"
  by (simp add: gf_of_inject)
lemma gf_of_eq_0_iff [simp]: "gf_of a = 0 \<longleftrightarrow> a = 0"
  using gf_of_eq_iff [of a 0] by (simp del: gf_of_eq_iff)

lemma gf_add_self [simp]: "(x :: gf) + x = 0"
  by transfer simp
lemma gf_uminus [simp]: "- (x :: gf) = x"
  by transfer simp
lemma gf_minus: "(x :: gf) - y = x + y"
  by transfer simp

lemma inverse_loop_pow: "gf_of (inverse_loop n out a) = gf_of out * gf_of a ^ n"
proof (induction n out a rule: inverse_loop.induct)
  case (1 n out a)
  show ?case
  proof (cases "n = 0")
    case False
    have "gf_of a ^ n = gf_of a ^ (2 * (n div 2) + n mod 2)" by simp
    also have "\<dots> = (gf_of a * gf_of a) ^ (n div 2) * gf_of a ^ (n mod 2)"
      by (simp only: power_add power_mult power2_eq_square)
    finally have "gf_of a ^ n = (gf_of a * gf_of a) ^ (n div 2) * gf_of a ^ (n mod 2)" .
    with False 1 show ?thesis
      by (subst inverse_loop.simps) (auto simp: odd_iff_mod_2_eq_one even_iff_mod_2_eq_zero)
  qed (simp add: inverse_loop.simps)
qed

lemma gf_of_gen_pow: "gf_of (gen_pow n) = gf_of 2 ^ n"
proof (induction n)
  case (Suc n)
  have "gen_pow 1 = 2" by (simp add: mul_shift_def)
  have "gen_pow (Suc n) = mul (gen_pow n) (gen_pow 1)"
    using mul_gen_pow_add [of n 1] by simp
  with Suc \<open>gen_pow 1 = 2\<close> show ?case by (simp del: gen_pow_simps)
qed simp

lemma gf_pow_255: "x \<noteq> 0 \<Longrightarrow> (x :: gf) ^ 255 = 1"
proof -
  assume "x \<noteq> 0"
  obtain a where x: "x = gf_of a" by (cases x) auto
  with \<open>x \<noteq> 0\<close> obtain n where "a = gen_pow n" using gen_pow_surj [of a] by auto
  then have "x ^ 255 = (gf_of 2 ^ 255) ^ n"
    by (simp only: x gf_of_gen_pow power_mult [symmetric] mult.commute)
  also have "gf_of 2 ^ 255 = 1" using gf_of_gen_pow [of 255] gen_pow_255 by simp
  finally show ?thesis by simp
qed

instantiation gf :: field
begin

definition inverse_gf :: "gf \<Rightarrow> gf" where
  "inverse_gf x = x ^ 254"
definition divide_gf :: "gf \<Rightarrow> gf \<Rightarrow> gf" where
  "divide_gf x y = x * inverse y"

instance
proof
  fix a b :: gf
  have "a * a ^ 254 = a ^ 255" using power_Suc [of a 254] by simp
  then show "a \<noteq> 0 \<Longrightarrow> inverse a * a = 1"
    using gf_pow_255 [of a] by (simp add: inverse_gf_def mult.commute)
  show "a div b = a * inverse b" by (simp add: divide_gf_def)
  show "inverse (0 :: gf) = 0" by (simp add: inverse_gf_def)
qed

end

section \<open>The inverse and the coefficients in the field\<close>

lemma gf_inverse_field: "a \<noteq> 0 \<Longrightarrow> \<exists>i. gf_inverse a = Inr i \<and> gf_of i = inverse (gf_of a)"
  by (simp add: gf_inverse_def inverse_loop_pow inverse_gf_def)

lemma gf_inverse_0 [simp]: "gf_inverse 0 = Inl InvalidArgument"
  by (simp add: gf_inverse_def)

text \<open>The Cauchy points: parity row \<open>r\<close> is the byte \<open>128 + r\<close>, data column \<open>c\<close> the byte \<open>c\<close>.\<close>

definition row_point :: "nat \<Rightarrow> gf" where
  "row_point r = gf_of (of_nat (128 + r))"

definition col_point :: "nat \<Rightarrow> gf" where
  "col_point c = gf_of (of_nat c)"

definition gcoef :: "nat \<Rightarrow> nat \<Rightarrow> gf" where
  "gcoef r c = (col_point c + row_point 0) / (row_point r + col_point c)"

lemma of_nat_u8_inj: "m < 256 \<Longrightarrow> n < 256 \<Longrightarrow> (of_nat m :: u8) = of_nat n \<Longrightarrow> m = n"
  by (auto simp: word_of_nat_eq_iff take_bit_eq_mod)

lemma gf_add_eq_0_iff: "(x :: gf) + y = 0 \<longleftrightarrow> x = y"
  by (simp add: add_eq_0_iff2)

lemma row_col_point: "r < 128 \<Longrightarrow> c < 128 \<Longrightarrow> row_point r + col_point c \<noteq> 0"
  using of_nat_u8_inj [of "128 + r" c] by (auto simp: gf_add_eq_0_iff row_point_def col_point_def)

lemma row_point_inj: "r < 128 \<Longrightarrow> r' < 128 \<Longrightarrow> row_point r = row_point r' \<Longrightarrow> r = r'"
  using of_nat_u8_inj [of "128 + r" "128 + r'"] by (auto simp: row_point_def simp del: of_nat_add)

lemma col_point_inj: "c < 128 \<Longrightarrow> c' < 128 \<Longrightarrow> col_point c = col_point c' \<Longrightarrow> c = c'"
  using of_nat_u8_inj [of c c'] by (auto simp: col_point_def)

lemma gcoef_row_0: "c < 128 \<Longrightarrow> gcoef 0 c = 1"
  using row_col_point [of 0 c] by (simp add: gcoef_def add.commute)

lemma ucast_of_nat_u16_u8: "(ucast (of_nat n :: u16) :: u8) = of_nat n"
  by (simp add: unsigned_of_nat word_of_nat_eq_iff)

lemma coefficient_field:
  assumes "r < 128" and "c < 128"
  shows "\<exists>b. coefficient (of_nat r) (of_nat c) = Inr b \<and> gf_of b = gcoef r c"
proof -
  let ?d = "ucast ((of_nat c :: u16) XOR (128 + of_nat r)) :: u8"
  have d: "?d = of_nat c XOR of_nat (128 + r)"
    using ucast_of_nat_u16_u8 [of c] ucast_of_nat_u16_u8 [of "128 + r"]
    by (simp add: unsigned_xor_eq)
  have e: "(ucast ((of_nat c :: u16) XOR 128) :: u8) = of_nat c XOR of_nat 128"
    using ucast_of_nat_u16_u8 [of c] ucast_of_nat_u16_u8 [of 128]
    by (simp add: unsigned_xor_eq)
  have "gf_of ?d = row_point r + col_point c"
    by (simp only: d gf_of_xor) (simp add: row_point_def col_point_def add.commute)
  then have "?d \<noteq> 0" using row_col_point [OF assms] by (metis gf_of_eq_0_iff)
  from gf_inverse_field [OF this] show ?thesis
    unfolding coefficient_def e using \<open>gf_of ?d = _\<close>
    by (auto simp: gcoef_def divide_gf_def row_point_def col_point_def)
qed

end
