(* ===== verification/Linear.thy ===== *)
theory Linear
  imports Main
begin

text \<open>
  Linear algebra over an arbitrary field, with a matrix as a function of row and column:
  regularity (trivial kernel), solutions of a linear system, the row operations of one
  Gauss-Jordan column and what they keep, and the regularity of Cauchy matrices, on which
  the recovery guarantee of \<open>fec.h\<close> rests.
\<close>

section \<open>Regular matrices and linear systems\<close>

definition regular :: "nat \<Rightarrow> (nat \<Rightarrow> nat \<Rightarrow> 'a::field) \<Rightarrow> bool" where
  "regular n m \<longleftrightarrow> (\<forall>v. (\<forall>r<n. (\<Sum>c<n. m r c * v c) = 0) \<longrightarrow> (\<forall>c<n. v c = 0))"

definition solves :: "nat \<Rightarrow> nat \<Rightarrow> (nat \<Rightarrow> nat \<Rightarrow> 'a::field) \<Rightarrow> (nat \<Rightarrow> nat \<Rightarrow> 'a) \<Rightarrow>
    (nat \<Rightarrow> nat \<Rightarrow> 'a) \<Rightarrow> bool" where
  "solves n w m x b \<longleftrightarrow> (\<forall>r<n. \<forall>j<w. (\<Sum>c<n. m r c * x c j) = b r j)"

text \<open>The first \<open>k\<close> columns are columns of the identity.\<close>

definition unit_cols :: "nat \<Rightarrow> nat \<Rightarrow> (nat \<Rightarrow> nat \<Rightarrow> 'a::field) \<Rightarrow> bool" where
  "unit_cols n k m \<longleftrightarrow> (\<forall>r<n. \<forall>c<k. m r c = (if r = c then 1 else 0))"

text \<open>Swap rows \<open>p\<close> and \<open>c\<close>, scale row \<open>c\<close>, subtract multiples of it from the others.\<close>

definition row_ops :: "nat \<Rightarrow> nat \<Rightarrow> 'a::field \<Rightarrow> (nat \<Rightarrow> 'a) \<Rightarrow> (nat \<Rightarrow> nat \<Rightarrow> 'a) \<Rightarrow> nat \<Rightarrow> nat \<Rightarrow> 'a" where
  "row_ops p c s f a r j =
     (let a' = a(p := a c, c := a p)
      in if r = c then a' c j * s else a' r j - f r * (a' c j * s))"

lemma sum_row_ops:
  "(\<Sum>k<n. row_ops p c s f a r k * v k) =
   (let S = (\<lambda>r. \<Sum>k<n. (a(p := a c, c := a p)) r k * v k)
    in if r = c then S c * s else S r - f r * (S c * s))"
  by (simp add: row_ops_def Let_def sum_distrib_right sum_distrib_left sum_subtractf
      algebra_simps)

lemma regular_row_ops:
  assumes "regular n m" and "p < n" and "c < n" and "s \<noteq> 0"
  shows "regular n (row_ops p c s f m)"
  unfolding regular_def
proof (intro allI impI)
  fix v k
  assume z: "\<forall>r<n. (\<Sum>k<n. row_ops p c s f m r k * v k) = 0" and "k < n"
  define S where "S r = (\<Sum>k<n. (m(p := m c, c := m p)) r k * v k)" for r
  have ops: "(\<Sum>k<n. row_ops p c s f m r k * v k) = (if r = c then S c * s else S r - f r * (S c * s))" for r
    by (simp only: sum_row_ops S_def Let_def)
  have "S c = 0" using z assms(3,4) ops [of c] by simp
  with z ops have S: "S r = 0" if "r < n" for r
    using that by (cases "r = c") auto
  have "(\<Sum>k<n. m r k * v k) = 0" if "r < n" for r
  proof -
    have "(\<Sum>k<n. m r k * v k) = S (if r = p then c else if r = c then p else r)"
      by (simp add: S_def)
    then show ?thesis using S that assms(2,3) by simp
  qed
  with assms(1) \<open>k < n\<close> show "v k = 0" by (simp add: regular_def)
qed

lemma solves_row_ops:
  assumes "solves n w m x b" and "p < n" and "c < n"
  shows "solves n w (row_ops p c s f m) x (row_ops p c s f b)"
  unfolding solves_def
proof (intro allI impI)
  fix r j
  assume "r < n" "j < w"
  have "(\<Sum>k<n. m i k * x k j) = b i j" if "i < n" for i
    using assms that \<open>j < w\<close> by (auto simp: solves_def)
  with assms(2,3) \<open>r < n\<close> show "(\<Sum>k<n. row_ops p c s f m r k * x k j) = row_ops p c s f b r j"
    by (simp only: sum_row_ops) (simp add: row_ops_def Let_def)
qed

lemma unit_cols_row_ops:
  assumes "unit_cols n c m" and "c \<le> p" and "p < n" and "m p c \<noteq> 0"
  shows "unit_cols n (Suc c) (row_ops p c (inverse (m p c)) (\<lambda>r. (m(p := m c, c := m p)) r c) m)"
  using assms by (auto simp: unit_cols_def row_ops_def Let_def less_Suc_eq)

lemma regular_pivot:
  assumes "regular n m" and "unit_cols n c m" and "c < n"
  shows "\<exists>p. c \<le> p \<and> p < n \<and> m p c \<noteq> 0"
proof (rule ccontr)
  assume "\<not> ?thesis"
  then have z: "m r c = 0" if "c \<le> r" "r < n" for r using that by blast
  define v where "v k = (if k = c then 1 else if k < c then - m k c else 0)" for k
  have "(\<Sum>k<n. m r k * v k) = 0" if "r < n" for r
  proof -
    have "(\<Sum>k<n. m r k * v k) =
        (\<Sum>k<n. (if k = c then m r c else 0) + (if k = r then (if r < c then - m r c else 0) else 0))"
      using assms(2) that by (intro sum.cong) (auto simp: v_def unit_cols_def)
    also have "\<dots> = m r c + (if r < c then - m r c else 0)"
      using that assms(3) by (simp add: sum.distrib)
    finally show ?thesis using z that by auto
  qed
  with assms(1,3) have "v c = 0" by (simp add: regular_def)
  then show False by (simp add: v_def)
qed

lemma solves_identity:
  assumes "unit_cols n n m" and "solves n w m x b" and "r < n" and "j < w"
  shows "b r j = x r j"
proof -
  have "b r j = (\<Sum>k<n. m r k * x k j)" using assms by (simp add: solves_def)
  also have "\<dots> = (\<Sum>k<n. if k = r then x r j else 0)"
    using assms by (intro sum.cong) (auto simp: unit_cols_def)
  finally show ?thesis using assms(3) by simp
qed

section \<open>Cauchy matrices are regular\<close>

lemma cauchy_kernel:
  fixes x y :: "nat \<Rightarrow> 'a::field"
  assumes "inj_on x {..<n}" and "inj_on y {..<n}"
    and "\<And>i j. i < n \<Longrightarrow> j < n \<Longrightarrow> x i + y j \<noteq> 0"
    and "\<And>i. i < n \<Longrightarrow> (\<Sum>j<n. v j / (x i + y j)) = 0"
  shows "j < n \<Longrightarrow> v j = 0"
  using assms
proof (induction n arbitrary: v j)
  case (Suc n)
  define w where "w j = v j * (y n - y j) / (x n + y j)" for j
  have nz: "x i + y j \<noteq> 0" if "i \<le> n" "j \<le> n" for i j using Suc.prems(4) that by simp
  have split: "(\<Sum>j<n. v j * (y n - y j) / (x i + y j)) = - (\<Sum>j\<le>n. v j)" if "i \<le> n" for i
  proof -
    have "0 = (x i + y n) * (\<Sum>j\<le>n. v j / (x i + y j))"
      using Suc.prems(5) [of i] that by (simp add: lessThan_Suc_atMost)
    also have "\<dots> = (\<Sum>j\<le>n. v j + v j * (y n - y j) / (x i + y j))"
      unfolding sum_distrib_left using nz that by (intro sum.cong) (auto simp: field_simps)
    also have "\<dots> = (\<Sum>j\<le>n. v j) + (\<Sum>j\<le>n. v j * (y n - y j) / (x i + y j))"
      by (simp add: sum.distrib)
    also have "(\<Sum>j\<le>n. v j * (y n - y j) / (x i + y j)) = (\<Sum>j<n. v j * (y n - y j) / (x i + y j))"
      by (simp add: lessThan_Suc_atMost [symmetric])
    finally show ?thesis by (simp add: eq_neg_iff_add_eq_0 add.commute)
  qed
  have "(\<Sum>j<n. w j / (x i + y j)) = 0" if "i < n" for i
  proof -
    have "x n - x i \<noteq> 0" using inj_onD [OF Suc.prems(2), of n i] that by auto
    have "(x n - x i) * (\<Sum>j<n. w j / (x i + y j)) =
        (\<Sum>j<n. v j * (y n - y j) / (x i + y j) - v j * (y n - y j) / (x n + y j))"
      unfolding sum_distrib_left
    proof (intro sum.cong refl)
      fix j assume "j \<in> {..<n}"
      then have "x i + y j \<noteq> 0" "x n + y j \<noteq> 0" using nz that by simp_all
      then show "(x n - x i) * (w j / (x i + y j)) =
          v j * (y n - y j) / (x i + y j) - v j * (y n - y j) / (x n + y j)"
        by (simp add: w_def field_simps)
    qed
    also have "\<dots> = 0" using split [of i] split [of n] that by (simp add: sum_subtractf)
    finally show ?thesis using \<open>x n - x i \<noteq> 0\<close> by simp
  qed
  moreover have "inj_on x {..<n}" "inj_on y {..<n}"
    using Suc.prems(2,3) by (auto simp: inj_on_def)
  ultimately have w0: "w j = 0" if "j < n" for j
    using Suc.IH [of j w] that Suc.prems(4) by auto
  have v0: "v j = 0" if "j < n" for j
  proof -
    have "y n \<noteq> y j" using inj_onD [OF Suc.prems(3), of n j] that by auto
    then show ?thesis using w0 [OF that] nz [of n j] that by (simp add: w_def)
  qed
  moreover have "v n = 0"
    using Suc.prems(5) [of n] v0 nz [of n n] by simp
  ultimately show ?case using Suc.prems(1) by (auto simp: less_Suc_eq)
qed simp

lemma cauchy_regular:
  fixes x y d :: "nat \<Rightarrow> 'a::field"
  assumes "inj_on x {..<n}" and "inj_on y {..<n}"
    and "\<And>i j. i < n \<Longrightarrow> j < n \<Longrightarrow> x i + y j \<noteq> 0" and "\<And>j. j < n \<Longrightarrow> d j \<noteq> 0"
  shows "regular n (\<lambda>i j. d j / (x i + y j))"
  unfolding regular_def
proof (intro allI impI)
  fix v j
  assume "\<forall>r<n. (\<Sum>c<n. d c / (x r + y c) * v c) = 0" and "j < n"
  then have "d j * v j = 0"
    by (intro cauchy_kernel [OF assms(1-3), where v = "\<lambda>j. d j * v j"]) (auto simp: mult_ac)
  with assms(4) \<open>j < n\<close> show "v j = 0" by simp
qed

end
