(* ===== verification/Wire.thy ===== *)
theory Wire
  imports Prelude
begin

text \<open>
  The byte codec of \<open>wire.h\<close>: the \<open>Writer\<close> that appends fixed-width fields and
  the \<open>Reader\<close> that takes them back with a bounds check. The interface every message
  type relies on is the locale \<open>codec\<close>: a reader and a writer of the same width that
  are inverse to each other. The scalar codecs interpret it here, the message structs in
  \<open>Message\<close>, the FEC envelope in \<open>Fec_Wire\<close>.
\<close>

section \<open>Writer and Reader\<close>

text \<open>
  \<open>BE\<close> is the network order of \<open>Writer\<close> and \<open>Reader\<close>; \<open>LE\<close> the order of
  the native object representation (x86-64) that \<open>memcpy\<close> exposes.
\<close>

datatype endian = BE | LE

text \<open>The loop of \<open>Writer::value\<close> on an integer: most significant byte first.\<close>

fun put_be :: "nat \<Rightarrow> 'a::len word \<Rightarrow> bytes" where
  "put_be 0 v = []"
| "put_be (Suc i) v = ucast (drop_bit (i * 8) v) # put_be i v"

definition put_int :: "endian \<Rightarrow> nat \<Rightarrow> 'a::len word \<Rightarrow> bytes" where
  "put_int en n v = (case en of BE \<Rightarrow> put_be n v | LE \<Rightarrow> rev (put_be n v))"

record reader =
  rd_data :: bytes
  rd_size :: nat
  rd_pos :: nat

text \<open>The loop \<open>bits=(bits<<8)|data[pos++]\<close> of \<open>Reader::value\<close>.\<close>

definition be_value :: "bytes \<Rightarrow> 'a::len word" where
  "be_value bs = foldl (\<lambda>bits b. push_bit 8 bits OR ucast b) 0 bs"

definition get_int :: "endian \<Rightarrow> nat \<Rightarrow> reader \<Rightarrow> exn + 'a::len word \<times> reader" where
  "get_int en n r =
     (if rd_pos r + n > rd_size r then Inl LengthError
      else let bs = take n (drop (rd_pos r) (rd_data r))
           in Inr (be_value (case en of BE \<Rightarrow> bs | LE \<Rightarrow> rev bs), r\<lparr>rd_pos := rd_pos r + n\<rparr>))"

text \<open>\<open>Reader::operator()\<close> reads its arguments one after the other.\<close>

definition rd_bind :: "(reader \<Rightarrow> exn + 'a \<times> reader) \<Rightarrow> ('a \<Rightarrow> reader \<Rightarrow> exn + 'b \<times> reader) \<Rightarrow>
    reader \<Rightarrow> exn + 'b \<times> reader" where
  "rd_bind m f r = bind_exn (m r) (\<lambda>(x, r). f x r)"

definition rd_ret :: "'a \<Rightarrow> reader \<Rightarrow> exn + 'a \<times> reader" where
  "rd_ret x r = Inr (x, r)"

text \<open>A signed field: the writer casts to unsigned, the reader undoes two's complement.\<close>

definition put_sint :: "endian \<Rightarrow> nat \<Rightarrow> 'a::len itself \<Rightarrow> int \<Rightarrow> bytes" where
  "put_sint en n _ v = put_int en n (word_of_int v :: 'a word)"

definition signed_of_bits :: "'a::len word \<Rightarrow> int" where
  "signed_of_bits bits =
     (if uint bits \<le> 2 ^ (LENGTH('a) - 1) - 1 then uint bits else -1 - uint (NOT bits))"

definition get_sint :: "endian \<Rightarrow> nat \<Rightarrow> 'a::len itself \<Rightarrow> reader \<Rightarrow> exn + int \<times> reader" where
  "get_sint en n _ = rd_bind (get_int en n) (\<lambda>bits :: 'a word. rd_ret (signed_of_bits bits))"

text \<open>\<open>value\<close> on a C array writes or reads the elements in order.\<close>

definition put_array :: "('a \<Rightarrow> bytes) \<Rightarrow> 'a list \<Rightarrow> bytes" where
  "put_array wr xs = concat (map wr xs)"

fun get_array :: "(reader \<Rightarrow> exn + 'a \<times> reader) \<Rightarrow> nat \<Rightarrow> reader \<Rightarrow> exn + 'a list \<times> reader" where
  "get_array rd 0 = rd_ret []"
| "get_array rd (Suc n) = rd_bind rd (\<lambda>x. rd_bind (get_array rd n) (\<lambda>xs. rd_ret (x # xs)))"

section \<open>Byte order conversion is a bijection\<close>

lemma length_put_be [simp]: "length (put_be n v) = n"
  by (induction n) auto

lemma length_put_int [simp]: "length (put_int en n v) = n"
  by (cases en) (auto simp: put_int_def)

lemma be_value_put_be_aux:
  "foldl (\<lambda>bits b. push_bit 8 bits OR ucast b) acc (put_be n (v :: 'a::len word)) =
   push_bit (8 * n) acc OR take_bit (8 * n) v"
proof (induction n arbitrary: acc)
  case (Suc n)
  have "push_bit (8 * n) (push_bit 8 acc OR ucast (ucast (drop_bit (n * 8) v) :: u8)) OR take_bit (8 * n) v =
      push_bit (8 * Suc n) acc OR take_bit (8 * Suc n) v"
    by (rule bit_eqI)
      (auto simp: bit_simps not_less le_diff_conv2 algebra_simps)
  then show ?case using Suc by simp
qed simp

lemma be_value_put_be:
  "LENGTH('a::len) = 8 * n \<Longrightarrow> be_value (put_be n (v :: 'a word)) = v"
proof -
  assume "LENGTH('a) = 8 * n"
  then have "take_bit (8 * n) v = v" by (metis take_bit_length_eq)
  then show ?thesis using be_value_put_be_aux [of 0 n v] by (simp add: be_value_def)
qed

lemma put_be_snoc: "put_be (Suc n) v = put_be n (drop_bit 8 v) @ [ucast v]"
proof (induction n)
  case (Suc n)
  have "put_be (Suc (Suc n)) v = ucast (drop_bit (Suc n * 8) v) # put_be (Suc n) v" by simp
  also have "\<dots> = ucast (drop_bit (n * 8) (drop_bit 8 v)) # put_be n (drop_bit 8 v) @ [ucast v]"
    by (simp only: Suc drop_bit_drop_bit) (simp add: algebra_simps)
  finally show ?case by simp
qed simp

lemma put_be_cong_low:
  assumes "\<And>i. i < 8 * n \<Longrightarrow> bit v i = bit w i"
  shows "put_be n (v :: 'a::len word) = put_be n w"
  using assms
proof (induction n)
  case (Suc n)
  have "(ucast (drop_bit (n * 8) v) :: u8) = ucast (drop_bit (n * 8) w)"
    using Suc.prems by (intro bit_eqI) (auto simp: bit_simps algebra_simps)
  then show ?case using Suc by simp
qed simp

lemma put_be_be_value:
  "length bs = n \<Longrightarrow> 8 * n \<le> LENGTH('a::len) \<Longrightarrow> put_be n (be_value bs :: 'a word) = bs"
proof (induction bs arbitrary: n rule: rev_induct)
  case (snoc b bs)
  then obtain m where n: "n = Suc m" "length bs = m" by auto
  let ?x = "be_value bs :: 'a word"
  have v: "be_value (bs @ [b]) = push_bit 8 ?x OR ucast b" by (simp add: be_value_def)
  have "(ucast (push_bit 8 ?x OR ucast b) :: u8) = b"
    using snoc.prems n by (intro bit_eqI) (auto simp: bit_simps)
  moreover have "put_be m (drop_bit 8 (push_bit 8 ?x OR ucast b)) = put_be m ?x"
    using snoc.prems n by (intro put_be_cong_low) (auto simp: bit_simps dest: bit_imp_le_length)
  moreover have "put_be m ?x = bs" using snoc n by simp
  ultimately show ?case unfolding n(1) v put_be_snoc by simp
qed (simp add: be_value_def)

lemma word_of_int_signed_of_bits: "word_of_int (signed_of_bits bits) = (bits :: 'a::len word)"
  by (simp add: signed_of_bits_def not_eq_complement)

lemma signed_of_bits_range:
  "- (2 ^ (LENGTH('a) - 1)) \<le> signed_of_bits (bits :: 'a::len word) \<and>
   signed_of_bits bits < 2 ^ (LENGTH('a) - 1)"
proof -
  have two: "(2::int) ^ LENGTH('a) = 2 * 2 ^ (LENGTH('a) - 1)"
    by (metis One_nat_def Suc_pred len_gt_0 power_Suc)
  have "uint (NOT bits) = 2 ^ LENGTH('a) - 1 - uint bits"
  proof -
    have "uint (NOT bits) = (- uint bits - 1) mod 2 ^ LENGTH('a)"
      by (simp only: unsigned_not_eq take_bit_eq_mod not_eq_complement [of "uint bits"])
    also have "\<dots> = (2 ^ LENGTH('a) - 1 - uint bits) mod 2 ^ LENGTH('a)"
      by (metis (no_types, opaque_lifting) add_diff_eq diff_add_cancel mod_add_self1 uminus_add_conv_diff diff_diff_eq2 add.commute diff_minus_eq_add)
    also have "\<dots> = 2 ^ LENGTH('a) - 1 - uint bits"
      using uint_lt2p [of bits] uint_ge_0 [of bits] by (intro mod_pos_pos_trivial) linarith+
    finally show ?thesis .
  qed
  moreover have "- (2 ^ (LENGTH('a) - 1)) \<le> (0::int)" by simp
  ultimately show ?thesis
    using uint_lt2p [of bits] uint_ge_0 [of bits] two
    unfolding signed_of_bits_def by (auto simp only: if_splits split: if_split)
qed

lemma signed_of_bits_sint: "signed_of_bits (bits :: 'a::len word) = sint bits"
proof -
  have "sint bits = signed_take_bit (LENGTH('a) - 1) (signed_of_bits bits)"
    using word_of_int_signed_of_bits [of bits] 
    by (metis sint_sbintrunc')
  moreover have "signed_take_bit (LENGTH('a) - 1) (signed_of_bits bits) = signed_of_bits bits"
    using signed_of_bits_range [of bits] by (intro signed_take_bit_int_eq_self) auto
  ultimately show ?thesis by simp
qed

section \<open>Readers that consume a fixed number of bytes\<close>

text \<open>
  \<open>reads rd P w\<close>: at every position of a buffer that holds \<open>w\<close> more bytes the reader
  succeeds, moves by \<open>w\<close> and relates its result to these bytes by \<open>P\<close>; with fewer
  bytes left it throws \<open>length_error\<close>.
\<close>

definition rd_wf :: "reader \<Rightarrow> bool" where
  "rd_wf r \<longleftrightarrow> rd_pos r \<le> rd_size r \<and> rd_size r \<le> length (rd_data r)"

definition rd_adv :: "nat \<Rightarrow> reader \<Rightarrow> reader" where
  "rd_adv n r = r\<lparr>rd_pos := rd_pos r + n\<rparr>"

definition rd_chunk :: "nat \<Rightarrow> reader \<Rightarrow> bytes" where
  "rd_chunk n r = take n (drop (rd_pos r) (rd_data r))"

definition reads :: "(reader \<Rightarrow> exn + 'a \<times> reader) \<Rightarrow> ('a \<Rightarrow> bytes \<Rightarrow> bool) \<Rightarrow> nat \<Rightarrow> bool" where
  "reads rd P w \<longleftrightarrow> (\<forall>r. rd_wf r \<longrightarrow>
     (rd_pos r + w \<le> rd_size r \<longrightarrow> (\<exists>x. rd r = Inr (x, rd_adv w r) \<and> P x (rd_chunk w r))) \<and>
     (rd_pos r + w > rd_size r \<longrightarrow> rd r = Inl LengthError))"

lemma rd_adv_simps [simp]:
  "rd_pos (rd_adv n r) = rd_pos r + n" "rd_size (rd_adv n r) = rd_size r"
  "rd_adv m (rd_adv n r) = rd_adv (n + m) r" "rd_adv 0 r = r"
  by (simp_all add: rd_adv_def add.assoc)

lemma rd_wf_adv [simp]: "rd_wf r \<Longrightarrow> rd_pos r + n \<le> rd_size r \<Longrightarrow> rd_wf (rd_adv n r)"
  by (simp add: rd_adv_def rd_wf_def)

lemma rd_chunk_add: "rd_chunk (m + n) r = rd_chunk m r @ rd_chunk n (rd_adv m r)"
  by (simp add: rd_chunk_def rd_adv_def take_add add.commute)

lemma length_rd_chunk: "rd_wf r \<Longrightarrow> rd_pos r + n \<le> rd_size r \<Longrightarrow> length (rd_chunk n r) = n"
  by (simp add: rd_chunk_def rd_wf_def)

lemma reads_ret: "P x [] \<Longrightarrow> reads (rd_ret x) P 0"
  by (auto simp: reads_def rd_ret_def rd_chunk_def rd_wf_def)

lemma reads_bind:
  assumes m: "reads m P w" and f: "\<And>x. reads (f x) (\<lambda>y cs. \<forall>bs. P x bs \<longrightarrow> Q y (bs @ cs)) w'"
  shows "reads (rd_bind m f) Q (w + w')"
  unfolding reads_def rd_bind_def
proof (intro allI impI conjI)
  fix r
  assume wf: "rd_wf r"
  show "\<exists>y. bind_exn (m r) (\<lambda>(x, r). f x r) = Inr (y, rd_adv (w + w') r) \<and> Q y (rd_chunk (w + w') r)"
    if le: "rd_pos r + (w + w') \<le> rd_size r"
  proof -
    obtain x where x: "m r = Inr (x, rd_adv w r)" "P x (rd_chunk w r)"
      using m wf le by (auto simp: reads_def)
    have "rd_wf (rd_adv w r)" "rd_pos (rd_adv w r) + w' \<le> rd_size (rd_adv w r)"
      using wf le by simp_all
    then obtain y where "f x (rd_adv w r) = Inr (y, rd_adv w' (rd_adv w r))"
        "\<forall>bs. P x bs \<longrightarrow> Q y (bs @ rd_chunk w' (rd_adv w r))"
      using f [of x] unfolding reads_def by blast
    with x show ?thesis by (auto simp: rd_chunk_add)
  qed
  show "bind_exn (m r) (\<lambda>(x, r). f x r) = Inl LengthError" if "rd_size r < rd_pos r + (w + w')"
  proof (cases "rd_pos r + w \<le> rd_size r")
    case True
    then obtain x where "m r = Inr (x, rd_adv w r)" using m wf by (auto simp: reads_def)
    then show ?thesis using f [of x] wf that True by (simp add: reads_def)
  next
    case False
    then show ?thesis using m wf by (simp add: reads_def)
  qed
qed

lemma reads_width: "reads rd P w \<Longrightarrow> w = w' \<Longrightarrow> reads rd P w'"
  by simp

lemma reads_start:
  assumes "reads rd P w" and "w \<le> length d"
  obtains x r where "rd \<lparr>rd_data = d, rd_size = length d, rd_pos = 0\<rparr> = Inr (x, r)" and "P x (take w d)"
proof -
  let ?r = "\<lparr>rd_data = d, rd_size = length d, rd_pos = 0\<rparr>"
  have "rd_wf ?r" "rd_pos ?r + w \<le> rd_size ?r" "rd_chunk w ?r = take w d"
    using assms(2) by (simp_all add: rd_wf_def rd_chunk_def)
  then show thesis using assms(1) that unfolding reads_def by metis
qed

lemma reads_weaken: "reads rd P w \<Longrightarrow> (\<And>x bs. P x bs \<Longrightarrow> Q x bs) \<Longrightarrow> reads rd Q w"
  unfolding reads_def by blast

section \<open>The codec interface\<close>

locale codec =
  fixes wr :: "'a \<Rightarrow> bytes" and rd :: "reader \<Rightarrow> exn + 'a \<times> reader" and ok :: "'a \<Rightarrow> bool" and width :: nat
  assumes wr_length: "ok x \<Longrightarrow> length (wr x) = width"
    and wr_inject: "ok x \<Longrightarrow> ok y \<Longrightarrow> wr x = wr y \<Longrightarrow> x = y"
    and rd_reads: "reads rd (\<lambda>x bs. ok x \<and> wr x = bs) width"
begin

lemma rd_short: "rd_wf r \<Longrightarrow> rd_size r < rd_pos r + width \<Longrightarrow> rd r = Inl LengthError"
  using rd_reads by (simp add: reads_def)

lemma rd_total:
  assumes "rd_wf r" and "rd_pos r + width \<le> rd_size r"
  obtains x where "rd r = Inr (x, rd_adv width r)" and "ok x" and "wr x = rd_chunk width r"
  using rd_reads assms by (auto simp: reads_def)

lemma rd_wr:
  assumes "ok x" and "rd_wf r" and "rd_pos r + width \<le> rd_size r" and "rd_chunk width r = wr x"
  shows "rd r = Inr (x, rd_adv width r)"
  using rd_total [OF assms(2,3)] wr_inject [OF _ assms(1)] assms(4) by metis

lemma rd_Inr:
  assumes "rd_wf r" and "rd r = Inr (x, r')"
  shows "r' = rd_adv width r" and "ok x" and "wr x = rd_chunk width r" and "rd_pos r + width \<le> rd_size r"
proof -
  show le: "rd_pos r + width \<le> rd_size r" 
    using rd_short [OF assms(1)] assms(2) by (cases "rd_size r < rd_pos r + width") auto
  from rd_total [OF assms(1) le] assms(2)
  show "r' = rd_adv width r" "ok x" "wr x = rd_chunk width r" by auto
qed

lemma put_array_length: "list_all ok xs \<Longrightarrow> length (put_array wr xs) = length xs * width"
  by (induction xs) (auto simp: put_array_def wr_length)

lemma put_array_inject:
  "list_all ok xs \<Longrightarrow> list_all ok ys \<Longrightarrow> length xs = length ys \<Longrightarrow>
   put_array wr xs = put_array wr ys \<Longrightarrow> xs = ys"
proof (induction xs arbitrary: ys)
  case (Cons x xs)
  then obtain y ys' where ys: "ys = y # ys'" by (cases ys) auto
  with Cons.prems have "wr x = wr y \<and> put_array wr xs = put_array wr ys'"
    by (auto simp: put_array_def wr_length)
  with Cons ys show ?case by (auto dest: wr_inject)
qed simp

lemma wr_eq_iff: "ok x \<Longrightarrow> ok y \<Longrightarrow> wr x = wr y \<longleftrightarrow> x = y"
  using wr_inject by blast

lemma put_array_eq_iff:
  "length xs = length ys \<Longrightarrow> list_all ok xs \<Longrightarrow> list_all ok ys \<Longrightarrow>
   put_array wr xs = put_array wr ys \<longleftrightarrow> xs = ys"
  using put_array_inject by blast

lemma get_array_reads:
  "reads (get_array rd n) (\<lambda>xs bs. (length xs = n \<and> list_all ok xs) \<and> put_array wr xs = bs) (n * width)"
proof (induction n)
  case 0
  show ?case by (auto simp: put_array_def intro: reads_ret)
next
  case (Suc n)
  have "reads (rd_bind (get_array rd n) (\<lambda>xs. rd_ret (x # xs)))
      (\<lambda>ys cs. \<forall>bs. ok x \<and> wr x = bs \<longrightarrow>
        (length ys = Suc n \<and> list_all ok ys) \<and> put_array wr ys = bs @ cs) (n * width + 0)" for x
    by (rule reads_bind [OF Suc]) (auto simp: put_array_def intro!: reads_ret)
  then show ?case by (simp add: reads_bind [OF rd_reads])
qed

lemma array_codec:
  "codec (put_array wr) (get_array rd n) (\<lambda>xs. length xs = n \<and> list_all ok xs) (n * width)"
  using get_array_reads put_array_length put_array_inject by unfold_locales auto

end

section \<open>Loading an object from a buffer\<close>

text \<open>\<open>memcpy(&m, data, sizeof(m))\<close>: the object whose representation starts the buffer.\<close>

definition load :: "(reader \<Rightarrow> exn + 'a \<times> reader) \<Rightarrow> bytes \<Rightarrow> exn + 'a" where
  "load rd d = bind_exn (rd \<lparr>rd_data = d, rd_size = length d, rd_pos = 0\<rparr>) (\<lambda>(x, _). Inr x)"

context codec begin

lemma load_wr:
  assumes "ok x"
  shows "load rd (wr x @ rest) = Inr x"
proof -
  let ?r = "\<lparr>rd_data = wr x @ rest, rd_size = length (wr x @ rest), rd_pos = 0\<rparr>"
  have "rd ?r = Inr (x, rd_adv width ?r)"
    by (rule rd_wr [OF assms]) (simp_all add: rd_wf_def rd_chunk_def wr_length [OF assms])
  then show ?thesis by (simp add: load_def)
qed

lemma load_take:
  assumes "width \<le> length d"
  obtains x where "load rd d = Inr x" and "ok x" and "wr x = take width d"
proof -
  let ?r = "\<lparr>rd_data = d, rd_size = length d, rd_pos = 0\<rparr>"
  have "rd_wf ?r" "rd_pos ?r + width \<le> rd_size ?r" using assms by (simp_all add: rd_wf_def)
  then obtain x where "rd ?r = Inr (x, rd_adv width ?r)" "ok x" "wr x = rd_chunk width ?r"
    by (rule rd_total)
  then show thesis using that [of x] by (simp add: load_def rd_chunk_def)
qed

end

section \<open>Scalar fields\<close>

lemma be_value_put_be_eq:
  "put_be n v = put_be n w \<Longrightarrow> LENGTH('a::len) = 8 * n \<Longrightarrow> v = (w :: 'a word)"
  using be_value_put_be [of n v] be_value_put_be [of n w] by metis

lemma put_int_inject:
  "LENGTH('a::len) = 8 * n \<Longrightarrow> put_int en n v = put_int en n w \<Longrightarrow> v = (w :: 'a word)"
  using be_value_put_be_eq [of n v w] by (cases en) (simp_all add: put_int_def)

lemma get_int_reads:
  assumes "LENGTH('a::len) = 8 * n"
  shows "reads (get_int en n) (\<lambda>(v :: 'a word) bs. put_int en n v = bs) n"
  unfolding reads_def
proof (intro allI impI conjI)
  fix r
  assume r: "rd_wf r"
  show "\<exists>v. get_int en n r = Inr (v :: 'a word, rd_adv n r) \<and> put_int en n v = rd_chunk n r"
    if le: "rd_pos r + n \<le> rd_size r"
  proof -
    let ?v = "be_value (case en of BE \<Rightarrow> rd_chunk n r | LE \<Rightarrow> rev (rd_chunk n r)) :: 'a word"
    have "put_int en n ?v = rd_chunk n r"
      using length_rd_chunk [OF r le] assms by (cases en) (simp_all add: put_int_def put_be_be_value)
    moreover have "get_int en n r = Inr (?v, rd_adv n r)"
      using le by (cases en) (simp_all add: get_int_def rd_adv_def rd_chunk_def Let_def)
    ultimately show ?thesis by blast
  qed
qed (simp add: get_int_def)

lemma int_codec:
  assumes "LENGTH('a::len) = 8 * n"
  shows "codec (put_int en n :: 'a word \<Rightarrow> bytes) (get_int en n) (\<lambda>_. True) n"
proof
  show "reads (get_int en n) (\<lambda>x bs. True \<and> put_int en n (x :: 'a word) = bs) n"
    using get_int_reads [OF assms] by simp
qed (use put_int_inject [OF assms] in simp_all)

lemma sint_codec:
  assumes "LENGTH('a::len) = 8 * n"
  shows "codec (put_sint en n TYPE('a)) (get_sint en n TYPE('a))
    (\<lambda>v. - (2 ^ (LENGTH('a) - 1)) \<le> v \<and> v < 2 ^ (LENGTH('a) - 1)) n"
    (is "codec _ _ ?ok n")
proof
  fix x y assume "?ok x" "?ok y" "put_sint en n TYPE('a) x = put_sint en n TYPE('a) y"
  then have "(word_of_int x :: 'a word) = word_of_int y"
    using put_int_inject [OF assms] by (simp add: put_sint_def)
  then have "signed_take_bit (LENGTH('a) - 1) x = signed_take_bit (LENGTH('a) - 1) y"
    by (metis sint_sbintrunc')
  then show "x = y" using \<open>?ok x\<close> \<open>?ok y\<close> by (simp add: signed_take_bit_int_eq_self)
next
  have "reads (rd_bind (get_int en n) (\<lambda>bits :: 'a word. rd_ret (signed_of_bits bits)))
      (\<lambda>x bs. ?ok x \<and> put_sint en n TYPE('a) x = bs) (n + 0)"
    by (rule reads_bind [OF get_int_reads [OF assms]], rule reads_ret)
       (use signed_of_bits_range in \<open>auto simp: put_sint_def word_of_int_signed_of_bits\<close>)
  then show "reads (get_sint en n TYPE('a)) (\<lambda>x bs. ?ok x \<and> put_sint en n TYPE('a) x = bs) n"
    by (simp add: get_sint_def)
qed (simp add: put_sint_def)

abbreviation put_u8 :: "endian \<Rightarrow> u8 \<Rightarrow> bytes" where "put_u8 en \<equiv> put_int en (Suc 0)"
abbreviation put_u16 :: "endian \<Rightarrow> u16 \<Rightarrow> bytes" where "put_u16 en \<equiv> put_int en 2"
abbreviation put_u32 :: "endian \<Rightarrow> u32 \<Rightarrow> bytes" where "put_u32 en \<equiv> put_int en 4"
abbreviation put_u64 :: "endian \<Rightarrow> u64 \<Rightarrow> bytes" where "put_u64 en \<equiv> put_int en 8"
abbreviation put_i64 :: "endian \<Rightarrow> int \<Rightarrow> bytes" where "put_i64 en \<equiv> put_sint en 8 TYPE(64)"

abbreviation get_u8 :: "endian \<Rightarrow> reader \<Rightarrow> exn + u8 \<times> reader" where "get_u8 en \<equiv> get_int en (Suc 0)"
abbreviation get_u16 :: "endian \<Rightarrow> reader \<Rightarrow> exn + u16 \<times> reader" where "get_u16 en \<equiv> get_int en 2"
abbreviation get_u32 :: "endian \<Rightarrow> reader \<Rightarrow> exn + u32 \<times> reader" where "get_u32 en \<equiv> get_int en 4"
abbreviation get_u64 :: "endian \<Rightarrow> reader \<Rightarrow> exn + u64 \<times> reader" where "get_u64 en \<equiv> get_int en 8"
abbreviation get_i64 :: "endian \<Rightarrow> reader \<Rightarrow> exn + int \<times> reader" where "get_i64 en \<equiv> get_sint en 8 TYPE(64)"

interpretation c8: codec "put_u8 en" "get_u8 en" "\<lambda>_. True" "Suc 0" for en
  by (rule int_codec) simp
interpretation c16: codec "put_u16 en" "get_u16 en" "\<lambda>_. True" 2 for en
  by (rule int_codec) simp
interpretation c32: codec "put_u32 en" "get_u32 en" "\<lambda>_. True" 4 for en
  by (rule int_codec) simp
interpretation c64: codec "put_u64 en" "get_u64 en" "\<lambda>_. True" 8 for en
  by (rule int_codec) simp

definition i64_ok :: "int \<Rightarrow> bool" where
  "i64_ok v \<longleftrightarrow> - (2 ^ 63) \<le> v \<and> v < 2 ^ 63"

interpretation ci64: codec "put_i64 en" "get_i64 en" i64_ok 8 for en
  using sint_codec [where 'a = 64, of 8 en] by (simp add: i64_ok_def [abs_def])

end
