(* ===== verification/Message.thy ===== *)
theory Message
  imports Wire
begin

text \<open>
  The message structs of \<open>message.h\<close>, the field lists of \<open>wire.h\<close> (one
  \<open>put\<close> and one \<open>get\<close> per struct, for both byte orders) and
  \<open>validate_frame\<close>. Characters and doubles are their bit patterns. The structs have no
  interior padding, so the native object representation is the little-endian field list
  followed by the tail padding that \<open>alignas(64)\<close> adds.
\<close>

section \<open>Structs\<close>

record header =
  seq_id :: u64
  send_ts_ns :: u64
  h_type :: u16
  version :: u16
  body_len :: u32
  stream_id :: u64
  stream_epoch :: u64

record trade =
  t_header :: header
  t_symbol :: bytes
  t_venue :: bytes
  t_base_currency :: bytes
  t_quote_currency :: bytes
  t_trade_id :: u64
  t_buyer_order_id :: u64
  t_seller_order_id :: u64
  t_exchange_ts_ns :: u64
  t_match_engine_ts_ns :: u64
  t_price :: u64
  t_quantity :: u64
  t_notional :: u64
  t_price_ticks :: int
  t_quantity_lots :: int
  t_tick_direction :: u32
  t_aggressor_side :: u8
  t_is_block_trade :: u8
  t_is_rpi :: u8
  t_is_liquidation :: u8
  t_flags :: u8
  t_reserved :: bytes

record bbo =
  b_header :: header
  b_symbol :: bytes
  b_venue :: bytes
  b_update_id :: u64
  b_exchange_ts_ns :: u64
  b_match_engine_ts_ns :: u64
  b_bid_price :: u64
  b_bid_size :: u64
  b_ask_price :: u64
  b_ask_size :: u64
  b_bid_price_ticks :: int
  b_ask_price_ticks :: int
  b_bid_size_lots :: int
  b_ask_size_lots :: int
  b_bid_order_count :: u32
  b_ask_order_count :: u32
  b_flags :: u8
  b_reserved :: bytes

record level =
  l_price :: u64
  l_size :: u64
  l_price_ticks :: int
  l_size_lots :: int
  l_order_count :: u32
  l_reserved :: u32

record order_book =
  o_header :: header
  o_symbol :: bytes
  o_venue :: bytes
  o_update_id :: u64
  o_prev_update_id :: u64
  o_exchange_ts_ns :: u64
  o_match_engine_ts_ns :: u64
  o_bids :: "level list"
  o_asks :: "level list"
  o_checksum :: u32
  o_is_snapshot :: u8
  o_flags :: u8
  o_reserved :: bytes

definition kSymbolLen :: nat where "kSymbolLen = 16"
definition kVenueLen :: nat where "kVenueLen = 16"
definition kCurrencyLen :: nat where "kCurrencyLen = 8"
definition kBookDepth :: nat where "kBookDepth = 5"
definition kVersion :: u16 where "kVersion = 2"

lemmas msg_consts = kSymbolLen_def kVenueLen_def kCurrencyLen_def kBookDepth_def kVersion_def

text \<open>The value ranges the C++ field types impose: array lengths and 64-bit signed integers.\<close>

definition trade_ok :: "trade \<Rightarrow> bool" where
  "trade_ok m \<longleftrightarrow> length (t_symbol m) = 16 \<and> length (t_venue m) = 16 \<and>
     length (t_base_currency m) = 8 \<and> length (t_quote_currency m) = 8 \<and>
     i64_ok (t_price_ticks m) \<and> i64_ok (t_quantity_lots m) \<and> length (t_reserved m) = 19"

definition bbo_ok :: "bbo \<Rightarrow> bool" where
  "bbo_ok m \<longleftrightarrow> length (b_symbol m) = 16 \<and> length (b_venue m) = 16 \<and>
     i64_ok (b_bid_price_ticks m) \<and> i64_ok (b_ask_price_ticks m) \<and>
     i64_ok (b_bid_size_lots m) \<and> i64_ok (b_ask_size_lots m) \<and> length (b_reserved m) = 23"

definition level_ok :: "level \<Rightarrow> bool" where
  "level_ok l \<longleftrightarrow> i64_ok (l_price_ticks l) \<and> i64_ok (l_size_lots l)"

definition book_ok :: "order_book \<Rightarrow> bool" where
  "book_ok m \<longleftrightarrow> length (o_symbol m) = 16 \<and> length (o_venue m) = 16 \<and>
     length (o_bids m) = 5 \<and> list_all level_ok (o_bids m) \<and>
     length (o_asks m) = 5 \<and> list_all level_ok (o_asks m) \<and> length (o_reserved m) = 26"

section \<open>Field lists\<close>

abbreviation put_chars :: "endian \<Rightarrow> bytes \<Rightarrow> bytes" where
  "put_chars en \<equiv> put_array (put_u8 en)"

abbreviation get_chars :: "endian \<Rightarrow> nat \<Rightarrow> reader \<Rightarrow> exn + bytes \<times> reader" where
  "get_chars en \<equiv> get_array (get_u8 en)"

definition put_header :: "endian \<Rightarrow> header \<Rightarrow> bytes" where
  "put_header en m = put_u64 en (seq_id m) @ put_u64 en (send_ts_ns m) @ put_u16 en (h_type m) @
     put_u16 en (version m) @ put_u32 en (body_len m) @ put_u64 en (stream_id m) @
     put_u64 en (stream_epoch m)"

definition get_header :: "endian \<Rightarrow> reader \<Rightarrow> exn + header \<times> reader" where
  "get_header en =
     rd_bind (get_u64 en) (\<lambda>seq. rd_bind (get_u64 en) (\<lambda>ts. rd_bind (get_u16 en) (\<lambda>ty.
     rd_bind (get_u16 en) (\<lambda>ver. rd_bind (get_u32 en) (\<lambda>bl. rd_bind (get_u64 en) (\<lambda>sid.
     rd_bind (get_u64 en) (\<lambda>ep. rd_ret
       \<lparr>seq_id = seq, send_ts_ns = ts, h_type = ty, version = ver, body_len = bl,
        stream_id = sid, stream_epoch = ep\<rparr>)))))))"

definition put_trade :: "endian \<Rightarrow> trade \<Rightarrow> bytes" where
  "put_trade en m = put_header en (t_header m) @ put_chars en (t_symbol m) @ put_chars en (t_venue m) @
     put_chars en (t_base_currency m) @ put_chars en (t_quote_currency m) @ put_u64 en (t_trade_id m) @
     put_u64 en (t_buyer_order_id m) @ put_u64 en (t_seller_order_id m) @ put_u64 en (t_exchange_ts_ns m) @
     put_u64 en (t_match_engine_ts_ns m) @ put_u64 en (t_price m) @ put_u64 en (t_quantity m) @
     put_u64 en (t_notional m) @ put_i64 en (t_price_ticks m) @ put_i64 en (t_quantity_lots m) @
     put_u32 en (t_tick_direction m) @ put_u8 en (t_aggressor_side m) @ put_u8 en (t_is_block_trade m) @
     put_u8 en (t_is_rpi m) @ put_u8 en (t_is_liquidation m) @ put_u8 en (t_flags m) @
     put_chars en (t_reserved m)"

definition get_trade :: "endian \<Rightarrow> reader \<Rightarrow> exn + trade \<times> reader" where
  "get_trade en =
     rd_bind (get_header en) (\<lambda>h. rd_bind (get_chars en kSymbolLen) (\<lambda>sym.
     rd_bind (get_chars en kVenueLen) (\<lambda>ven. rd_bind (get_chars en kCurrencyLen) (\<lambda>bc.
     rd_bind (get_chars en kCurrencyLen) (\<lambda>qc. rd_bind (get_u64 en) (\<lambda>tid.
     rd_bind (get_u64 en) (\<lambda>bid. rd_bind (get_u64 en) (\<lambda>sid. rd_bind (get_u64 en) (\<lambda>ex.
     rd_bind (get_u64 en) (\<lambda>me. rd_bind (get_u64 en) (\<lambda>pr. rd_bind (get_u64 en) (\<lambda>qu.
     rd_bind (get_u64 en) (\<lambda>no. rd_bind (get_i64 en) (\<lambda>pt. rd_bind (get_i64 en) (\<lambda>ql.
     rd_bind (get_u32 en) (\<lambda>td. rd_bind (get_u8 en) (\<lambda>ag. rd_bind (get_u8 en) (\<lambda>bl.
     rd_bind (get_u8 en) (\<lambda>rp. rd_bind (get_u8 en) (\<lambda>li. rd_bind (get_u8 en) (\<lambda>fl.
     rd_bind (get_chars en 19) (\<lambda>rs. rd_ret
       \<lparr>t_header = h, t_symbol = sym, t_venue = ven, t_base_currency = bc, t_quote_currency = qc,
        t_trade_id = tid, t_buyer_order_id = bid, t_seller_order_id = sid, t_exchange_ts_ns = ex,
        t_match_engine_ts_ns = me, t_price = pr, t_quantity = qu, t_notional = no,
        t_price_ticks = pt, t_quantity_lots = ql, t_tick_direction = td, t_aggressor_side = ag,
        t_is_block_trade = bl, t_is_rpi = rp, t_is_liquidation = li, t_flags = fl,
        t_reserved = rs\<rparr>))))))))))))))))))))))"

definition put_bbo :: "endian \<Rightarrow> bbo \<Rightarrow> bytes" where
  "put_bbo en m = put_header en (b_header m) @ put_chars en (b_symbol m) @ put_chars en (b_venue m) @
     put_u64 en (b_update_id m) @ put_u64 en (b_exchange_ts_ns m) @ put_u64 en (b_match_engine_ts_ns m) @
     put_u64 en (b_bid_price m) @ put_u64 en (b_bid_size m) @ put_u64 en (b_ask_price m) @
     put_u64 en (b_ask_size m) @ put_i64 en (b_bid_price_ticks m) @ put_i64 en (b_ask_price_ticks m) @
     put_i64 en (b_bid_size_lots m) @ put_i64 en (b_ask_size_lots m) @ put_u32 en (b_bid_order_count m) @
     put_u32 en (b_ask_order_count m) @ put_u8 en (b_flags m) @ put_chars en (b_reserved m)"

definition get_bbo :: "endian \<Rightarrow> reader \<Rightarrow> exn + bbo \<times> reader" where
  "get_bbo en =
     rd_bind (get_header en) (\<lambda>h. rd_bind (get_chars en kSymbolLen) (\<lambda>sym.
     rd_bind (get_chars en kVenueLen) (\<lambda>ven. rd_bind (get_u64 en) (\<lambda>uid.
     rd_bind (get_u64 en) (\<lambda>ex. rd_bind (get_u64 en) (\<lambda>me. rd_bind (get_u64 en) (\<lambda>bp.
     rd_bind (get_u64 en) (\<lambda>bs. rd_bind (get_u64 en) (\<lambda>ap. rd_bind (get_u64 en) (\<lambda>as.
     rd_bind (get_i64 en) (\<lambda>bpt. rd_bind (get_i64 en) (\<lambda>apt. rd_bind (get_i64 en) (\<lambda>bsl.
     rd_bind (get_i64 en) (\<lambda>asl. rd_bind (get_u32 en) (\<lambda>boc. rd_bind (get_u32 en) (\<lambda>aoc.
     rd_bind (get_u8 en) (\<lambda>fl. rd_bind (get_chars en 23) (\<lambda>rs. rd_ret
       \<lparr>b_header = h, b_symbol = sym, b_venue = ven, b_update_id = uid, b_exchange_ts_ns = ex,
        b_match_engine_ts_ns = me, b_bid_price = bp, b_bid_size = bs, b_ask_price = ap,
        b_ask_size = as, b_bid_price_ticks = bpt, b_ask_price_ticks = apt, b_bid_size_lots = bsl,
        b_ask_size_lots = asl, b_bid_order_count = boc, b_ask_order_count = aoc, b_flags = fl,
        b_reserved = rs\<rparr>))))))))))))))))))"

definition put_level :: "endian \<Rightarrow> level \<Rightarrow> bytes" where
  "put_level en m = put_u64 en (l_price m) @ put_u64 en (l_size m) @ put_i64 en (l_price_ticks m) @
     put_i64 en (l_size_lots m) @ put_u32 en (l_order_count m) @ put_u32 en (l_reserved m)"

definition get_level :: "endian \<Rightarrow> reader \<Rightarrow> exn + level \<times> reader" where
  "get_level en =
     rd_bind (get_u64 en) (\<lambda>p. rd_bind (get_u64 en) (\<lambda>s. rd_bind (get_i64 en) (\<lambda>pt.
     rd_bind (get_i64 en) (\<lambda>sl. rd_bind (get_u32 en) (\<lambda>oc. rd_bind (get_u32 en) (\<lambda>rs. rd_ret
       \<lparr>l_price = p, l_size = s, l_price_ticks = pt, l_size_lots = sl, l_order_count = oc,
        l_reserved = rs\<rparr>))))))"

definition put_book :: "endian \<Rightarrow> order_book \<Rightarrow> bytes" where
  "put_book en m = put_header en (o_header m) @ put_chars en (o_symbol m) @ put_chars en (o_venue m) @
     put_u64 en (o_update_id m) @ put_u64 en (o_prev_update_id m) @ put_u64 en (o_exchange_ts_ns m) @
     put_u64 en (o_match_engine_ts_ns m) @ put_array (put_level en) (o_bids m) @
     put_array (put_level en) (o_asks m) @ put_u32 en (o_checksum m) @ put_u8 en (o_is_snapshot m) @
     put_u8 en (o_flags m) @ put_chars en (o_reserved m)"

definition get_book :: "endian \<Rightarrow> reader \<Rightarrow> exn + order_book \<times> reader" where
  "get_book en =
     rd_bind (get_header en) (\<lambda>h. rd_bind (get_chars en kSymbolLen) (\<lambda>sym.
     rd_bind (get_chars en kVenueLen) (\<lambda>ven. rd_bind (get_u64 en) (\<lambda>uid.
     rd_bind (get_u64 en) (\<lambda>puid. rd_bind (get_u64 en) (\<lambda>ex. rd_bind (get_u64 en) (\<lambda>me.
     rd_bind (get_array (get_level en) kBookDepth) (\<lambda>bids.
     rd_bind (get_array (get_level en) kBookDepth) (\<lambda>asks. rd_bind (get_u32 en) (\<lambda>cs.
     rd_bind (get_u8 en) (\<lambda>sn. rd_bind (get_u8 en) (\<lambda>fl. rd_bind (get_chars en 26) (\<lambda>rs. rd_ret
       \<lparr>o_header = h, o_symbol = sym, o_venue = ven, o_update_id = uid, o_prev_update_id = puid,
        o_exchange_ts_ns = ex, o_match_engine_ts_ns = me, o_bids = bids, o_asks = asks,
        o_checksum = cs, o_is_snapshot = sn, o_flags = fl, o_reserved = rs\<rparr>)))))))))))))"

section \<open>Every struct is a codec\<close>

text \<open>The steps that walk through a field list, and what splits two equal field lists.\<close>

lemmas field_reads = reads_bind [OF c8.rd_reads] reads_bind [OF c16.rd_reads]
  reads_bind [OF c32.rd_reads] reads_bind [OF c64.rd_reads] reads_bind [OF ci64.rd_reads]
  reads_bind [OF c8.get_array_reads]

lemmas field_eq = c8.wr_eq_iff c16.wr_eq_iff c32.wr_eq_iff c64.wr_eq_iff ci64.wr_eq_iff
  c8.put_array_eq_iff

lemmas field_length = c8.put_array_length ci64.wr_length

lemma list_all_True [simp]: "list_all (\<lambda>_. True) xs"
  by (simp add: list_all_iff)

lemma header_codec: "codec (put_header en) (get_header en) (\<lambda>_. True) 40"
proof
  show "reads (get_header en) (\<lambda>x bs. True \<and> put_header en x = bs) 40"
    unfolding get_header_def
    by (rule reads_width, (rule field_reads reads_ret)+) (simp_all add: put_header_def)
qed (auto simp: put_header_def field_eq)

interpretation chdr: codec "put_header en" "get_header en" "\<lambda>_. True" 40 for en
  by (rule header_codec)

lemma level_codec: "codec (put_level en) (get_level en) level_ok 40"
proof
  show "reads (get_level en) (\<lambda>x bs. level_ok x \<and> put_level en x = bs) 40"
    unfolding get_level_def
    by (rule reads_width, (rule field_reads reads_ret)+) (simp_all add: put_level_def level_ok_def)
qed (auto simp: put_level_def level_ok_def field_eq field_length)

interpretation clvl: codec "put_level en" "get_level en" level_ok 40 for en
  by (rule level_codec)

lemmas struct_reads = field_reads reads_bind [OF chdr.rd_reads] reads_bind [OF clvl.get_array_reads]
lemmas struct_eq = field_eq chdr.wr_eq_iff clvl.put_array_eq_iff
lemmas struct_length = field_length chdr.wr_length [OF TrueI] clvl.put_array_length

lemma trade_codec: "codec (put_trade en) (get_trade en) trade_ok 196"
proof
  show "reads (get_trade en) (\<lambda>x bs. trade_ok x \<and> put_trade en x = bs) 196"
    unfolding get_trade_def
    by (rule reads_width, (rule struct_reads reads_ret)+) (simp_all add: put_trade_def trade_ok_def msg_consts)
qed (auto simp: put_trade_def trade_ok_def struct_eq struct_length)

lemma bbo_codec: "codec (put_bbo en) (get_bbo en) bbo_ok 192"
proof
  show "reads (get_bbo en) (\<lambda>x bs. bbo_ok x \<and> put_bbo en x = bs) 192"
    unfolding get_bbo_def
    by (rule reads_width, (rule struct_reads reads_ret)+) (simp_all add: put_bbo_def bbo_ok_def msg_consts)
qed (auto simp: put_bbo_def bbo_ok_def struct_eq struct_length)

lemma book_codec: "codec (put_book en) (get_book en) book_ok 536"
proof
  show "reads (get_book en) (\<lambda>x bs. book_ok x \<and> put_book en x = bs) 536"
    unfolding get_book_def
    by (rule reads_width, (rule struct_reads reads_ret)+) (simp_all add: put_book_def book_ok_def msg_consts)
qed (auto simp: put_book_def book_ok_def struct_eq struct_length)

interpretation ctrade: codec "put_trade en" "get_trade en" trade_ok 196 for en
  by (rule trade_codec)
interpretation cbbo: codec "put_bbo en" "get_bbo en" bbo_ok 192 for en
  by (rule bbo_codec)
interpretation cbook: codec "put_book en" "get_book en" book_ok 536 for en
  by (rule book_codec)

section \<open>Native frames\<close>

definition sizeof_Header :: nat where "sizeof_Header = 40"
definition sizeof_Trade :: nat where "sizeof_Trade = 256"
definition sizeof_Bbo :: nat where "sizeof_Bbo = 192"
definition sizeof_OrderBook :: nat where "sizeof_OrderBook = 576"
definition kMaxFrame :: nat where "kMaxFrame = sizeof_OrderBook"

lemmas size_consts = sizeof_Header_def sizeof_Trade_def sizeof_Bbo_def sizeof_OrderBook_def kMaxFrame_def

text \<open>The enumerators of \<open>msg::Type\<close>.\<close>

definition Type_Trade :: u16 where "Type_Trade = 1"
definition Type_Bbo :: u16 where "Type_Bbo = 2"
definition Type_OrderBook :: u16 where "Type_OrderBook = 3"

lemmas type_consts = Type_Trade_def Type_Bbo_def Type_OrderBook_def

definition expected_size :: "u16 \<Rightarrow> nat" where
  "expected_size ty =
     (if ty = Type_Trade then sizeof_Trade
      else if ty = Type_Bbo then sizeof_Bbo
      else if ty = Type_OrderBook then sizeof_OrderBook
      else 0)"

text \<open>A null pointer is \<open>None\<close>; the length is that of the buffer.\<close>

definition validate_frame :: "bytes option \<Rightarrow> bool" where
  "validate_frame data =
     (case data of None \<Rightarrow> False
      | Some d \<Rightarrow>
          if length d < sizeof_Header \<or> length d > kMaxFrame then False
          else case load (get_header LE) d of Inl _ \<Rightarrow> False
            | Inr h \<Rightarrow>
                if version h \<noteq> kVersion \<or> unat (body_len h) \<noteq> length d then False
                else expected_size (h_type h) = length d)"

lemma validate_frame_iff:
  "validate_frame (Some d) \<longleftrightarrow>
   (\<exists>h. load (get_header LE) d = Inr h \<and> version h = kVersion \<and>
        h_type h \<in> {Type_Trade, Type_Bbo, Type_OrderBook} \<and>
        unat (body_len h) = length d \<and> length d = expected_size (h_type h))"
proof (cases "40 \<le> length d")
  case True
  then obtain h where "load (get_header LE) d = Inr h" using chdr.load_take [of d LE] by blast
  with True show ?thesis
    by (auto simp: validate_frame_def expected_size_def size_consts type_consts)
next
  case False
  then have "length d \<noteq> expected_size ty" if "ty \<in> {Type_Trade, Type_Bbo, Type_OrderBook}" for ty
    using that by (auto simp: expected_size_def size_consts)
  with False show ?thesis by (auto simp: validate_frame_def size_consts)
qed

lemma validate_frameI:
  assumes "load (get_header LE) d = Inr h" and "version h = kVersion"
    and "h_type h \<in> {Type_Trade, Type_Bbo, Type_OrderBook}"
    and "unat (body_len h) = length d" and "length d = expected_size (h_type h)"
  shows "validate_frame (Some d)"
  using assms unfolding validate_frame_iff by blast

end
