(* ===== verification/Wire_Message.thy ===== *)
theory Wire_Message
  imports Message
begin

text \<open>
  The protocol functions of \<open>wire.h\<close>: \<open>encode\<close> from a native frame to a
  network frame and \<open>decode\<close> back. The templates \<open>encode_as<T>\<close> and
  \<open>decode_as<T>\<close> are definitions over the field lists of \<open>T\<close>; what they need of
  \<open>T\<close> is the locale \<open>message_type\<close>, interpreted for the three message structs.
\<close>

section \<open>Encoding and decoding\<close>

definition wire_magic :: u32 where "wire_magic = 0x50554c33"
definition max_frame :: nat where "max_frame = 1024"

text \<open>
  The object representation of a value-initialised struct: its fields, then its tail padding. The
  padding is taken to be zero, as the initialisation \<open>T m{}\<close> leaves it in practice; the standard
  does not say so. Neither \<open>validate_frame\<close> nor \<open>encode\<close> looks at these bytes, and the frames that
  \<open>encode\<close> is given may have any.
\<close>

definition native_image :: "(endian \<Rightarrow> 'm \<Rightarrow> bytes) \<Rightarrow> nat \<Rightarrow> 'm \<Rightarrow> bytes" where
  "native_image put sz m = put LE m @ replicate (sz - length (put LE m)) 0"

definition encode_as :: "(endian \<Rightarrow> 'm \<Rightarrow> bytes) \<Rightarrow> (endian \<Rightarrow> reader \<Rightarrow> exn + 'm \<times> reader) \<Rightarrow>
    (u32 \<Rightarrow> 'm \<Rightarrow> 'm) \<Rightarrow> bytes \<Rightarrow> exn + bytes" where
  "encode_as put get set_len data =
     bind_exn (load (get LE) data) (\<lambda>m.
       let m = set_len 0 m;
           w = put_u32 BE wire_magic @ put BE m;
           m = set_len (of_nat (length w)) m
       in Inr (put_u32 BE wire_magic @ put BE m))"

definition decode_as :: "(endian \<Rightarrow> 'm \<Rightarrow> bytes) \<Rightarrow> (endian \<Rightarrow> reader \<Rightarrow> exn + 'm \<times> reader) \<Rightarrow>
    ('m \<Rightarrow> header) \<Rightarrow> (u32 \<Rightarrow> 'm \<Rightarrow> 'm) \<Rightarrow> nat \<Rightarrow> bytes \<Rightarrow> exn + bytes option" where
  "decode_as put get hdr set_len sz data =
     bind_exn (get BE \<lparr>rd_data = data, rd_size = length data, rd_pos = 4\<rparr>) (\<lambda>(m, r).
       if rd_pos r \<noteq> length data \<or> unat (body_len (hdr m)) \<noteq> length data \<or> version (hdr m) \<noteq> kVersion
       then Inr None
       else Inr (Some (native_image put sz (set_len (of_nat sz) m))))"

definition set_trade_len :: "u32 \<Rightarrow> trade \<Rightarrow> trade" where
  "set_trade_len n m = m\<lparr>t_header := (t_header m)\<lparr>body_len := n\<rparr>\<rparr>"
definition set_bbo_len :: "u32 \<Rightarrow> bbo \<Rightarrow> bbo" where
  "set_bbo_len n m = m\<lparr>b_header := (b_header m)\<lparr>body_len := n\<rparr>\<rparr>"
definition set_book_len :: "u32 \<Rightarrow> order_book \<Rightarrow> order_book" where
  "set_book_len n m = m\<lparr>o_header := (o_header m)\<lparr>body_len := n\<rparr>\<rparr>"

definition encode :: "bytes option \<Rightarrow> exn + bytes" where
  "encode data =
     (if \<not> validate_frame data then Inl InvalidArgument
      else let d = the data in
        bind_exn (load (get_header LE) d) (\<lambda>h.
          if h_type h = Type_Trade then encode_as put_trade get_trade set_trade_len d
          else if h_type h = Type_Bbo then encode_as put_bbo get_bbo set_bbo_len d
          else if h_type h = Type_OrderBook then encode_as put_book get_book set_book_len d
          else Inl InvalidArgument))"

text \<open>
  The result of \<open>decode\<close> is the native frame copied to \<open>out\<close>, its length
  being \<open>native_len\<close>; \<open>None\<close> is the return value false. The second argument says
  that the pointer \<open>out\<close> is not null.
\<close>

definition decode :: "bytes option \<Rightarrow> bool \<Rightarrow> bytes option" where
  "decode data out =
     (case data of None \<Rightarrow> None
      | Some d \<Rightarrow>
          if \<not> out \<or> length d < 44 \<or> length d > max_frame then None
          else case
            bind_exn (rd_bind (get_u32 BE) (\<lambda>tag. rd_bind (get_header BE) (\<lambda>h. rd_ret (tag, h)))
                \<lparr>rd_data = d, rd_size = length d, rd_pos = 0\<rparr>) (\<lambda>((tag, h), _).
              if tag \<noteq> wire_magic \<or> version h \<noteq> kVersion \<or> unat (body_len h) \<noteq> length d then Inr None
              else if h_type h = Type_Trade then decode_as put_trade get_trade t_header set_trade_len sizeof_Trade d
              else if h_type h = Type_Bbo then decode_as put_bbo get_bbo b_header set_bbo_len sizeof_Bbo d
              else if h_type h = Type_OrderBook then decode_as put_book get_book o_header set_book_len sizeof_OrderBook d
              else Inr None)
          of Inl _ \<Rightarrow> None | Inr res \<Rightarrow> res)"

section \<open>The contract of a message struct\<close>

locale message_type =
  fixes put :: "endian \<Rightarrow> 'm \<Rightarrow> bytes" and get :: "endian \<Rightarrow> reader \<Rightarrow> exn + 'm \<times> reader"
    and ok :: "'m \<Rightarrow> bool" and width :: nat and sz :: nat
    and hdr :: "'m \<Rightarrow> header" and set_len :: "u32 \<Rightarrow> 'm \<Rightarrow> 'm"
  assumes is_codec: "codec (put en) (get en) ok width"
    and width_size: "width \<le> sz" and size_small: "sz + 4 < 2 ^ 32"
    and put_hdr: "\<exists>rest. put en m = put_header en (hdr m) @ rest"
    and ok_set_len [simp]: "ok (set_len n m) = ok m"
    and hdr_set_len [simp]: "hdr (set_len n m) = (hdr m)\<lparr>body_len := n\<rparr>"
    and set_len_twice [simp]: "set_len n (set_len k m) = set_len n m"
    and set_len_self: "body_len (hdr m) = n \<Longrightarrow> set_len n m = m"

sublocale message_type \<subseteq> mc: codec "put en" "get en" ok width for en
  by (rule is_codec)

context message_type begin

lemma length_put: "ok m \<Longrightarrow> length (put en m) = width"
  by (rule mc.wr_length)

lemma length_image [simp]: "ok m \<Longrightarrow> length (native_image put sz m) = sz"
  using width_size by (simp add: native_image_def length_put)

lemma load_header_put: "load (get_header en) (put en m @ rest) = Inr (hdr m)"
  using put_hdr [of en m] chdr.load_wr by fastforce

lemma load_header_image: "load (get_header LE) (native_image put sz m) = Inr (hdr m)"
  by (simp add: native_image_def load_header_put)

lemma load_image: "ok m \<Longrightarrow> load (get LE) (native_image put sz m) = Inr m"
  by (simp add: native_image_def mc.load_wr)

lemma encode_as_put:
  assumes "load (get LE) d = Inr m" and "ok m"
  shows "encode_as put get set_len d =
    Inr (put_u32 BE wire_magic @ put BE (set_len (of_nat (width + 4)) m))"
  using assms by (simp add: encode_as_def length_put Let_def add.commute)

lemma decode_as_put:
  assumes "ok m" and "length tag = 4"
  shows "decode_as put get hdr set_len sz (tag @ put BE m) =
    Inr (if unat (body_len (hdr m)) \<noteq> width + 4 \<or> version (hdr m) \<noteq> kVersion then None
         else Some (native_image put sz (set_len (of_nat sz) m)))"
proof -
  let ?r = "\<lparr>rd_data = tag @ put BE m, rd_size = length (tag @ put BE m), rd_pos = 4\<rparr>"
  have "get BE ?r = Inr (m, rd_adv width ?r)"
    using assms by (intro mc.rd_wr) (auto simp: rd_wf_def rd_chunk_def length_put)
  then show ?thesis using assms by (simp add: decode_as_def length_put rd_adv_def add.commute)
qed

lemma decode_as_Some:
  assumes "4 \<le> length d" and "decode_as put get hdr set_len sz d = Inr (Some n)"
  obtains m where "ok m" and "d = take 4 d @ put BE m" and "unat (body_len (hdr m)) = width + 4"
    and "version (hdr m) = kVersion" and "n = native_image put sz (set_len (of_nat sz) m)"
proof -
  let ?r = "\<lparr>rd_data = d, rd_size = length d, rd_pos = 4\<rparr>"
  have wf: "rd_wf ?r" using assms(1) by (simp add: rd_wf_def)
  obtain m r where g: "get BE ?r = Inr (m, r)" and c: "rd_pos r = length d"
      "unat (body_len (hdr m)) = length d" "version (hdr m) = kVersion"
      "n = native_image put sz (set_len (of_nat sz) m)"
    using assms(2) by (auto simp: decode_as_def bind_exn_Inr_iff split: if_splits)
  from mc.rd_Inr [OF wf g] c(1) have "ok m" "put BE m = rd_chunk width ?r" "length d = width + 4"
    by (simp_all add: rd_adv_def)
  then have "d = take 4 d @ put BE m"
    by (simp add: rd_chunk_def)
  with \<open>ok m\<close> c \<open>length d = width + 4\<close> show thesis using that by simp
qed

text \<open>What \<open>decode_as\<close> accepts, \<open>encode_as\<close> gives back.\<close>

lemma encode_decode_as:
  assumes "4 \<le> length d" and "take 4 d = put_u32 BE wire_magic"
    and "decode_as put get hdr set_len sz d = Inr (Some n)"
  shows "encode_as put get set_len n = Inr d" and "length n = sz"
    and "\<exists>m. load (get_header LE) n = Inr ((hdr m)\<lparr>body_len := of_nat sz\<rparr>) \<and>
      load (get_header BE) (drop 4 d) = Inr (hdr m) \<and> version (hdr m) = kVersion"
proof -
  from decode_as_Some [OF assms(1,3)] obtain m where m: "ok m" "d = take 4 d @ put BE m"
      "unat (body_len (hdr m)) = width + 4" "version (hdr m) = kVersion"
      "n = native_image put sz (set_len (of_nat sz) m)" by blast
  have "set_len (of_nat (width + 4)) m = m"
    using m(3) by (intro set_len_self) (metis of_nat_unat ucast_id unsigned_ucast_eq)
  moreover have "load (get LE) n = Inr (set_len (of_nat sz) m)" using m load_image by simp
  ultimately show "encode_as put get set_len n = Inr d"
    using encode_as_put m(1,2) assms(2) by simp
  show "length n = sz" using m by simp
  have "drop 4 d = put BE m" by (metis append_eq_conv_conj append_take_drop_id m(2) same_append_eq)
  then show "\<exists>m. load (get_header LE) n = Inr ((hdr m)\<lparr>body_len := of_nat sz\<rparr>) \<and>
      load (get_header BE) (drop 4 d) = Inr (hdr m) \<and> version (hdr m) = kVersion"
    using m load_header_image [of "set_len (of_nat sz) m"] load_header_put [of BE m "[]"] by auto
qed

text \<open>What \<open>encode_as\<close> makes of a valid native frame, \<open>decode_as\<close> gives back, padding cleared.\<close>

lemma decode_encode_as:
  assumes "length d = sz" and "load (get_header LE) d = Inr h"
    and "unat (body_len h) = sz" and "version h = kVersion"
  obtains e where "encode_as put get set_len d = Inr e" and "length e = width + 4"
    and "decode_as put get hdr set_len sz e = Inr (Some (take width d @ replicate (sz - width) 0))"
    and "take 4 e = put_u32 BE wire_magic"
    and "load (get_header BE) (drop 4 e) = Inr (h\<lparr>body_len := of_nat (width + 4)\<rparr>)"
proof -
  from width_size assms(1) have "width \<le> length d" by simp
  then obtain m where m: "load (get LE) d = Inr m" "ok m" "put LE m = take width d"
    by (rule mc.load_take)
  have "load (get_header LE) (put LE m @ drop width d) = Inr (hdr m)" by (rule load_header_put)
  with m(3) assms(2) have h: "hdr m = h" by simp
  define e where "e = put_u32 BE wire_magic @ put BE (set_len (of_nat (width + 4)) m)"
  have "width + 4 < 2 ^ 32" using width_size size_small by simp
  then have bl: "unat (of_nat (width + 4) :: u32) = width + 4" by (intro unat_of_nat_small) simp
  have "body_len h = of_nat sz" using assms(3) by (metis of_nat_unat ucast_id unsigned_ucast_eq)
  then have "native_image put sz (set_len (of_nat sz) (set_len (of_nat (width + 4)) m)) =
      take width d @ replicate (sz - width) 0"
    using h m width_size assms(1) by (simp add: set_len_self native_image_def)
  with m h bl assms(4) have "decode_as put get hdr set_len sz e =
      Inr (Some (take width d @ replicate (sz - width) 0))"
    unfolding e_def by (subst decode_as_put) simp_all
  moreover have "encode_as put get set_len d = Inr e" "length e = width + 4"
      "take 4 e = put_u32 BE wire_magic" using m encode_as_put by (simp_all add: e_def length_put)
  moreover have "load (get_header BE) (drop 4 e) = Inr (h\<lparr>body_len := of_nat (width + 4)\<rparr>)"
    using load_header_put [of BE "set_len (of_nat (width + 4)) m" "[]"] h by (simp add: e_def)
  ultimately show thesis using that by blast
qed

end

interpretation mtrade: message_type put_trade get_trade trade_ok 196 sizeof_Trade t_header set_trade_len
  by unfold_locales (auto simp: trade_codec size_consts put_trade_def trade_ok_def set_trade_len_def)
interpretation mbbo: message_type put_bbo get_bbo bbo_ok 192 sizeof_Bbo b_header set_bbo_len
  by unfold_locales (auto simp: bbo_codec size_consts put_bbo_def bbo_ok_def set_bbo_len_def)
interpretation mbook: message_type put_book get_book book_ok 536 sizeof_OrderBook o_header set_book_len
  by unfold_locales (auto simp: book_codec size_consts put_book_def book_ok_def set_book_len_def)

section \<open>Round trips of the protocol\<close>

text \<open>The number of bytes of a message struct before its tail padding.\<close>

definition frame_width :: "u16 \<Rightarrow> nat" where
  "frame_width ty = (if ty = Type_Trade then 196 else if ty = Type_Bbo then 192 else 536)"

text \<open>A quote as the producer writes it into the ring, and the same quote on the wire.\<close>

definition example_bbo :: bbo where
  "example_bbo = \<lparr>b_header = \<lparr>seq_id = 7, send_ts_ns = 1000, h_type = Type_Bbo, version = kVersion,
       body_len = 192, stream_id = 42, stream_epoch = 9\<rparr>,
     b_symbol = replicate 16 66, b_venue = replicate 16 67, b_update_id = 900007,
     b_exchange_ts_ns = 990, b_match_engine_ts_ns = 990,
     b_bid_price = 0x40efbd0000000000, b_bid_size = 0x3ff8000000000000,
     b_ask_price = 0x40efbd2000000000, b_ask_size = 0x3ff8000000000000,
     b_bid_price_ticks = 6499950, b_ask_price_ticks = 6500050,
     b_bid_size_lots = 1500, b_ask_size_lots = - 1,
     b_bid_order_count = 3, b_ask_order_count = 6, b_flags = 0, b_reserved = replicate 23 0\<rparr>"

lemma example_ok: "bbo_ok example_bbo"
  by (simp add: bbo_ok_def example_bbo_def i64_ok_def)

definition example_native :: bytes where
  "example_native = native_image put_bbo sizeof_Bbo example_bbo"

definition example_wire :: bytes where
  "example_wire = put_u32 BE wire_magic @ put_bbo BE (set_bbo_len 196 example_bbo)"

lemma read_tag_header:
  assumes "44 \<le> length d"
  shows "\<exists>tag h r. rd_bind (get_u32 BE) (\<lambda>tag. rd_bind (get_header BE) (\<lambda>h. rd_ret (tag, h)))
      \<lparr>rd_data = d, rd_size = length d, rd_pos = 0\<rparr> = Inr ((tag, h), r) \<and>
    put_u32 BE tag = take 4 d \<and> load (get_header BE) (drop 4 d) = Inr h"
proof -
  have "reads (rd_bind (get_u32 BE) (\<lambda>tag. rd_bind (get_header BE) (\<lambda>h. rd_ret (tag, h))))
      (\<lambda>(tag, h) bs. put_u32 BE tag @ put_header BE h = bs) 44"
    by (rule reads_width, (rule struct_reads reads_ret)+) simp_all
  then obtain x r where x: "rd_bind (get_u32 BE) (\<lambda>tag. rd_bind (get_header BE) (\<lambda>h. rd_ret (tag, h)))
      \<lparr>rd_data = d, rd_size = length d, rd_pos = 0\<rparr> = Inr (x, r)"
      "case x of (tag, h) \<Rightarrow> put_u32 BE tag @ put_header BE h = take 44 d"
    using assms by (rule reads_start) auto
  obtain tag h where "x = (tag, h)" by fastforce
  with x have t: "rd_bind (get_u32 BE) (\<lambda>tag. rd_bind (get_header BE) (\<lambda>h. rd_ret (tag, h)))
      \<lparr>rd_data = d, rd_size = length d, rd_pos = 0\<rparr> = Inr ((tag, h), r)"
      "put_u32 BE tag @ put_header BE h = take 44 d" by auto
  from arg_cong [OF t(2), of "take 4"] have "put_u32 BE tag = take 4 d"
    by simp
  moreover from arg_cong [OF t(2), of "drop 4"] have "put_header BE h = take 40 (drop 4 d)"
    by (simp add: drop_take)
  then have "load (get_header BE) (drop 4 d) = Inr h"
    using chdr.load_wr [OF TrueI, of BE h "drop 40 (drop 4 d)"] by (simp del: drop_drop)
  ultimately have "put_u32 BE tag = take 4 d" "load (get_header BE) (drop 4 d) = Inr h" by simp_all
  with t(1) show ?thesis by blast
qed

lemma decode_eq:
  assumes "44 \<le> length d" and "length d \<le> max_frame" and "load (get_header BE) (drop 4 d) = Inr h"
  shows "decode (Some d) True =
    (if take 4 d \<noteq> put_u32 BE wire_magic \<or> version h \<noteq> kVersion \<or> unat (body_len h) \<noteq> length d then None
     else case
       if h_type h = Type_Trade then decode_as put_trade get_trade t_header set_trade_len sizeof_Trade d
       else if h_type h = Type_Bbo then decode_as put_bbo get_bbo b_header set_bbo_len sizeof_Bbo d
       else if h_type h = Type_OrderBook then decode_as put_book get_book o_header set_book_len sizeof_OrderBook d
       else Inr None
     of Inl _ \<Rightarrow> None | Inr res \<Rightarrow> res)"
proof -
  from read_tag_header [OF assms(1)] assms(3) obtain tag r where
      t: "rd_bind (get_u32 BE) (\<lambda>tag. rd_bind (get_header BE) (\<lambda>h. rd_ret (tag, h)))
        \<lparr>rd_data = d, rd_size = length d, rd_pos = 0\<rparr> = Inr ((tag, h), r)" "put_u32 BE tag = take 4 d"
    by auto
  from t(2) have "take 4 d = put_u32 BE wire_magic \<longleftrightarrow> tag = wire_magic"
    using c32.wr_eq_iff [of BE tag wire_magic] by metis
  with assms t(1) show ?thesis by (simp add: decode_def)
qed

lemmas codec_simps = encode_def decode_eq frame_width_def max_frame_def expected_size_def type_consts size_consts

lemma example_frame:
  "load (get_header LE) example_native = Inr (b_header example_bbo)"
  "length example_native = 192" "validate_frame (Some example_native)"
proof -
  show h: "load (get_header LE) example_native = Inr (b_header example_bbo)"
    unfolding example_native_def by (rule mbbo.load_header_image)
  show len: "length example_native = 192"
    unfolding example_native_def using mbbo.length_image [OF example_ok] by (simp add: sizeof_Bbo_def)
  show "validate_frame (Some example_native)"
    by (rule validate_frameI [OF h]) (simp_all add: len example_bbo_def expected_size_def size_consts type_consts)
qed

lemma encode_valid:
  assumes "validate_frame (Some d)" and "load (get_header LE) d = Inr h"
  shows "\<exists>e. encode (Some d) = Inr e \<and> length e = frame_width (h_type h) + 4 \<and>
    decode (Some e) True =
      Some (take (frame_width (h_type h)) d @ replicate (length d - frame_width (h_type h)) 0)"
proof -
  from assms have v: "version h = kVersion" "unat (body_len h) = length d" "length d = expected_size (h_type h)"
      and ty: "h_type h \<in> {Type_Trade, Type_Bbo, Type_OrderBook}"
    by (auto simp: validate_frame_iff)
  from ty consider "h_type h = Type_Trade" | "h_type h = Type_Bbo" | "h_type h = Type_OrderBook" by auto
  then show ?thesis
  proof cases
    case 1
    show ?thesis
      by (rule mtrade.decode_encode_as [of d h]) (use 1 v assms in \<open>auto simp: codec_simps\<close>)
  next
    case 2
    show ?thesis
      by (rule mbbo.decode_encode_as [of d h]) (use 2 v assms in \<open>auto simp: codec_simps\<close>)
  next
    case 3
    show ?thesis
      by (rule mbook.decode_encode_as [of d h]) (use 3 v assms in \<open>auto simp: codec_simps\<close>)
  qed
qed

text \<open>
  C10. A native frame that \<open>validate_frame\<close> accepts is encoded without an exception,
  into 200, 196 or 540 bytes, and decoding these bytes gives the same native frame with its
  tail padding cleared.
\<close>

theorem wire_decode_encode:
  assumes "validate_frame (Some d)" and "load (get_header LE) d = Inr h"
  shows "\<exists>e. encode (Some d) = Inr e \<and> length e = frame_width (h_type h) + 4 \<and>
    decode (Some e) True =
      Some (take (frame_width (h_type h)) d @ replicate (length d - frame_width (h_type h)) 0)"
  by (rule encode_valid [OF assms])

lemma wire_decode_encode_witness:
  "\<exists>e. encode (Some example_native) = Inr e \<and> length e = 196 \<and>
    decode (Some e) True = Some example_native"
proof -
  from wire_decode_encode [OF example_frame(3,1)] show ?thesis
    by (simp add: example_frame(2) example_bbo_def frame_width_def type_consts)
qed

lemma decode_canonical:
  assumes "decode (Some e) out = Some n"
  shows "validate_frame (Some n) \<and> encode (Some n) = Inr e"
proof -
  from assms have len: "44 \<le> length e" "length e \<le> max_frame" and out: "out = True"
    by (auto simp: decode_def split: if_splits)
  from read_tag_header [OF len(1)] obtain h where h: "load (get_header BE) (drop 4 e) = Inr h" by blast
  note eq = assms [unfolded out decode_eq [OF len h]]
  from eq have tag: "take 4 e = put_u32 BE wire_magic"
    by (auto split: if_splits)
  from len have "4 \<le> length e" by simp
  note dec = this tag
  from eq consider
      "h_type h = Type_Trade" "decode_as put_trade get_trade t_header set_trade_len sizeof_Trade e = Inr (Some n)"
    | "h_type h = Type_Bbo" "decode_as put_bbo get_bbo b_header set_bbo_len sizeof_Bbo e = Inr (Some n)"
    | "h_type h = Type_OrderBook" "decode_as put_book get_book o_header set_book_len sizeof_OrderBook e = Inr (Some n)"
    by (auto split: if_splits sum.splits)
  then show ?thesis
  proof cases
    case 1
    note m = mtrade.encode_decode_as [OF dec 1(2)]
    then have "validate_frame (Some n)"
      using 1(1) h by (auto simp: codec_simps intro!: validate_frameI)
    with m 1(1) h show ?thesis by (auto simp: codec_simps)
  next
    case 2
    note m = mbbo.encode_decode_as [OF dec 2(2)]
    then have "validate_frame (Some n)"
      using 2(1) h by (auto simp: codec_simps intro!: validate_frameI)
    with m 2(1) h show ?thesis by (auto simp: codec_simps)
  next
    case 3
    note m = mbook.encode_decode_as [OF dec 3(2)]
    then have "validate_frame (Some n)"
      using 3(1) h by (auto simp: codec_simps intro!: validate_frameI)
    with m 3(1) h show ?thesis by (auto simp: codec_simps)
  qed
qed

text \<open>
  C11. Whatever \<open>decode\<close> accepts is canonical: the native frame it returns passes
  \<open>validate_frame\<close>, and encoding that frame gives back exactly the bytes received. So no
  truncated, extended or otherwise altered frame is taken for a message.
\<close>

theorem wire_encode_decode:
  assumes "decode (Some e) out = Some n"
  shows "validate_frame (Some n) \<and> encode (Some n) = Inr e"
  by (rule decode_canonical [OF assms])

lemma example_decode: "length example_wire = 196" "decode (Some example_wire) True = Some example_native"
proof -
  let ?m = "set_bbo_len 196 example_bbo"
  have ok: "bbo_ok ?m" using example_ok by simp
  show len: "length example_wire = 196"
    using mbbo.length_put [OF ok, of BE] by (simp add: example_wire_def)
  have "load (get_header BE) (drop 4 example_wire) = Inr (b_header ?m)"
    using mbbo.load_header_put [of BE ?m "[]"] by (simp add: example_wire_def)
  moreover have "set_bbo_len (of_nat sizeof_Bbo) ?m = example_bbo"
    by (simp add: set_bbo_len_def sizeof_Bbo_def example_bbo_def)
  then have "decode_as put_bbo get_bbo b_header set_bbo_len sizeof_Bbo example_wire = Inr (Some example_native)"
    using mbbo.decode_as_put [OF ok, of "put_u32 BE wire_magic"]
    by (simp add: example_wire_def example_native_def example_bbo_def)
  ultimately show "decode (Some example_wire) True = Some example_native"
    using len by (subst decode_eq) (auto simp: max_frame_def example_wire_def example_bbo_def type_consts)
qed

lemma wire_encode_decode_witness:
  "decode (Some example_wire) True = Some example_native \<and>
   validate_frame (Some example_native) \<and> encode (Some example_native) = Inr example_wire"
  using wire_encode_decode [OF example_decode(2)] example_decode(2) by blast

section \<open>What a frame says about itself\<close>

definition frame_header :: "bytes \<Rightarrow> header" where
  "frame_header f = projr (load (get_header LE) f)"

definition frame_seq :: "bytes \<Rightarrow> u64" where
  "frame_seq f = seq_id (frame_header f)"

lemma validate_header: "validate_frame (Some f) \<Longrightarrow> load (get_header LE) f = Inr (frame_header f)"
  by (auto simp: validate_frame_def frame_header_def split: if_splits sum.splits)

end
