(* ===== verification/Fec_Encoder.thy ===== *)
theory Fec_Encoder
  imports GF256 Linear Wire_Message
begin

text \<open>
  The sending half of \<open>fec.h\<close>: the FEC envelope and its codec, the length-prefixed
  protected block of a frame, and the \<open>Encoder\<close> that collects a generation and closes it
  into data datagrams, the XOR parity and the Cauchy parity rows.
\<close>

section \<open>Envelope\<close>

definition fec_magic :: u32 where "fec_magic = 0x46454332"
definition kMaxGeneration :: nat where "kMaxGeneration = 128"
definition kEnvelopeSize :: nat where "kEnvelopeSize = 17"

record envelope =
  e_magic :: u32
  e_gen_id :: u32
  e_index :: u16
  e_k :: u16
  e_parity_count :: u16
  e_protected_len :: u16
  e_close_reason :: u8

definition write_envelope :: "envelope \<Rightarrow> bytes" where
  "write_envelope h = put_u32 BE (e_magic h) @ put_u32 BE (e_gen_id h) @ put_u16 BE (e_index h) @
     put_u16 BE (e_k h) @ put_u16 BE (e_parity_count h) @ put_u16 BE (e_protected_len h) @
     put_u8 BE (e_close_reason h)"

definition get_envelope :: "reader \<Rightarrow> exn + envelope \<times> reader" where
  "get_envelope =
     rd_bind (get_u32 BE) (\<lambda>mg. rd_bind (get_u32 BE) (\<lambda>gid. rd_bind (get_u16 BE) (\<lambda>ix.
     rd_bind (get_u16 BE) (\<lambda>k. rd_bind (get_u16 BE) (\<lambda>pc. rd_bind (get_u16 BE) (\<lambda>pl.
     rd_bind (get_u8 BE) (\<lambda>cr. rd_ret
       \<lparr>e_magic = mg, e_gen_id = gid, e_index = ix, e_k = k, e_parity_count = pc,
        e_protected_len = pl, e_close_reason = cr\<rparr>)))))))"

definition read_envelope :: "bytes \<Rightarrow> exn + envelope" where
  "read_envelope d =
     bind_exn (get_envelope \<lparr>rd_data = d, rd_size = kEnvelopeSize, rd_pos = 0\<rparr>) (\<lambda>(h, _). Inr h)"

lemma envelope_codec: "codec write_envelope get_envelope (\<lambda>_. True) 17"
proof
  show "reads get_envelope (\<lambda>x bs. True \<and> write_envelope x = bs) 17"
    unfolding get_envelope_def
    by (rule reads_width, (rule field_reads reads_ret)+) (simp_all add: write_envelope_def)
qed (auto simp: write_envelope_def field_eq)

interpretation cenv: codec write_envelope get_envelope "\<lambda>_. True" 17
  by (rule envelope_codec)

lemma length_write_envelope [simp]: "length (write_envelope h) = 17"
  using cenv.wr_length by simp

lemma read_write_envelope [simp]: "read_envelope (write_envelope h @ payload) = Inr h"
proof -
  let ?r = "\<lparr>rd_data = write_envelope h @ payload, rd_size = kEnvelopeSize, rd_pos = 0\<rparr>"
  have "get_envelope ?r = Inr (h, rd_adv 17 ?r)"
    by (rule cenv.rd_wr) (simp_all add: rd_wf_def rd_chunk_def kEnvelopeSize_def)
  then show ?thesis by (simp add: read_envelope_def)
qed

lemma read_envelope_total:
  assumes "17 \<le> length d"
  obtains h where "read_envelope d = Inr h" and "write_envelope h = take 17 d"
proof -
  let ?r = "\<lparr>rd_data = d, rd_size = kEnvelopeSize, rd_pos = 0\<rparr>"
  have "rd_wf ?r" "rd_pos ?r + 17 \<le> rd_size ?r" using assms by (simp_all add: rd_wf_def kEnvelopeSize_def)
  then obtain h where "get_envelope ?r = Inr (h, rd_adv 17 ?r)" "write_envelope h = rd_chunk 17 ?r"
    by (rule cenv.rd_total)
  then show thesis using that [of h] by (simp add: read_envelope_def rd_chunk_def)
qed

section \<open>Protected blocks\<close>

text \<open>The length prefix of a protected block is little endian.\<close>

definition fec_put_u16 :: "bytes \<Rightarrow> u16 \<Rightarrow> bytes" where
  "fec_put_u16 out v = out[0 := ucast (v AND 255), 1 := ucast (drop_bit 8 v)]"

definition fec_get_u16 :: "bytes \<Rightarrow> u16" where
  "fec_get_u16 d = ucast (d ! 0) OR push_bit 8 (ucast (d ! 1))"

text \<open>\<open>memcpy\<close> into a vector at an offset.\<close>

definition copy_at :: "bytes \<Rightarrow> nat \<Rightarrow> bytes \<Rightarrow> bytes" where
  "copy_at out i src = take i out @ src @ drop (i + length src) out"

definition protected_frame :: "bytes \<Rightarrow> u16 \<Rightarrow> u16 \<Rightarrow> bytes" where
  "protected_frame frame len padded_len =
     (let out = replicate (unat padded_len + 2) 0;
          out = fec_put_u16 out len
      in copy_at out 2 (take (unat len) frame))"

definition data_datagram :: "u32 \<Rightarrow> u16 \<Rightarrow> u16 \<Rightarrow> bytes \<Rightarrow> u16 \<Rightarrow> bytes" where
  "data_datagram gen_id index k frame len =
     write_envelope \<lparr>e_magic = fec_magic, e_gen_id = gen_id, e_index = index, e_k = k,
       e_parity_count = 0, e_protected_len = len, e_close_reason = 0\<rparr> @ take (unat len) frame"

section \<open>Encoder\<close>

record built_generation =
  bg_data :: "bytes list"
  bg_parity :: bytes
  bg_extra_parity :: "bytes list"

record encoder =
  enc_k :: u16
  enc_parity_count :: u16
  enc_max_len :: u16
  enc_frames :: "bytes list"

definition encoder_new :: "u16 \<Rightarrow> u16 \<Rightarrow> exn + encoder" where
  "encoder_new k parity_count =
     (if k = 0 \<or> unat k > kMaxGeneration \<or> parity_count = 0 \<or> parity_count > 16 then Inl InvalidArgument
      else Inr \<lparr>enc_k = k, enc_parity_count = parity_count, enc_max_len = 0, enc_frames = []\<rparr>)"

definition enc_add :: "encoder \<Rightarrow> bytes option \<Rightarrow> u16 \<Rightarrow> bool \<times> encoder" where
  "enc_add e frame len =
     (if frame = None \<or> len = 0 \<or> unat len > max_frame \<or> length (enc_frames e) = unat (enc_k e)
      then (False, e)
      else (True, e\<lparr>enc_frames := enc_frames e @ [take (unat len) (the frame)],
                    enc_max_len := (if len > enc_max_len e then len else enc_max_len e)\<rparr>))"

definition enc_empty :: "encoder \<Rightarrow> bool" where
  "enc_empty e = (enc_frames e = [])"

definition enc_size :: "encoder \<Rightarrow> u16" where
  "enc_size e = of_nat (length (enc_frames e))"

definition enc_full :: "encoder \<Rightarrow> bool" where
  "enc_full e = (length (enc_frames e) = unat (enc_k e))"

text \<open>\<open>for j: a[j] ^= b[j]\<close> over the length of \<open>a\<close>.\<close>

definition xor_bytes :: "bytes \<Rightarrow> bytes \<Rightarrow> bytes" where
  "xor_bytes a b = map2 (\<lambda>x y. x XOR y) a b"

definition block_of :: "u16 \<Rightarrow> bytes \<Rightarrow> bytes" where
  "block_of max_len f = protected_frame f (of_nat (length f)) max_len"

definition xor_parity :: "u16 \<Rightarrow> bytes list \<Rightarrow> bytes" where
  "xor_parity max_len frames =
     foldl (\<lambda>parity f. xor_bytes parity (block_of max_len f)) (replicate (unat max_len + 2) 0) frames"

text \<open>One pass of the loop over \<open>row\<close>: the shard of that parity row.\<close>

definition parity_shard :: "u16 \<Rightarrow> bytes list \<Rightarrow> u16 \<Rightarrow> exn + bytes" where
  "parity_shard max_len frames row =
     bind_exn (mapM_exn (\<lambda>col. coefficient row (of_nat col)) [0..<length frames]) (\<lambda>cs.
       Inr (foldl (\<lambda>shard (c, f). xor_bytes shard (map (mul c) (block_of max_len f)))
              (replicate (unat max_len + 2) 0) (zip cs frames)))"

definition enc_close :: "encoder \<Rightarrow> u32 \<Rightarrow> u8 \<Rightarrow> exn + built_generation \<times> encoder" where
  "enc_close e gen_id close_reason =
     (if enc_empty e then Inl InvalidArgument
      else let frames = enc_frames e;
               actual_k = (of_nat (length frames) :: u16);
               parity = xor_parity (enc_max_len e) frames;
               hd = \<lparr>e_magic = fec_magic, e_gen_id = gen_id, e_index = actual_k, e_k = actual_k,
                     e_parity_count = enc_parity_count e, e_protected_len = of_nat (length parity),
                     e_close_reason = close_reason\<rparr>
           in bind_exn (mapM_exn (\<lambda>row. bind_exn (parity_shard (enc_max_len e) frames (of_nat row))
                  (\<lambda>shard. Inr (write_envelope (hd\<lparr>e_index := actual_k + of_nat row\<rparr>) @ shard)))
                [1..<unat (enc_parity_count e)]) (\<lambda>extra.
              Inr (\<lparr>bg_data = map (\<lambda>i. data_datagram gen_id (of_nat i) (enc_k e) (frames ! i)
                                    (of_nat (length (frames ! i)))) [0..<length frames],
                    bg_parity = write_envelope hd @ parity, bg_extra_parity = extra\<rparr>,
                   e\<lparr>enc_frames := [], enc_max_len := 0\<rparr>)))"

section \<open>Protected blocks carry their frame\<close>

lemma fec_get_put_u16:
  assumes "2 \<le> length out"
  shows "fec_get_u16 (fec_put_u16 out v) = v"
proof -
  have "v AND 255 = take_bit 8 v" by (simp add: take_bit_eq_mask mask_eq_exp_minus_1)
  moreover have "ucast (ucast (take_bit 8 v) :: u8) OR push_bit 8 (ucast (ucast (drop_bit 8 v) :: u8)) = v"
    by (rule bit_word_eqI) (auto simp: bit_simps)
  moreover have "0 < length out" "1 < length out" using assms by auto
  ultimately show ?thesis by (simp add: fec_get_u16_def fec_put_u16_def nth_list_update)
qed

lemma length_fec_put_u16 [simp]: "length (fec_put_u16 out v) = length out"
  by (simp add: fec_put_u16_def)

lemma fec_get_u16_append: "2 \<le> length a \<Longrightarrow> fec_get_u16 (a @ b) = fec_get_u16 a"
  by (auto simp: fec_get_u16_def nth_append)

lemma copy_at_append: "length a = i \<Longrightarrow> copy_at (a @ zs) i src = a @ src @ drop (length src) zs"
  by (simp add: copy_at_def)

lemma fec_put_u16_append: "length a = 2 \<Longrightarrow> fec_put_u16 (a @ zs) v = fec_put_u16 a v @ zs"
  by (simp add: fec_put_u16_def list_update_append)

lemma protected_frame_eq:
  assumes "length f = unat len" and "unat len \<le> unat padded"
  shows "protected_frame f len padded = fec_put_u16 [0, 0] len @ f @ replicate (unat padded - unat len) 0"
proof -
  define zs :: bytes where "zs = replicate (unat padded) 0"
  have out: "replicate (unat padded + 2) (0 :: u8) = [0, 0] @ zs"
    by (simp add: zs_def)
  have "fec_put_u16 ([0, 0] @ zs) len = fec_put_u16 [0, 0] len @ zs"
    by (rule fec_put_u16_append) simp
  then have "protected_frame f len padded = copy_at (fec_put_u16 [0, 0] len @ zs) 2 f"
    unfolding protected_frame_def Let_def out using assms(1) by simp
  also have "\<dots> = fec_put_u16 [0, 0] len @ f @ drop (length f) zs"
    by (rule copy_at_append) simp
  finally show ?thesis using assms(1) by (simp add: zs_def)
qed

lemma protected_frame_unpack:
  assumes "length f = unat len" and "unat len \<le> unat padded"
  shows "length (protected_frame f len padded) = unat padded + 2"
    and "fec_get_u16 (protected_frame f len padded) = len"
    and "take (unat len) (drop 2 (protected_frame f len padded)) = f"
  using assms by (simp_all add: protected_frame_eq fec_get_u16_append fec_get_put_u16)

section \<open>Parity shards are codewords\<close>

lemma length_xor_bytes [simp]: "length (xor_bytes a b) = min (length a) (length b)"
  by (simp add: xor_bytes_def)

lemma nth_xor_bytes [simp]: "j < length a \<Longrightarrow> j < length b \<Longrightarrow> xor_bytes a b ! j = a ! j XOR b ! j"
  by (simp add: xor_bytes_def)

lemma foldl_xor_blocks:
  assumes "\<And>x. x \<in> set xs \<Longrightarrow> length (g x) = w" and "length z = w"
  shows "length (foldl (\<lambda>s x. xor_bytes s (g x)) z xs) = w \<and>
    (\<forall>j<w. gf_of (foldl (\<lambda>s x. xor_bytes s (g x)) z xs ! j) =
       gf_of (z ! j) + (\<Sum>i<length xs. gf_of (g (xs ! i) ! j)))"
  using assms
proof (induction xs arbitrary: z)
  case (Cons x xs)
  from Cons.IH [of "xor_bytes z (g x)"] Cons.prems show ?case
    by (simp add: sum.lessThan_Suc_shift add.assoc del: sum.lessThan_Suc)
qed simp

text \<open>The bytes of parity row \<open>r\<close> over the blocks of a generation, in the field.\<close>

definition codeword :: "bytes list \<Rightarrow> nat \<Rightarrow> nat \<Rightarrow> gf" where
  "codeword blocks r j = (\<Sum>c<length blocks. gcoef r c * gf_of (blocks ! c ! j))"

definition is_shard :: "bytes list \<Rightarrow> nat \<Rightarrow> nat \<Rightarrow> bytes \<Rightarrow> bool" where
  "is_shard blocks w r s \<longleftrightarrow> length s = w \<and> (\<forall>j<w. gf_of (s ! j) = codeword blocks r j)"

lemma is_shard_unique: "is_shard blocks w r s \<Longrightarrow> is_shard blocks w r t \<Longrightarrow> s = t"
  by (rule nth_equalityI) (auto simp: is_shard_def simp flip: gf_of_eq_iff)

lemma foldl_is_shard:
  assumes len: "\<And>x. x \<in> set xs \<Longrightarrow> length (g x) = w"
    and "\<And>j. j < w \<Longrightarrow> (\<Sum>i<length xs. gf_of (g (xs ! i) ! j)) = codeword blocks r j"
  shows "is_shard blocks w r (foldl (\<lambda>s x. xor_bytes s (g x)) (replicate w 0) xs)"
  using foldl_xor_blocks [of xs g w "replicate w 0"] assms by (simp add: is_shard_def)

definition frames_ok :: "u16 \<Rightarrow> bytes list \<Rightarrow> bool" where
  "frames_ok ml fs \<longleftrightarrow> length fs \<le> kMaxGeneration \<and> unat ml \<le> max_frame \<and>
     (\<forall>f\<in>set fs. f \<noteq> [] \<and> length f \<le> unat ml)"

lemma unat_length_u16: "length f \<le> unat (ml :: u16) \<Longrightarrow> unat (of_nat (length f) :: u16) = length f"
  by (intro unat_of_nat_small order_le_less_trans [OF _ unsigned_less [of ml]])

lemma block_of_unpack:
  assumes "length f \<le> unat ml"
  shows "length (block_of ml f) = unat ml + 2" and "fec_get_u16 (block_of ml f) = of_nat (length f)"
    and "take (length f) (drop 2 (block_of ml f)) = f"
  using protected_frame_unpack [of f "of_nat (length f)" ml] assms
  by (simp_all add: block_of_def unat_length_u16)

lemma xor_parity_shard:
  assumes "frames_ok ml fs"
  shows "is_shard (map (block_of ml) fs) (unat ml + 2) 0 (xor_parity ml fs)"
proof -
  have len: "length (block_of ml f) = unat ml + 2" if "f \<in> set fs" for f
    using assms that block_of_unpack(1) [of f ml] by (auto simp: frames_ok_def)
  have "codeword (map (block_of ml) fs) 0 j = (\<Sum>i<length fs. gf_of (block_of ml (fs ! i) ! j))" for j
    using assms by (simp add: codeword_def gcoef_row_0 frames_ok_def kMaxGeneration_def)
  with len show ?thesis unfolding xor_parity_def by (intro foldl_is_shard) auto
qed

lemma coefficient_row:
  assumes "row < 128" and "n \<le> 128"
  obtains g where "mapM_exn (\<lambda>col. coefficient (of_nat row) (of_nat col)) [0..<n] = Inr (map g [0..<n])"
    and "\<And>c. c < n \<Longrightarrow> gf_of (g c) = gcoef row c"
proof -
  have "\<exists>b. coefficient (of_nat row) (of_nat c) = Inr b \<and> gf_of b = gcoef row c" if "c < n" for c
    by (rule coefficient_field) (use assms that in auto)
  then obtain g where "\<And>c. c < n \<Longrightarrow> coefficient (of_nat row) (of_nat c) = Inr (g c) \<and> gf_of (g c) = gcoef row c"
    by metis
  then show thesis by (intro that [of g] mapM_exn_Inr) auto
qed

lemma parity_shard_ok:
  assumes "frames_ok ml fs" and "row < 128"
  obtains s where "parity_shard ml fs (of_nat row) = Inr s"
    and "is_shard (map (block_of ml) fs) (unat ml + 2) row s"
proof -
  from assms have "length fs \<le> 128" by (simp add: frames_ok_def kMaxGeneration_def)
  with assms(2) obtain g where
    g: "mapM_exn (\<lambda>col. coefficient (of_nat row) (of_nat col)) [0..<length fs] = Inr (map g [0..<length fs])"
      "\<And>c. c < length fs \<Longrightarrow> gf_of (g c) = gcoef row c"
    using coefficient_row [of row "length fs"] by blast
  define z where "z = zip (map g [0..<length fs]) fs"
  define b where "b x = map (mul (fst x)) (block_of ml (snd x))" for x
  define s where "s = foldl (\<lambda>s x. xor_bytes s (b x)) (replicate (unat ml + 2) 0) z"
  have bl: "length (block_of ml f) = unat ml + 2" if "f \<in> set fs" for f
    using assms(1) that block_of_unpack(1) [of f ml] by (auto simp: frames_ok_def)
  have "snd x \<in> set fs" if "x \<in> set z" for x
    using that set_zip_rightD [of "fst x" "snd x"] by (simp add: z_def)
  then have len: "length (b x) = unat ml + 2" if "x \<in> set z" for x
    using that bl by (simp add: b_def)
  have "parity_shard ml fs (of_nat row) = Inr s"
    by (simp only: parity_shard_def g(1) bind_exn_simps s_def b_def z_def case_prod_unfold)
  moreover have sum: "(\<Sum>i<length z. gf_of (b (z ! i) ! j)) = codeword (map (block_of ml) fs) row j"
    if "j < unat ml + 2" for j
    unfolding codeword_def
  proof (rule sum.cong)
    fix i assume "i \<in> {..<length (map (block_of ml) fs)}"
    then have "z ! i = (g i, fs ! i)" "j < length (block_of ml (fs ! i))" "i < length fs"
      using bl [of "fs ! i"] that by (simp_all add: z_def)
    then show "gf_of (b (z ! i) ! j) = gcoef row i * gf_of (map (block_of ml) fs ! i ! j)"
      using g(2) [of i] by (simp add: b_def)
  qed (simp add: z_def)
  have "is_shard (map (block_of ml) fs) (unat ml + 2) row s"
    unfolding s_def by (intro foldl_is_shard len sum)
  with calculation show thesis by (rule that)
qed

section \<open>The encoder's invariant and what closing a generation gives\<close>

definition enc_wf :: "encoder \<Rightarrow> bool" where
  "enc_wf e \<longleftrightarrow> 0 < unat (enc_k e) \<and> unat (enc_k e) \<le> kMaxGeneration \<and>
     0 < unat (enc_parity_count e) \<and> unat (enc_parity_count e) \<le> 16 \<and>
     length (enc_frames e) \<le> unat (enc_k e) \<and> frames_ok (enc_max_len e) (enc_frames e) \<and>
     unat (enc_max_len e) = Max (insert 0 (length ` set (enc_frames e)))"

lemma enc_wf_new: "encoder_new k pc = Inr e \<Longrightarrow> enc_wf e \<and> enc_empty e"
  by (auto simp: encoder_new_def enc_wf_def enc_empty_def frames_ok_def word_le_nat_alt word_less_nat_alt
      unat_gt_0 split: if_splits)

lemma enc_wf_add:
  assumes "enc_wf e" and "\<And>f. frame = Some f \<Longrightarrow> unat len \<le> length f"
  shows "enc_wf (snd (enc_add e frame len))"
proof (cases "frame = None \<or> len = 0 \<or> unat len > max_frame \<or> length (enc_frames e) = unat (enc_k e)")
  case False
  then obtain f where f: "frame = Some f" by auto
  define g where "g = take (unat len) f"
  have g: "length g = unat len" using assms(2) f by (simp add: g_def)
  have len0: "0 < unat len" using False by (simp add: unat_gt_0)
  define M where "M = Max (insert 0 (length ` set (enc_frames e)))"
  have "insert 0 (length ` set (enc_frames e @ [g])) = insert (unat len) (insert 0 (length ` set (enc_frames e)))"
    using g by auto
  then have "Max (insert 0 (length ` set (enc_frames e @ [g]))) = max (unat len) M"
    unfolding M_def by (simp only:) (rule Max_insert, simp_all)
  moreover have M: "unat (enc_max_len e) = M" using assms(1) by (simp add: enc_wf_def M_def)
  define ml where "ml = (if len > enc_max_len e then len else enc_max_len e)"
  have ml: "unat ml = max (unat len) M" using M by (simp add: ml_def word_less_nat_alt max_def)
  moreover have "frames_ok ml (enc_frames e @ [g])"
  proof -
    have "frames_ok (enc_max_len e) (enc_frames e)" using assms(1) by (simp add: enc_wf_def)
    then have "\<forall>f\<in>set (enc_frames e). f \<noteq> [] \<and> length f \<le> M" "M \<le> max_frame"
      by (simp_all add: frames_ok_def M)
    moreover have "g \<noteq> []" "unat len \<le> max_frame" "Suc (length (enc_frames e)) \<le> kMaxGeneration"
      using g len0 False assms(1) by (auto simp: enc_wf_def)
    ultimately show ?thesis by (simp add: frames_ok_def ml g le_max_iff_disj)
  qed
  moreover have "snd (enc_add e frame len) = e\<lparr>enc_frames := enc_frames e @ [g], enc_max_len := ml\<rparr>"
    using False f by (simp add: enc_add_def g_def ml_def)
  ultimately show ?thesis using assms(1) False by (simp add: enc_wf_def)
qed (use assms in \<open>simp add: enc_add_def\<close>)

definition data_envelope :: "u32 \<Rightarrow> nat \<Rightarrow> u16 \<Rightarrow> nat \<Rightarrow> envelope" where
  "data_envelope gid i k len = \<lparr>e_magic = fec_magic, e_gen_id = gid, e_index = of_nat i, e_k = k,
     e_parity_count = 0, e_protected_len = of_nat len, e_close_reason = 0\<rparr>"

definition parity_envelope :: "u32 \<Rightarrow> nat \<Rightarrow> nat \<Rightarrow> u16 \<Rightarrow> nat \<Rightarrow> u8 \<Rightarrow> envelope" where
  "parity_envelope gid r n pc w reason = \<lparr>e_magic = fec_magic, e_gen_id = gid, e_index = of_nat (n + r),
     e_k = of_nat n, e_parity_count = pc, e_protected_len = of_nat w, e_close_reason = reason\<rparr>"

definition parity_packets :: "built_generation \<Rightarrow> bytes list" where
  "parity_packets b = bg_parity b # bg_extra_parity b"

lemma enc_close_ok:
  assumes "enc_wf e" and "\<not> enc_empty e"
  shows "\<exists>b. enc_close e gid reason = Inr (b, e\<lparr>enc_frames := [], enc_max_len := 0\<rparr>) \<and>
    bg_data b = map (\<lambda>i. write_envelope (data_envelope gid i (enc_k e) (length (enc_frames e ! i))) @
      enc_frames e ! i) [0..<length (enc_frames e)] \<and>
    length (parity_packets b) = unat (enc_parity_count e) \<and>
    (\<forall>r<unat (enc_parity_count e). \<exists>s. parity_packets b ! r =
       write_envelope (parity_envelope gid r (length (enc_frames e)) (enc_parity_count e)
         (unat (enc_max_len e) + 2) reason) @ s \<and>
       is_shard (map (block_of (enc_max_len e)) (enc_frames e)) (unat (enc_max_len e) + 2) r s)"
proof -
  let ?fs = "enc_frames e" and ?ml = "enc_max_len e" and ?pc = "unat (enc_parity_count e)"
  let ?bl = "map (block_of ?ml) ?fs" and ?w = "unat ?ml + 2"
  let ?env = "\<lambda>r. write_envelope (parity_envelope gid r (length ?fs) (enc_parity_count e) ?w reason)"
  from assms have fs: "frames_ok ?ml ?fs" and pc: "0 < ?pc" "?pc \<le> 16" by (auto simp: enc_wf_def)
  have "\<exists>s. parity_shard ?ml ?fs (of_nat r) = Inr s \<and> is_shard ?bl ?w r s" if "r < 16" for r
    using parity_shard_ok [OF fs, of r] that by fastforce
  then obtain sh where sh: "\<And>r. r < 16 \<Longrightarrow> parity_shard ?ml ?fs (of_nat r) = Inr (sh r)"
      "\<And>r. r < 16 \<Longrightarrow> is_shard ?bl ?w r (sh r)" by metis
  have xor: "is_shard ?bl ?w 0 (xor_parity ?ml ?fs)" by (rule xor_parity_shard [OF fs])
  then have xlen: "length (xor_parity ?ml ?fs) = ?w" by (simp add: is_shard_def)
  have flen: "unat (of_nat (length f) :: u16) = length f" if "f \<in> set ?fs" for f
    using that fs by (auto simp: frames_ok_def intro: unat_length_u16)
  define b where "b = \<lparr>bg_data = map (\<lambda>i. write_envelope (data_envelope gid i (enc_k e) (length (?fs ! i))) @
      ?fs ! i) [0..<length ?fs], bg_parity = ?env 0 @ xor_parity ?ml ?fs,
      bg_extra_parity = map (\<lambda>r. ?env r @ sh r) [1..<?pc]\<rparr>"
  have "mapM_exn (\<lambda>row. bind_exn (parity_shard ?ml ?fs (of_nat row)) (\<lambda>shard. Inr (?env row @ shard))) [1..<?pc] =
      Inr (map (\<lambda>r. ?env r @ sh r) [1..<?pc])"
    by (rule mapM_exn_Inr) (use sh(1) pc in auto)
  then have "enc_close e gid reason = Inr (b, e\<lparr>enc_frames := [], enc_max_len := 0\<rparr>)"
    using assms(2) flen by (simp add: enc_close_def Let_def b_def xlen parity_envelope_def data_datagram_def
        data_envelope_def del: add_2_eq_Suc')
  moreover have "parity_packets b ! r = ?env r @ (if r = 0 then xor_parity ?ml ?fs else sh r)" if "r < ?pc" for r
    using that nth_upt [of 1 "r - 1" ?pc] by (cases r) (simp_all add: parity_packets_def b_def)
  ultimately show ?thesis
    using pc xor sh(2) by (intro exI [of _ b]) (auto simp: parity_packets_def b_def)
qed

end
