(* ===== verification/Samples.thy ===== *)
theory Samples
  imports Prelude
begin

text \<open>The bounded reservoir of \<open>samples.h\<close>, shared by the metrics and the FEC decoder.\<close>

definition kSampleLimit :: nat where "kSampleLimit = 65536"

definition sample_hash :: "u64 \<Rightarrow> u64" where
  "sample_hash seen =
     (let x = seen + 0x9e3779b97f4a7c15;
          x = (x XOR drop_bit 30 x) * 0xbf58476d1ce4e5b9;
          x = (x XOR drop_bit 27 x) * 0x94d049bb133111eb
      in x XOR drop_bit 31 x)"

definition sample :: "u64 list \<Rightarrow> u64 \<Rightarrow> u64 \<Rightarrow> u64 list" where
  "sample values v seen =
     (if length values < kSampleLimit then values @ [v]
      else let index = sample_hash seen mod seen
           in if unat index < length values then values[unat index := v] else values)"

lemma length_sample: "length (sample values v seen) =
    (if length values < kSampleLimit then Suc (length values) else length values)"
  by (simp add: sample_def Let_def)

lemma sample_bound: "length values \<le> kSampleLimit \<Longrightarrow> length (sample values v seen) \<le> kSampleLimit"
  by (simp add: length_sample)

lemma sample_set: "set (sample values v seen) \<subseteq> insert v (set values)"
  by (auto simp: sample_def Let_def split: if_splits dest: set_update_subset_insert [THEN subsetD])

end
