(* ===== verification/Fec_Decoder.thy ===== *)
theory Fec_Decoder
  imports Fec_Encoder Samples
begin

text \<open>
  The receiving half of \<open>fec.h\<close>: the generation slots, the handling of a data or parity
  datagram, Gauss-Jordan recovery of the missing frames, expiry and the counters. A
  generation is written back to its slot wherever the C++ code holds a reference to it.
  The callback \<open>publish\<close> threads a state of its own and may throw.
\<close>

section \<open>State\<close>

record generation =
  g_active :: bool
  g_seen_any :: bool
  g_parity_received :: bool
  g_recovered :: bool
  g_unrecoverable_counted :: bool
  g_gen_id :: u32
  g_k :: u16
  g_parity_count :: u16
  g_close_reason :: u8
  g_first_ns :: u64
  g_data :: "bytes list"
  g_parities :: "bytes list"
  g_received :: "bool list"

definition generation_init :: generation where
  "generation_init = \<lparr>g_active = False, g_seen_any = False, g_parity_received = False, g_recovered = False,
     g_unrecoverable_counted = False, g_gen_id = 0, g_k = 0, g_parity_count = 0, g_close_reason = 0,
     g_first_ns = 0, g_data = [], g_parities = [], g_received = []\<rparr>"

record fec_counters =
  fc_parity_received :: u64
  fc_recovered :: u64
  fc_unrecoverable_gens :: u64
  fc_recovered_by_k :: u64
  fc_recovered_by_timeout :: u64
  fc_recovered_by_flush :: u64

record decoder =
  d_recovery_events :: u64
  d_recovery_k_events :: u64
  d_recovery_timeout_events :: u64
  d_recovery_flush_events :: u64
  d_gens :: u32
  d_slots :: "generation list"
  d_counters :: fec_counters
  d_recovery_latencies :: "u64 list"
  d_recovery_by_k :: "u64 list"
  d_recovery_by_timeout :: "u64 list"
  d_recovery_by_flush :: "u64 list"

definition decoder_new :: "u32 \<Rightarrow> decoder" where
  "decoder_new gens =
     (let n = (if gens \<noteq> 0 then gens else 1)
      in \<lparr>d_recovery_events = 0, d_recovery_k_events = 0, d_recovery_timeout_events = 0,
          d_recovery_flush_events = 0, d_gens = n, d_slots = replicate (unat n) generation_init,
          d_counters = \<lparr>fc_parity_received = 0, fc_recovered = 0, fc_unrecoverable_gens = 0,
            fc_recovered_by_k = 0, fc_recovered_by_timeout = 0, fc_recovered_by_flush = 0\<rparr>,
          d_recovery_latencies = [], d_recovery_by_k = [], d_recovery_by_timeout = [],
          d_recovery_by_flush = []\<rparr>)"

text \<open>\<open>publish(data, len, recovered, close_reason)\<close> on a state of the caller.\<close>

type_synonym 's publish = "'s \<Rightarrow> bytes \<Rightarrow> bool \<Rightarrow> u8 \<Rightarrow> exn + bool \<times> 's"

section \<open>Slots\<close>

definition finalize :: "fec_counters \<Rightarrow> generation \<Rightarrow> fec_counters \<times> generation" where
  "finalize c g =
     (if \<not> g_active g \<or> \<not> g_parity_received g \<or> g_recovered g \<or> g_unrecoverable_counted g \<or> g_k g = 0
      then (c, g)
      else if filter (\<lambda>i. i \<ge> length (g_received g) \<or> \<not> g_received g ! i) [0..<unat (g_k g)] \<noteq> []
      then (c\<lparr>fc_unrecoverable_gens := fc_unrecoverable_gens c + 1\<rparr>, g\<lparr>g_unrecoverable_counted := True\<rparr>)
      else (c, g))"

definition slot_index :: "decoder \<Rightarrow> u32 \<Rightarrow> nat" where
  "slot_index d gen_id = unat (gen_id mod d_gens d)"

definition gen_at :: "decoder \<Rightarrow> u32 \<Rightarrow> generation" where
  "gen_at d gen_id = d_slots d ! slot_index d gen_id"

definition put_gen :: "decoder \<Rightarrow> u32 \<Rightarrow> generation \<Rightarrow> decoder" where
  "put_gen d gen_id g = d\<lparr>d_slots := (d_slots d)[slot_index d gen_id := g]\<rparr>"

definition slot :: "decoder \<Rightarrow> u32 \<Rightarrow> u16 \<Rightarrow> u64 \<Rightarrow> decoder" where
  "slot d gen_id k now_ns =
     (let g = gen_at d gen_id
      in if \<not> g_active g \<or> g_gen_id g \<noteq> gen_id
         then put_gen (d\<lparr>d_counters := fst (finalize (d_counters d) g)\<rparr>) gen_id
           (generation_init\<lparr>g_active := True, g_gen_id := gen_id, g_k := k, g_first_ns := now_ns\<rparr>)
         else d)"

text \<open>\<open>vector::resize\<close>, growing with a default value.\<close>

definition resize :: "nat \<Rightarrow> 'a \<Rightarrow> 'a list \<Rightarrow> 'a list" where
  "resize n x xs = take n xs @ replicate (n - length xs) x"

definition ensure :: "generation \<Rightarrow> u16 \<Rightarrow> generation" where
  "ensure g k =
     (let g = (if g_k g = 0 \<or> k < g_k g then g\<lparr>g_k := k\<rparr> else g)
      in if length (g_data g) < unat (g_k g)
         then g\<lparr>g_data := resize (unat (g_k g)) [] (g_data g),
                g_received := resize (unat (g_k g)) False (g_received g)\<rparr>
         else g)"

section \<open>Recovery\<close>

text \<open>\<open>for j < b.size(): a[j] ^= b[j]\<close>, for a \<open>b\<close> no longer than \<open>a\<close>.\<close>

definition xor_into :: "bytes \<Rightarrow> bytes \<Rightarrow> bytes" where
  "xor_into a b = xor_bytes (take (length b) a) b @ drop (length b) a"

text \<open>
  The known data blocks are taken out of a parity row; \<open>Inr None\<close> is the early
  \<open>return false\<close> on a block wider than the parity.
\<close>

fun reduce_known :: "generation \<Rightarrow> nat \<Rightarrow> nat \<Rightarrow> nat list \<Rightarrow> bytes \<Rightarrow> exn + bytes option" where
  "reduce_known g width row [] rhs = Inr (Some rhs)"
| "reduce_known g width row (c # cs) rhs =
     (if g_received g ! c then
        if length (g_data g ! c) > width then Inr None
        else bind_exn (coefficient (of_nat row) (of_nat c)) (\<lambda>factor.
          reduce_known g width row cs (xor_into rhs (map (mul factor) (g_data g ! c))))
      else reduce_known g width row cs rhs)"

fun build_system :: "generation \<Rightarrow> nat \<Rightarrow> nat list \<Rightarrow> nat list \<Rightarrow> exn + (bytes list \<times> bytes list) option" where
  "build_system g width absent [] = Inr (Some ([], []))"
| "build_system g width absent (row # rows) =
     bind_exn (mapM_exn (\<lambda>c. coefficient (of_nat row) (of_nat c)) absent) (\<lambda>coefs.
     bind_exn (reduce_known g width row [0..<unat (g_k g)] (g_parities g ! row)) (\<lambda>rhs.
       case rhs of None \<Rightarrow> Inr None
       | Some b \<Rightarrow> bind_exn (build_system g width absent rows) (\<lambda>rest.
           case rest of None \<Rightarrow> Inr None
           | Some (m, bs) \<Rightarrow> Inr (Some (coefs # m, b # bs)))))"

function find_pivot :: "bytes list \<Rightarrow> nat \<Rightarrow> nat \<Rightarrow> nat" where
  "find_pivot m c pivot =
     (if pivot < length m \<and> m ! pivot ! c = 0 then find_pivot m c (Suc pivot) else pivot)"
  by auto
termination by (relation "measure (\<lambda>(m, c, pivot). length m - pivot)") auto

declare find_pivot.simps [simp del]

definition swap_rows :: "'a list \<Rightarrow> nat \<Rightarrow> nat \<Rightarrow> 'a list" where
  "swap_rows xs i j = xs[i := xs ! j, j := xs ! i]"

definition eliminate :: "nat \<Rightarrow> u8 \<Rightarrow> (nat \<Rightarrow> u8) \<Rightarrow> bytes list \<Rightarrow> bytes list" where
  "eliminate c scale factor xs =
     (let pivot_row = map (\<lambda>x. mul x scale) (xs ! c)
      in map (\<lambda>r. if r = c then pivot_row else xor_bytes (xs ! r) (map (mul (factor r)) pivot_row))
           [0..<length xs])"

text \<open>One pass of the loop over \<open>c\<close>: pivot, scale the pivot row, eliminate the column.\<close>

definition gauss_step :: "nat \<Rightarrow> bytes list \<Rightarrow> bytes list \<Rightarrow> exn + (bytes list \<times> bytes list) option" where
  "gauss_step c m rhs =
     (let pivot = find_pivot m c c
      in if pivot = length m then Inr None
         else let m = swap_rows m pivot c; rhs = swap_rows rhs pivot c
              in bind_exn (gf_inverse (m ! c ! c)) (\<lambda>scale.
                   Inr (Some (eliminate c scale (\<lambda>r. m ! r ! c) m, eliminate c scale (\<lambda>r. m ! r ! c) rhs))))"

fun gauss :: "nat list \<Rightarrow> bytes list \<Rightarrow> bytes list \<Rightarrow> exn + bytes list option" where
  "gauss [] m rhs = Inr (Some rhs)"
| "gauss (c # cs) m rhs =
     bind_exn (gauss_step c m rhs) (\<lambda>res.
       case res of None \<Rightarrow> Inr None | Some (m, rhs) \<Rightarrow> gauss cs m rhs)"

definition count_recovered :: "u8 \<Rightarrow> fec_counters \<Rightarrow> fec_counters" where
  "count_recovered reason c =
     (let c = c\<lparr>fc_recovered := fc_recovered c + 1\<rparr>
      in if reason = 0 then c\<lparr>fc_recovered_by_k := fc_recovered_by_k c + 1\<rparr>
         else if reason = 1 then c\<lparr>fc_recovered_by_timeout := fc_recovered_by_timeout c + 1\<rparr>
         else c\<lparr>fc_recovered_by_flush := fc_recovered_by_flush c + 1\<rparr>)"

fun publish_rows :: "'s publish \<Rightarrow> (nat \<times> bytes) list \<Rightarrow> generation \<Rightarrow> fec_counters \<Rightarrow> 's \<Rightarrow>
    exn + bool \<times> generation \<times> fec_counters \<times> 's" where
  "publish_rows publish [] g c s = Inr (True, g, c, s)"
| "publish_rows publish ((i, row) # rest) g c s =
     bind_exn (publish s (take (unat (fec_get_u16 row)) (drop 2 row)) True (g_close_reason g)) (\<lambda>(ok, s).
       if \<not> ok then Inr (False, g, c, s)
       else publish_rows publish rest
         (g\<lparr>g_received := (g_received g)[i := True], g_data := (g_data g)[i := row]\<rparr>)
         (count_recovered (g_close_reason g) c) s)"

definition record_latency :: "u8 \<Rightarrow> u64 \<Rightarrow> decoder \<Rightarrow> decoder" where
  "record_latency reason latency d =
     (let n = d_recovery_events d + 1;
          d = d\<lparr>d_recovery_events := n, d_recovery_latencies := sample (d_recovery_latencies d) latency n\<rparr>
      in if reason = 0 then
           let n = d_recovery_k_events d + 1
           in d\<lparr>d_recovery_k_events := n, d_recovery_by_k := sample (d_recovery_by_k d) latency n\<rparr>
         else if reason = 1 then
           let n = d_recovery_timeout_events d + 1
           in d\<lparr>d_recovery_timeout_events := n, d_recovery_by_timeout := sample (d_recovery_by_timeout d) latency n\<rparr>
         else
           let n = d_recovery_flush_events d + 1
           in d\<lparr>d_recovery_flush_events := n, d_recovery_by_flush := sample (d_recovery_by_flush d) latency n\<rparr>)"

definition bad_row :: "nat \<Rightarrow> bytes \<Rightarrow> bool" where
  "bad_row width row =
     (let len = unat (fec_get_u16 row) in len = 0 \<or> len > max_frame \<or> len + 2 > width)"

definition try_recover :: "'s publish \<Rightarrow> decoder \<Rightarrow> u32 \<Rightarrow> u64 \<Rightarrow> 's \<Rightarrow> exn + bool \<times> decoder \<times> 's" where
  "try_recover publish d gen_id now_ns s =
     (let g = gen_at d gen_id
      in if \<not> g_parity_received g \<or> g_recovered g \<or> g_k g = 0 then Inr (True, d, s)
         else let absent = filter (\<lambda>i. \<not> g_received g ! i) [0..<unat (g_k g)];
                  missing = length absent
         in if missing = 0 then Inr (True, d, s)
         else let rows = filter (\<lambda>i. g_parities g ! i \<noteq> []) [0..<length (g_parities g)]
         in if length rows < missing then Inr (True, d, s)
         else let rows = take missing rows;
                  width = length (g_parities g ! (rows ! 0))
         in bind_exn (build_system g width absent rows) (\<lambda>system.
            case system of None \<Rightarrow> Inr (False, d, s)
            | Some (m, rhs) \<Rightarrow> bind_exn (gauss [0..<missing] m rhs) (\<lambda>solved.
            case solved of None \<Rightarrow> Inr (False, d, s)
            | Some rhs \<Rightarrow>
                if list_ex (bad_row width) rhs then Inr (False, d, s)
                else bind_exn (publish_rows publish (zip absent rhs) g (d_counters d) s) (\<lambda>(ok, g, c, s).
                  let d = put_gen (d\<lparr>d_counters := c\<rparr>) gen_id g
                  in if \<not> ok then Inr (False, d, s)
                     else let d = put_gen d gen_id (g\<lparr>g_recovered := True\<rparr>);
                              latency = (if now_ns \<ge> g_first_ns g then now_ns - g_first_ns g else 0)
                          in Inr (True, record_latency (g_close_reason g) latency d, s)))))"

section \<open>Receiving a datagram\<close>

definition touch :: "u64 \<Rightarrow> generation \<Rightarrow> generation" where
  "touch now_ns g = g\<lparr>g_seen_any := True, g_first_ns := (if g_first_ns g = 0 then now_ns else g_first_ns g)\<rparr>"

definition receive_data :: "'s publish \<Rightarrow> decoder \<Rightarrow> envelope \<Rightarrow> bytes \<Rightarrow> u64 \<Rightarrow> 's \<Rightarrow>
    exn + bool \<times> decoder \<times> 's" where
  "receive_data publish d env payload now_ns s =
     (if payload = [] \<or> length payload \<noteq> unat (e_protected_len env) \<or>
         unat (e_protected_len env) > max_frame \<or> e_index env \<ge> e_k env
      then Inr (False, d, s)
      else let d = slot d (e_gen_id env) (e_k env) now_ns;
               g = gen_at d (e_gen_id env)
      in if e_k env < g_k g \<or> (\<not> g_parity_received g \<and> e_k env \<noteq> g_k g) then Inr (False, d, s)
      else let g = ensure g (e_k env)
      in if e_index env \<ge> g_k g then Inr (False, put_gen d (e_gen_id env) g, s)
      else let g = touch now_ns g
      in bind_exn (publish s payload False (g_close_reason g)) (\<lambda>(ok, s).
           if \<not> ok then Inr (False, put_gen d (e_gen_id env) g, s)
           else let g = g\<lparr>g_data := (g_data g)[unat (e_index env) :=
                             protected_frame payload (e_protected_len env) (e_protected_len env)],
                          g_received := (g_received g)[unat (e_index env) := True]\<rparr>
                in try_recover publish (put_gen d (e_gen_id env) g) (e_gen_id env) now_ns s))"

definition receive_parity :: "'s publish \<Rightarrow> decoder \<Rightarrow> envelope \<Rightarrow> bytes \<Rightarrow> u64 \<Rightarrow> 's \<Rightarrow>
    exn + bool \<times> decoder \<times> 's" where
  "receive_parity publish d env payload now_ns s =
     (if unat (e_parity_count env) > 16 \<or> e_index env < e_k env \<or>
         unat (e_index env) \<ge> unat (e_k env) + unat (e_parity_count env) \<or>
         unat (e_protected_len env) \<noteq> length payload \<or> length payload < 2 \<or>
         length payload > max_frame + 2
      then Inr (False, d, s)
      else let d = d\<lparr>d_counters := (d_counters d)\<lparr>fc_parity_received := fc_parity_received (d_counters d) + 1\<rparr>\<rparr>;
               d = slot d (e_gen_id env) (e_k env) now_ns;
               g = gen_at d (e_gen_id env)
      in if g_parity_received g \<and> (g_k g \<noteq> e_k env \<or> g_parity_count g \<noteq> e_parity_count env \<or>
             g_close_reason g \<noteq> e_close_reason env) then Inr (False, d, s)
      else if e_k env > g_k g then Inr (False, d, s)
      else if list_ex (\<lambda>r. r) (drop (unat (e_k env)) (g_received g)) then Inr (False, d, s)
      else let g = touch now_ns (ensure g (e_k env));
               g = g\<lparr>g_close_reason := e_close_reason env, g_parity_count := e_parity_count env\<rparr>;
               row = unat (e_index env) - unat (e_k env);
               g = (if g_parities g = [] then g\<lparr>g_parities := replicate 16 []\<rparr> else g)
      in if list_ex (\<lambda>p. p \<noteq> [] \<and> length p \<noteq> length payload) (g_parities g)
         then Inr (False, put_gen d (e_gen_id env) g, s)
         else let g = g\<lparr>g_parities := (g_parities g)[row := payload], g_parity_received := True\<rparr>
              in try_recover publish (put_gen d (e_gen_id env) g) (e_gen_id env) now_ns s)"

text \<open>\<open>call_publish\<close> with the state of the caller and an unchanged decoder.\<close>

definition pass_through :: "'s publish \<Rightarrow> decoder \<Rightarrow> bytes \<Rightarrow> 's \<Rightarrow> exn + bool \<times> decoder \<times> 's" where
  "pass_through publish d data s = bind_exn (publish s data False 0) (\<lambda>(ok, s). Inr (ok, d, s))"

definition receive :: "'s publish \<Rightarrow> decoder \<Rightarrow> bytes \<Rightarrow> u64 \<Rightarrow> 's \<Rightarrow> exn + bool \<times> decoder \<times> 's" where
  "receive publish d data now_ns s =
     (if length data < kEnvelopeSize then pass_through publish d data s
      else bind_exn (read_envelope data) (\<lambda>env.
        if e_magic env \<noteq> fec_magic then pass_through publish d data s
        else if e_k env = 0 \<or> unat (e_k env) > kMaxGeneration \<or> e_close_reason env > 2 then Inr (False, d, s)
        else let payload = drop kEnvelopeSize data
             in if e_parity_count env = 0 then receive_data publish d env payload now_ns s
                else receive_parity publish d env payload now_ns s))"

fun finalize_all :: "(generation \<Rightarrow> bool) \<Rightarrow> (generation \<Rightarrow> generation) \<Rightarrow> fec_counters \<Rightarrow> generation list \<Rightarrow>
    fec_counters \<times> generation list" where
  "finalize_all sel after c [] = (c, [])"
| "finalize_all sel after c (g # gs) =
     (let (c, g) = (if sel g then let (c, g) = finalize c g in (c, after g) else (c, g));
          (c, gs) = finalize_all sel after c gs
      in (c, g # gs))"

definition expire :: "decoder \<Rightarrow> u64 \<Rightarrow> u64 \<Rightarrow> decoder" where
  "expire d now_ns ttl_ns =
     (let (c, gs) = finalize_all (\<lambda>g. g_active g \<and> now_ns - g_first_ns g \<ge> ttl_ns) (\<lambda>_. generation_init)
                      (d_counters d) (d_slots d)
      in d\<lparr>d_counters := c, d_slots := gs\<rparr>)"

definition retire_all :: "decoder \<Rightarrow> decoder" where
  "retire_all d =
     (let (c, gs) = finalize_all (\<lambda>_. True) (\<lambda>g. g) (d_counters d) (d_slots d)
      in d\<lparr>d_counters := c, d_slots := gs\<rparr>)"

definition samples_for :: "decoder \<Rightarrow> u8 \<Rightarrow> u64 list" where
  "samples_for d reason = (if reason = 0 then d_recovery_by_k d
     else if reason = 1 then d_recovery_by_timeout d else d_recovery_by_flush d)"

end
