(* ===== verification/Fec_Solve.thy ===== *)
theory Fec_Solve
  imports Fec_Decoder
begin

text \<open>
  The solver inside \<open>Decoder::try_recover\<close>: every square block of Cauchy coefficients is
  regular, so Gauss-Jordan elimination finds a pivot in every column and leaves the unique
  solution in the right-hand side.
\<close>

section \<open>The erasure code\<close>

text \<open>
  The interface between the coefficients and recovery: any \<open>n\<close> parity rows are
  independent on any \<open>n\<close> data columns.
\<close>

locale erasure_code =
  fixes coef :: "nat \<Rightarrow> nat \<Rightarrow> 'a::field" and nrows ncols :: nat
  assumes sub_regular: "distinct rs \<Longrightarrow> distinct cs \<Longrightarrow> length rs = length cs \<Longrightarrow>
      set rs \<subseteq> {..<nrows} \<Longrightarrow> set cs \<subseteq> {..<ncols} \<Longrightarrow>
      regular (length cs) (\<lambda>i j. coef (rs ! i) (cs ! j))"
begin

text \<open>Two data words that agree on all but the columns \<open>cs\<close> and on as many parities are equal.\<close>

lemma erasures_determined:
  assumes "distinct rs" "distinct cs" "length rs = length cs" "set rs \<subseteq> {..<nrows}" "set cs \<subseteq> {..<ncols}"
    and "set cs \<subseteq> {..<k}" and same: "\<And>c. c < k \<Longrightarrow> c \<notin> set cs \<Longrightarrow> x c = y c"
    and par: "\<And>r. r \<in> set rs \<Longrightarrow> (\<Sum>c<k. coef r c * x c) = (\<Sum>c<k. coef r c * y c)"
    and "c < k"
  shows "x c = y c"
proof -
  define v where "v j = x (cs ! j) - y (cs ! j)" for j
  have "(\<Sum>j<length cs. coef (rs ! i) (cs ! j) * v j) = 0" if "i < length cs" for i
  proof -
    have "(\<Sum>j<length cs. coef (rs ! i) (cs ! j) * v j) = (\<Sum>c\<in>set cs. coef (rs ! i) c * (x c - y c))"
      using sum.reindex_bij_betw [OF bij_betw_nth [OF assms(2) refl refl], of "\<lambda>c. coef (rs ! i) c * (x c - y c)"]
      by (simp add: v_def)
    also have "\<dots> = (\<Sum>c<k. coef (rs ! i) c * (x c - y c))"
      using assms(6) same by (intro sum.mono_neutral_left) auto
    also have "\<dots> = 0"
      using par [of "rs ! i"] that assms(3) by (simp add: right_diff_distrib sum_subtractf)
    finally show ?thesis .
  qed
  with sub_regular [OF assms(1-5)] have "v j = 0" if "j < length cs" for j
    using that unfolding regular_def by blast
  then have "x c = y c" if "c \<in> set cs" for c
    using that by (auto simp: v_def in_set_conv_nth)
  with same \<open>c < k\<close> show ?thesis by blast
qed

end

interpretation cauchy: erasure_code gcoef 128 128
proof
  fix rs cs :: "nat list"
  assume d: "distinct rs" "distinct cs" and len: "length rs = length cs"
    and b: "set rs \<subseteq> {..<128}" "set cs \<subseteq> {..<128}"
  have rb: "rs ! i < 128" "cs ! i < 128" if "i < length cs" for i
    using subsetD [OF b(1) nth_mem, of i] subsetD [OF b(2) nth_mem, of i] len that by auto
  have "regular (length cs) (\<lambda>i j. (col_point (cs ! j) + row_point 0) / (row_point (rs ! i) + col_point (cs ! j)))"
  proof (rule cauchy_regular)
    show "inj_on (\<lambda>i. row_point (rs ! i)) {..<length cs}"
      by (rule inj_onI) (metis d(1) len lessThan_iff nth_eq_iff_index_eq rb(1) row_point_inj)
    show "inj_on (\<lambda>j. col_point (cs ! j)) {..<length cs}"
      by (rule inj_onI) (metis d(2) lessThan_iff nth_eq_iff_index_eq rb(2) col_point_inj)
    show "row_point (rs ! i) + col_point (cs ! j) \<noteq> 0" if "i < length cs" "j < length cs" for i j
      using row_col_point rb that by blast
    show "col_point (cs ! j) + row_point 0 \<noteq> 0" if "j < length cs" for j
      using row_col_point [of 0 "cs ! j"] rb that by (simp add: add.commute)
  qed
  then show "regular (length cs) (\<lambda>i j. gcoef (rs ! i) (cs ! j))" by (simp add: gcoef_def)
qed

section \<open>Byte matrices in the field\<close>

definition gm :: "bytes list \<Rightarrow> nat \<Rightarrow> nat \<Rightarrow> gf" where
  "gm m r j = gf_of (m ! r ! j)"

definition rect :: "nat \<Rightarrow> nat \<Rightarrow> bytes list \<Rightarrow> bool" where
  "rect n w m \<longleftrightarrow> length m = n \<and> (\<forall>r<n. length (m ! r) = w)"

lemma regular_cong: "(\<And>r c. r < n \<Longrightarrow> c < n \<Longrightarrow> m r c = m' r c) \<Longrightarrow> regular n m = regular n m'"
  by (simp add: regular_def)

lemma unit_cols_cong:
  "k \<le> n \<Longrightarrow> (\<And>r c. r < n \<Longrightarrow> c < n \<Longrightarrow> m r c = m' r c) \<Longrightarrow> unit_cols n k m = unit_cols n k m'"
  by (simp add: unit_cols_def)

lemma solves_cong:
  "(\<And>r c. r < n \<Longrightarrow> c < n \<Longrightarrow> m r c = m' r c) \<Longrightarrow> (\<And>r j. r < n \<Longrightarrow> j < w \<Longrightarrow> b r j = b' r j) \<Longrightarrow>
   solves n w m x b = solves n w m' x b'"
  by (simp add: solves_def)

lemma rect_swap [simp]: "p < n \<Longrightarrow> c < n \<Longrightarrow> rect n w m \<Longrightarrow> rect n w (swap_rows m p c)"
  by (auto simp: rect_def swap_rows_def nth_list_update)

lemma rect_eliminate: "c < n \<Longrightarrow> rect n w m \<Longrightarrow> rect n w (eliminate c s f m)"
  by (simp add: rect_def eliminate_def Let_def)

definition swapped :: "nat \<Rightarrow> nat \<Rightarrow> nat \<Rightarrow> nat" where
  "swapped p c r = (if r = c then p else if r = p then c else r)"

lemma swapped_less: "p < n \<Longrightarrow> c < n \<Longrightarrow> r < n \<Longrightarrow> swapped p c r < n"
  by (simp add: swapped_def)

lemma swap_rows_nth:
  "p < length m \<Longrightarrow> c < length m \<Longrightarrow> r < length m \<Longrightarrow> swap_rows m p c ! r = m ! swapped p c r"
  by (simp add: swap_rows_def swapped_def nth_list_update)

lemma row_ops_swapped: "row_ops p c s f a r j =
    (if r = c then a (swapped p c c) j * s
     else a (swapped p c r) j - f r * (a (swapped p c c) j * s))"
  by (simp add: row_ops_def swapped_def Let_def)

lemma eliminate_row_ops:
  assumes "rect n w m" and "p < n" and "c < n" and "r < n" and "j < w"
  shows "gm (eliminate c s f (swap_rows m p c)) r j = row_ops p c (gf_of s) (\<lambda>r. gf_of (f r)) (gm m) r j"
proof -
  have len: "length (swap_rows m p c) = n" "length (m ! swapped p c r) = w" "length (m ! swapped p c c) = w"
    using assms swapped_less by (auto simp: rect_def swap_rows_def)
  have nth: "swap_rows m p c ! r = m ! swapped p c r" "swap_rows m p c ! c = m ! swapped p c c"
    using assms by (simp_all add: rect_def swap_rows_nth)
  show ?thesis
    unfolding row_ops_swapped gm_def eliminate_def Let_def
    using assms(4,5) len nth by (simp add: gf_minus)
qed

section \<open>Gauss-Jordan elimination\<close>

lemma find_pivot_least:
  assumes "pivot \<le> p" and "p < length m" and "m ! p ! c \<noteq> 0"
  shows "pivot \<le> find_pivot m c pivot \<and> find_pivot m c pivot < length m \<and> m ! find_pivot m c pivot ! c \<noteq> 0"
  using assms
proof (induction m c pivot rule: find_pivot.induct)
  case (1 m c pivot)
  show ?case
  proof (cases "m ! pivot ! c = 0")
    case True
    with 1 have "Suc pivot \<le> p" "pivot < length m" by (auto simp: le_less)
    with 1 True show ?thesis by (subst (1 2 3) find_pivot.simps) auto
  next
    case False
    then show ?thesis using 1 by (subst (1 2 3) find_pivot.simps) auto
  qed
qed

lemma gauss_step_ok:
  assumes m: "rect n n m" and b: "rect n w rhs" and c: "c < n"
    and reg: "regular n (gm m)" and unit: "unit_cols n c (gm m)" and sol: "solves n v (gm m) x (gm rhs)" and v: "v \<le> w"
  obtains m' rhs' where "gauss_step c m rhs = Inr (Some (m', rhs'))" and "rect n n m'" and "rect n w rhs'"
    and "regular n (gm m')" and "unit_cols n (Suc c) (gm m')" and "solves n v (gm m') x (gm rhs')"
proof -
  from regular_pivot [OF reg unit c] obtain q where "c \<le> q" "q < length m" "m ! q ! c \<noteq> 0"
    using m by (auto simp: gm_def rect_def)
  note find_pivot_least [OF this]
  moreover define p where "p = find_pivot m c c"
  ultimately have p: "c \<le> p" "p < n" "m ! p ! c \<noteq> 0" using m by (auto simp: rect_def)
  define sw where "sw = swap_rows m p c"
  have piv: "sw ! c ! c = m ! p ! c" using m p c by (simp add: sw_def swap_rows_nth rect_def swapped_def)
  from gf_inverse_field [OF p(3)] obtain s where
    s: "gf_inverse (sw ! c ! c) = Inr s" "gf_of s = inverse (gm m p c)" by (auto simp: piv gm_def)
  define f where "f r = sw ! r ! c" for r
  have f: "gf_of (f r) = ((gm m)(p := gm m c, c := gm m p)) r c" if "r < n" for r
    using that m p c by (simp add: f_def sw_def swap_rows_nth rect_def swapped_def gm_def)
  define R :: "(nat \<Rightarrow> nat \<Rightarrow> gf) \<Rightarrow> nat \<Rightarrow> nat \<Rightarrow> gf"
    where "R = row_ops p c (gf_of s) (\<lambda>r. gf_of (f r))"
  have m': "gm (eliminate c s f sw) r j = R (gm m) r j" if "r < n" "j < n" for r j
    unfolding R_def sw_def by (rule eliminate_row_ops [OF m p(2) c that])
  have b': "gm (eliminate c s f (swap_rows rhs p c)) r j = R (gm rhs) r j" if "r < n" "j < v" for r j
    unfolding R_def by (rule eliminate_row_ops [OF b p(2) c that(1) order_less_le_trans [OF that(2) v]])
  have R: "R (gm m) r j = row_ops p c (inverse (gm m p c)) (\<lambda>r. ((gm m)(p := gm m c, c := gm m p)) r c) (gm m) r j"
    if "r < n" for r j
    using f [OF that] by (simp add: R_def s(2) row_ops_def Let_def)
  have "gf_of s \<noteq> 0" using p(3) s(2) by (simp add: gm_def)
  show thesis
  proof (rule that)
    show "gauss_step c m rhs = Inr (Some (eliminate c s f sw, eliminate c s f (swap_rows rhs p c)))"
      using p m s(1) by (simp add: gauss_step_def Let_def p_def [symmetric] sw_def [symmetric] rect_def
          f_def [symmetric, abs_def])
    show "rect n n (eliminate c s f sw)" "rect n w (eliminate c s f (swap_rows rhs p c))"
      using m b c p by (simp_all add: sw_def rect_eliminate)
    show "regular n (gm (eliminate c s f sw))"
      using regular_cong [of n, OF m'] regular_row_ops [OF reg p(2) c \<open>gf_of s \<noteq> 0\<close>] by (simp add: R_def)
    have "unit_cols n (Suc c) (R (gm m)) = unit_cols n (Suc c)
        (row_ops p c (inverse (gm m p c)) (\<lambda>r. ((gm m)(p := gm m c, c := gm m p)) r c) (gm m))"
      using c by (intro unit_cols_cong R) auto
    moreover have "unit_cols n (Suc c) (gm (eliminate c s f sw)) = unit_cols n (Suc c) (R (gm m))"
      using c by (intro unit_cols_cong m') auto
    ultimately show "unit_cols n (Suc c) (gm (eliminate c s f sw))"
      using unit_cols_row_ops [OF unit p(1,2)] p(3) by (simp add: gm_def)
    show "solves n v (gm (eliminate c s f sw)) x (gm (eliminate c s f (swap_rows rhs p c)))"
      using solves_cong [of n, OF m' b'] solves_row_ops [OF sol p(2) c] by (simp add: R_def)
  qed
qed

lemma gauss_from:
  assumes "c \<le> n" "rect n n m" "rect n w rhs" "regular n (gm m)" "unit_cols n c (gm m)"
    "solves n v (gm m) x (gm rhs)" "v \<le> w"
  shows "\<exists>res. gauss [c..<n] m rhs = Inr (Some res) \<and> rect n w res \<and> (\<forall>r<n. \<forall>j<v. gm res r j = x r j)"
  using assms
proof (induction "n - c" arbitrary: c m rhs)
  case 0
  then show ?case using solves_identity [of n "gm m" v x "gm rhs"] by auto
next
  case (Suc k)
  then have c: "c < n" "k = n - Suc c" "Suc c \<le> n" by auto
  from gauss_step_ok [OF Suc.prems(2,3) c(1) Suc.prems(4-7)] obtain m' rhs' where
    st: "gauss_step c m rhs = Inr (Some (m', rhs'))" and
    inv: "rect n n m'" "rect n w rhs'" "regular n (gm m')" "unit_cols n (Suc c) (gm m')"
      "solves n v (gm m') x (gm rhs')" by blast
  from Suc.hyps(1) [OF c(2,3) inv Suc.prems(7)] st show ?case by (simp add: upt_conv_Cons [OF c(1)])
qed

lemma gauss_ok:
  assumes "rect n n m" "rect n w rhs" "regular n (gm m)" "solves n w (gm m) x (gm rhs)"
  obtains res where "gauss [0..<n] m rhs = Inr (Some res)" and "rect n w res"
    and "\<And>r j. r < n \<Longrightarrow> j < w \<Longrightarrow> gm res r j = x r j"
  using gauss_from [of 0 n m w rhs w x] assms by (auto simp: unit_cols_def)

text \<open>On a regular matrix elimination always ends with a right-hand side of the same shape.\<close>

lemma gauss_total:
  assumes "rect n n m" "rect n w rhs" "regular n (gm m)"
  shows "\<exists>res. gauss [0..<n] m rhs = Inr (Some res) \<and> rect n w res"
  using gauss_from [of 0 n m w rhs 0 "\<lambda>_ _. 0"] assms by (auto simp: unit_cols_def solves_def)

end
