(* ===== verification/Fec_Recovery.thy ===== *)
theory Fec_Recovery
  imports Fec_Solve
begin

text \<open>
  One datagram of a generation at the decoder: the linear system of the missing frames, the
  relation \<open>tracks\<close> between a slot and the generation that was sent, and what receiving
  one data or one parity datagram does to it.
\<close>

section \<open>Blocks the decoder holds\<close>

text \<open>A stored block is the protected block of frame \<open>i\<close>, up to the zero padding at its end.\<close>

definition data_ok :: "bytes list \<Rightarrow> u16 \<Rightarrow> nat \<Rightarrow> bytes \<Rightarrow> bool" where
  "data_ok fs ml i d \<longleftrightarrow> length d \<le> unat ml + 2 \<and>
     d @ replicate (unat ml + 2 - length d) 0 = block_of ml (fs ! i)"

abbreviation blocks :: "u16 \<Rightarrow> bytes list \<Rightarrow> bytes list" where
  "blocks ml fs \<equiv> map (block_of ml) fs"

lemma frames_okD:
  assumes "frames_ok ml fs" and "i < length fs"
  shows "fs ! i \<noteq> []" and "length (fs ! i) \<le> unat ml" and "unat ml \<le> max_frame" and "i < 128"
  using assms by (auto simp: frames_ok_def kMaxGeneration_def)

lemma data_ok_block: "frames_ok ml fs \<Longrightarrow> i < length fs \<Longrightarrow> data_ok fs ml i (block_of ml (fs ! i))"
  using frames_okD [of ml fs i] block_of_unpack(1) [of "fs ! i" ml] by (simp add: data_ok_def)

lemma data_ok_received:
  assumes "frames_ok ml fs" and "i < length fs"
  shows "data_ok fs ml i (protected_frame (fs ! i) (of_nat (length (fs ! i))) (of_nat (length (fs ! i))))"
proof -
  note f = frames_okD [OF assms]
  have u: "unat (of_nat (length (fs ! i)) :: u16) = length (fs ! i)" by (rule unat_length_u16 [OF f(2)])
  then have "block_of ml (fs ! i) = fec_put_u16 [0, 0] (of_nat (length (fs ! i))) @ fs ! i @
      replicate (unat ml - length (fs ! i)) 0"
    using f(2) protected_frame_eq [of "fs ! i" "of_nat (length (fs ! i))" ml] by (simp add: block_of_def)
  moreover have "protected_frame (fs ! i) (of_nat (length (fs ! i))) (of_nat (length (fs ! i))) =
      fec_put_u16 [0, 0] (of_nat (length (fs ! i))) @ fs ! i"
    using u protected_frame_eq [of "fs ! i" "of_nat (length (fs ! i))" "of_nat (length (fs ! i))"] by simp
  ultimately show ?thesis using f(2) by (simp add: data_ok_def)
qed

lemma data_ok_nth:
  assumes "data_ok fs ml i d" and "j < unat ml + 2"
  shows "gf_of (block_of ml (fs ! i) ! j) = (if j < length d then gf_of (d ! j) else 0)"
proof -
  have "block_of ml (fs ! i) ! j = (d @ replicate (unat ml + 2 - length d) 0) ! j"
    using assms(1) by (simp add: data_ok_def)
  then show ?thesis using assms(2) by (simp add: nth_append)
qed

section \<open>The linear system of the missing frames\<close>

lemma length_xor_into [simp]: "length b \<le> length a \<Longrightarrow> length (xor_into a b) = length a"
  by (simp add: xor_into_def)

lemma nth_xor_into:
  "length b \<le> length a \<Longrightarrow> j < length a \<Longrightarrow>
   gf_of (xor_into a b ! j) = gf_of (a ! j) + (if j < length b then gf_of (b ! j) else 0)"
  by (simp add: xor_into_def nth_append)

lemma reduce_known_ok:
  assumes "frames_ok ml fs" and "row < 128"
    and "\<And>c. c \<in> set cs \<Longrightarrow> c < length fs \<and> (g_received g ! c \<longrightarrow> data_ok fs ml c (g_data g ! c))"
    and "length rhs = unat ml + 2"
  shows "\<exists>b. reduce_known g (unat ml + 2) row cs rhs = Inr (Some b) \<and> length b = unat ml + 2 \<and>
    (\<forall>j<unat ml + 2. gf_of (b ! j) = gf_of (rhs ! j) +
       (\<Sum>c\<leftarrow>filter (\<lambda>c. g_received g ! c) cs. gcoef row c * gf_of (block_of ml (fs ! c) ! j)))"
  using assms(3,4)
proof (induction cs arbitrary: rhs)
  case (Cons c cs)
  show ?case
  proof (cases "g_received g ! c")
    case True
    with Cons.prems have c: "c < length fs" "data_ok fs ml c (g_data g ! c)" by auto
    then have dl: "length (g_data g ! c) \<le> unat ml + 2" by (simp add: data_ok_def)
    from c(1) assms(1) have "c < 128" by (rule frames_okD(4) [rotated])
    from coefficient_field [OF assms(2) this] obtain f where
      f: "coefficient (of_nat row) (of_nat c) = Inr f" "gf_of f = gcoef row c" by blast
    let ?rhs = "xor_into rhs (map (mul f) (g_data g ! c))"
    from Cons.IH [of ?rhs] Cons.prems dl obtain b where
      b: "reduce_known g (unat ml + 2) row cs ?rhs = Inr (Some b)" "length b = unat ml + 2"
        "\<forall>j<unat ml + 2. gf_of (b ! j) = gf_of (?rhs ! j) +
           (\<Sum>c\<leftarrow>filter (\<lambda>c. g_received g ! c) cs. gcoef row c * gf_of (block_of ml (fs ! c) ! j))"
      by auto
    have "gf_of (?rhs ! j) = gf_of (rhs ! j) + gcoef row c * gf_of (block_of ml (fs ! c) ! j)"
      if "j < unat ml + 2" for j
      using that dl Cons.prems(2) f(2) data_ok_nth [OF c(2) that] by (simp add: nth_xor_into)
    with b True f dl show ?thesis by (simp add: add.assoc)
  qed (use Cons in simp)
qed simp

lemma absent_set: "set (filter (\<lambda>i. \<not> P i) [0..<n]) = {i. i < n \<and> \<not> P i}"
  by auto

lemma sum_known_absent:
  fixes F :: "nat \<Rightarrow> gf"
  shows "(\<Sum>c<n. F c) + (\<Sum>c\<leftarrow>filter P [0..<n]. F c) = (\<Sum>c\<leftarrow>filter (\<lambda>i. \<not> P i) [0..<n]. F c)"
proof -
  have "(\<Sum>c<n. F c) = (\<Sum>c\<in>{c. c < n \<and> P c}. F c) + (\<Sum>c\<in>{c. c < n \<and> \<not> P c}. F c)"
    by (subst sum.union_disjoint [symmetric]) (auto intro: sum.cong)
  moreover have "(\<Sum>c\<leftarrow>filter Q [0..<n]. F c) = (\<Sum>c\<in>{c. c < n \<and> Q c}. F c)" for Q
    by (simp add: sum_list_distinct_conv_sum_set)
  ultimately show ?thesis by (simp add: add.commute add.assoc [symmetric])
qed

text \<open>The generation in a slot, with as many parities known as frames are missing.\<close>

definition holds :: "bytes list \<Rightarrow> u16 \<Rightarrow> generation \<Rightarrow> bool" where
  "holds fs ml g \<longleftrightarrow> unat (g_k g) = length fs \<and> length fs \<le> length (g_received g) \<and>
     (\<forall>i<length fs. g_received g ! i \<longrightarrow> data_ok fs ml i (g_data g ! i))"

definition absent_of :: "bytes list \<Rightarrow> generation \<Rightarrow> nat list" where
  "absent_of fs g = filter (\<lambda>i. \<not> g_received g ! i) [0..<length fs]"

lemma absent_of_less: "i \<in> set (absent_of fs g) \<Longrightarrow> i < length fs"
  by (simp add: absent_of_def)

lemma coefficients_ok:
  assumes "row < 128" and "\<And>c. c \<in> set cs \<Longrightarrow> c < 128"
  shows "\<exists>coefs. mapM_exn (\<lambda>c. coefficient (of_nat row) (of_nat c)) cs = Inr coefs \<and>
    length coefs = length cs \<and> (\<forall>j<length cs. gf_of (coefs ! j) = gcoef row (cs ! j))"
  using assms(2)
proof (induction cs)
  case (Cons c cs)
  then obtain coefs where "mapM_exn (\<lambda>c. coefficient (of_nat row) (of_nat c)) cs = Inr coefs"
      "length coefs = length cs" "\<forall>j<length cs. gf_of (coefs ! j) = gcoef row (cs ! j)" by auto
  moreover obtain f where "coefficient (of_nat row) (of_nat c) = Inr f" "gf_of f = gcoef row c"
    using coefficient_field [OF assms(1), of c] Cons.prems by auto
  ultimately show ?case by (auto simp: nth_Cons')
qed simp

lemma reduced_row:
  assumes "frames_ok ml fs" and "holds fs ml g" and "row < 128"
    and "is_shard (blocks ml fs) (unat ml + 2) row (g_parities g ! row)"
  obtains b where "reduce_known g (unat ml + 2) row [0..<unat (g_k g)] (g_parities g ! row) = Inr (Some b)"
    and "length b = unat ml + 2"
    and "\<And>j. j < unat ml + 2 \<Longrightarrow>
      gf_of (b ! j) = (\<Sum>c\<leftarrow>absent_of fs g. gcoef row c * gf_of (block_of ml (fs ! c) ! j))"
proof -
  have k: "unat (g_k g) = length fs" and len: "length (g_parities g ! row) = unat ml + 2"
    using assms(2,4) by (simp_all add: holds_def is_shard_def)
  have known: "\<And>c. c \<in> set [0..<length fs] \<Longrightarrow>
      c < length fs \<and> (g_received g ! c \<longrightarrow> data_ok fs ml c (g_data g ! c))"
    using assms(2) by (simp add: holds_def)
  from reduce_known_ok [OF assms(1,3) known len] obtain b where
    b: "reduce_known g (unat ml + 2) row [0..<length fs] (g_parities g ! row) = Inr (Some b)"
      "length b = unat ml + 2"
      "\<forall>j<unat ml + 2. gf_of (b ! j) = gf_of (g_parities g ! row ! j) +
         (\<Sum>c\<leftarrow>filter (\<lambda>c. g_received g ! c) [0..<length fs]. gcoef row c * gf_of (block_of ml (fs ! c) ! j))"
    by blast
  have "gf_of (g_parities g ! row ! j) = (\<Sum>c<length fs. gcoef row c * gf_of (block_of ml (fs ! c) ! j))"
    if "j < unat ml + 2" for j
    using assms(4) that by (simp add: is_shard_def codeword_def)
  then show thesis
    using b sum_known_absent [where n = "length fs" and P = "\<lambda>c. g_received g ! c"]
    by (intro that [of b]) (simp_all add: k absent_of_def)
qed

lemma build_system_ok:
  assumes "frames_ok ml fs" and "holds fs ml g"
    and "\<forall>r\<in>set rows. r < 128 \<and> is_shard (blocks ml fs) (unat ml + 2) r (g_parities g ! r)"
  shows "\<exists>m b. build_system g (unat ml + 2) (absent_of fs g) rows = Inr (Some (m, b)) \<and>
    rect (length rows) (length (absent_of fs g)) m \<and> rect (length rows) (unat ml + 2) b \<and>
    (\<forall>i<length rows. \<forall>j<length (absent_of fs g). gm m i j = gcoef (rows ! i) (absent_of fs g ! j)) \<and>
    (\<forall>i<length rows. \<forall>j<unat ml + 2. gm b i j =
       (\<Sum>c\<leftarrow>absent_of fs g. gcoef (rows ! i) c * gf_of (block_of ml (fs ! c) ! j)))"
  using assms(3)
proof (induction rows)
  case Nil
  show ?case by (simp add: rect_def)
next
  case (Cons row rows)
  then obtain m b where mb: "build_system g (unat ml + 2) (absent_of fs g) rows = Inr (Some (m, b))"
      "rect (length rows) (length (absent_of fs g)) m" "rect (length rows) (unat ml + 2) b"
      "\<forall>i<length rows. \<forall>j<length (absent_of fs g). gm m i j = gcoef (rows ! i) (absent_of fs g ! j)"
      "\<forall>i<length rows. \<forall>j<unat ml + 2. gm b i j =
         (\<Sum>c\<leftarrow>absent_of fs g. gcoef (rows ! i) c * gf_of (block_of ml (fs ! c) ! j))"
    by auto
  from Cons.prems have row: "row < 128" "is_shard (blocks ml fs) (unat ml + 2) row (g_parities g ! row)" by auto
  have "c < 128" if "c \<in> set (absent_of fs g)" for c
    using frames_okD(4) [OF assms(1)] absent_of_less [OF that] by blast
  from coefficients_ok [OF row(1) this] obtain coefs where
    c: "mapM_exn (\<lambda>c. coefficient (of_nat row) (of_nat c)) (absent_of fs g) = Inr coefs"
      "length coefs = length (absent_of fs g)"
      "\<forall>j<length (absent_of fs g). gf_of (coefs ! j) = gcoef row (absent_of fs g ! j)" by auto
  obtain b0 where b0: "reduce_known g (unat ml + 2) row [0..<unat (g_k g)] (g_parities g ! row) = Inr (Some b0)"
      "length b0 = unat ml + 2"
      "\<And>j. j < unat ml + 2 \<Longrightarrow> gf_of (b0 ! j) = (\<Sum>c\<leftarrow>absent_of fs g. gcoef row c * gf_of (block_of ml (fs ! c) ! j))"
    using reduced_row [OF assms(1,2) row] by blast
  have "build_system g (unat ml + 2) (absent_of fs g) (row # rows) = Inr (Some (coefs # m, b0 # b))"
    using c(1) b0(1) mb(1) by simp
  moreover have "rect (length (row # rows)) (length (absent_of fs g)) (coefs # m)"
      "rect (length (row # rows)) (unat ml + 2) (b0 # b)"
    using c(2) b0(2) mb(2,3) by (auto simp: rect_def nth_Cons')
  moreover have "gm (coefs # m) i j = gcoef ((row # rows) ! i) (absent_of fs g ! j)"
    if "i < length (row # rows)" "j < length (absent_of fs g)" for i j
    using that c(3) mb(4) by (cases i) (auto simp: gm_def)
  moreover have "gm (b0 # b) i j = (\<Sum>c\<leftarrow>absent_of fs g. gcoef ((row # rows) ! i) c * gf_of (block_of ml (fs ! c) ! j))"
    if "i < length (row # rows)" "j < unat ml + 2" for i j
    using that b0(3) mb(5) by (cases i) (auto simp: gm_def)
  ultimately show ?case by blast
qed

text \<open>Solving the system gives back the missing blocks.\<close>

lemma recover_blocks:
  assumes "frames_ok ml fs" and "holds fs ml g" and "distinct rows" and "length rows = length (absent_of fs g)"
    and "\<forall>r\<in>set rows. r < 128 \<and> is_shard (blocks ml fs) (unat ml + 2) r (g_parities g ! r)"
  obtains m b where "build_system g (unat ml + 2) (absent_of fs g) rows = Inr (Some (m, b))"
    and "gauss [0..<length (absent_of fs g)] m b = Inr (Some (map (\<lambda>i. block_of ml (fs ! i)) (absent_of fs g)))"
proof -
  let ?ab = "absent_of fs g" and ?w = "unat ml + 2"
  let ?n = "length ?ab"
  define x where "x i j = gf_of (block_of ml (fs ! (?ab ! i)) ! j)" for i j
  from build_system_ok [OF assms(1,2,5), unfolded assms(4)] obtain m b where
    mb: "build_system g ?w ?ab rows = Inr (Some (m, b))" and r: "rect ?n ?n m" "rect ?n ?w b" and
    m: "\<forall>i<?n. \<forall>j<?n. gm m i j = gcoef (rows ! i) (?ab ! j)" and
    b: "\<forall>i<?n. \<forall>j<?w. gm b i j = (\<Sum>c\<leftarrow>?ab. gcoef (rows ! i) c * gf_of (block_of ml (fs ! c) ! j))"
    by (elim exE conjE) (rule that; assumption)
  have "distinct ?ab" by (simp add: absent_of_def)
  moreover have "set ?ab \<subseteq> {..<128}"
    using frames_okD(4) [OF assms(1)] absent_of_less by blast
  moreover have "set rows \<subseteq> {..<128}" using assms(5) by blast
  ultimately have "regular ?n (\<lambda>i j. gcoef (rows ! i) (?ab ! j))"
    using cauchy.sub_regular assms(3,4) by blast
  moreover have "regular ?n (gm m) = regular ?n (\<lambda>i j. gcoef (rows ! i) (?ab ! j))"
    using m by (intro regular_cong) blast
  ultimately have "regular ?n (gm m)" by blast
  moreover have "solves ?n ?w (gm m) x (gm b)"
    unfolding solves_def
  proof (intro allI impI)
    fix i j assume "i < ?n" "j < ?w"
    then show "(\<Sum>c<?n. gm m i c * x c j) = gm b i j"
      using m b by (simp add: x_def sum_list_sum_nth atLeast0LessThan)
  qed
  ultimately obtain res where res: "gauss [0..<?n] m b = Inr (Some res)" "rect ?n ?w res"
      "\<And>r j. r < ?n \<Longrightarrow> j < ?w \<Longrightarrow> gm res r j = x r j"
    using gauss_ok [OF r] by blast
  have "res = map (\<lambda>i. block_of ml (fs ! i)) ?ab"
  proof (rule nth_equalityI)
    fix i assume "i < length res"
    with res(2) have i: "i < ?n" "length (res ! i) = ?w" by (auto simp: rect_def)
    then have "?ab ! i < length fs" using absent_of_less nth_mem by blast
    with assms(1) have "length (block_of ml (fs ! (?ab ! i))) = ?w"
      using frames_okD(2) block_of_unpack(1) by blast
    with i res(3) show "res ! i = map (\<lambda>i. block_of ml (fs ! i)) ?ab ! i"
      by (intro nth_equalityI) (auto simp: gm_def x_def)
  qed (use res(2) in \<open>simp add: rect_def\<close>)
  with res(1) mb show thesis using that by blast
qed

section \<open>Publishing the recovered frames\<close>

text \<open>
  What the decoder needs of its callback: in a good state it accepts the frames it is given
  and appends them to what it has delivered.
\<close>

locale publisher =
  fixes publish :: "'s publish" and obs :: "'s \<Rightarrow> bytes list" and good :: "'s \<Rightarrow> bool" and live :: "bytes \<Rightarrow> bool"
  assumes accepts: "good s \<Longrightarrow> live f \<Longrightarrow>
    \<exists>s'. publish s f rc reason = Inr (True, s') \<and> good s' \<and> obs s' = obs s @ [f]"

definition set_flags :: "nat list \<Rightarrow> bool list \<Rightarrow> bool list" where
  "set_flags is r = fold (\<lambda>i r. r[i := True]) is r"

definition set_blocks :: "(nat \<Rightarrow> bytes) \<Rightarrow> nat list \<Rightarrow> bytes list \<Rightarrow> bytes list" where
  "set_blocks f is d = fold (\<lambda>i d. d[i := f i]) is d"

lemma length_set_flags [simp]: "length (set_flags is r) = length r"
  by (induction "is" arbitrary: r) (simp_all add: set_flags_def)

lemma length_set_blocks [simp]: "length (set_blocks f is d) = length d"
  by (induction "is" arbitrary: d) (simp_all add: set_blocks_def)

lemma nth_set_flags: "j < length r \<Longrightarrow> set_flags is r ! j = (r ! j \<or> j \<in> set is)"
proof (induction "is" arbitrary: r)
  case (Cons i "is")
  then show ?case
    using Cons.IH [of "r[i := True]"] by (cases "i = j") (auto simp: set_flags_def)
qed (simp add: set_flags_def)

lemma nth_set_blocks: "j < length d \<Longrightarrow> set_blocks f is d ! j = (if j \<in> set is then f j else d ! j)"
proof (induction "is" arbitrary: d)
  case (Cons i "is")
  then show ?case
    using Cons.IH [of "d[i := f i]"] by (cases "i = j") (auto simp: set_blocks_def)
qed (simp add: set_blocks_def)

context publisher begin

lemma publish_rows_ok:
  assumes "frames_ok ml fs" and "good s" and "\<forall>i\<in>set is. i < length fs \<and> live (fs ! i)"
  shows "\<exists>s'. publish_rows publish (zip is (map (\<lambda>i. block_of ml (fs ! i)) is)) g c s =
      Inr (True, g\<lparr>g_received := set_flags is (g_received g),
                   g_data := set_blocks (\<lambda>i. block_of ml (fs ! i)) is (g_data g)\<rparr>,
           (count_recovered (g_close_reason g) ^^ length is) c, s') \<and>
    good s' \<and> obs s' = obs s @ map (\<lambda>i. fs ! i) is"
  using assms(2,3)
proof (induction "is" arbitrary: g c s)
  case Nil
  then show ?case by (simp add: set_flags_def set_blocks_def)
next
  case (Cons i "is")
  then have i: "i < length fs" "live (fs ! i)" by auto
  note f = frames_okD [OF assms(1) i(1)]
  have pay: "take (unat (fec_get_u16 (block_of ml (fs ! i)))) (drop 2 (block_of ml (fs ! i))) = fs ! i"
    using block_of_unpack [OF f(2)] unat_length_u16 [OF f(2)] by simp
  from accepts [OF Cons.prems(1) i(2)] obtain s1 where
    s1: "publish s (fs ! i) True (g_close_reason g) = Inr (True, s1)" "good s1" "obs s1 = obs s @ [fs ! i]" by blast
  let ?g = "g\<lparr>g_received := (g_received g)[i := True], g_data := (g_data g)[i := block_of ml (fs ! i)]\<rparr>"
  from Cons.IH [OF s1(2), of ?g "count_recovered (g_close_reason g) c"] Cons.prems s1 show ?case
    by (auto simp: pay set_flags_def set_blocks_def funpow_swap1)
qed

end

section \<open>The state of one generation\<close>

text \<open>
  \<open>tracks\<close> relates a slot to the generation that was sent: the blocks held are blocks of its
  frames, the parities in \<open>P\<close> are held and are codewords, and a generation marked recovered
  is complete. Before the first parity the slot knows only the configured size \<open>kk\<close>.
\<close>

definition parity_ok :: "bytes list \<Rightarrow> u16 \<Rightarrow> u16 \<Rightarrow> u8 \<Rightarrow> nat set \<Rightarrow> generation \<Rightarrow> bool" where
  "parity_ok fs ml pc reason P g \<longleftrightarrow>
     g_k g = of_nat (length fs) \<and> g_parity_received g \<and> g_parity_count g = pc \<and> g_close_reason g = reason \<and>
     length (g_parities g) = 16 \<and>
     (\<forall>r<16. if r \<in> P then is_shard (blocks ml fs) (unat ml + 2) r (g_parities g ! r)
             else g_parities g ! r = [])"

definition tracks :: "bytes list \<Rightarrow> u16 \<Rightarrow> u16 \<Rightarrow> u16 \<Rightarrow> u8 \<Rightarrow> u32 \<Rightarrow> nat set \<Rightarrow> generation \<Rightarrow> bool" where
  "tracks fs ml kk pc reason gid P g \<longleftrightarrow> g_active g \<and> g_gen_id g = gid \<and>
     length (g_received g) = length (g_data g) \<and> unat (g_k g) \<le> length (g_data g) \<and>
     (\<forall>i<length (g_received g). g_received g ! i \<longrightarrow> i < length fs \<and> data_ok fs ml i (g_data g ! i)) \<and>
     (if P = {} then g_k g = kk \<and> \<not> g_parity_received g \<and> g_parities g = [] \<and> \<not> g_recovered g
      else parity_ok fs ml pc reason P g) \<and>
     (g_recovered g \<longrightarrow> (\<forall>i<length fs. g_received g ! i))"

definition have_frames :: "bytes list \<Rightarrow> generation \<Rightarrow> nat set" where
  "have_frames fs g = {i. i < length fs \<and> i < length (g_received g) \<and> g_received g ! i}"

text \<open>A generation as the encoder closes it.\<close>

definition sent_ok :: "bytes list \<Rightarrow> u16 \<Rightarrow> u16 \<Rightarrow> u16 \<Rightarrow> u8 \<Rightarrow> bool" where
  "sent_ok fs ml kk pc reason \<longleftrightarrow> frames_ok ml fs \<and> fs \<noteq> [] \<and> length fs \<le> unat kk \<and>
     unat kk \<le> kMaxGeneration \<and> 0 < unat pc \<and> unat pc \<le> 16 \<and> reason \<le> 2"

lemma sent_okD:
  assumes "sent_ok fs ml kk pc reason"
  shows "frames_ok ml fs" "0 < length fs" "length fs \<le> 128" "unat (of_nat (length fs) :: u16) = length fs"
    "length fs \<le> unat kk" "unat kk \<le> 128" "0 < unat pc" "unat pc \<le> 16" "reason \<le> 2"
proof -
  show "length fs \<le> 128" using assms by (simp add: sent_ok_def kMaxGeneration_def)
  then show "unat (of_nat (length fs) :: u16) = length fs" by (intro unat_of_nat_small) simp
qed (use assms in \<open>auto simp: sent_ok_def kMaxGeneration_def\<close>)

definition d_wf :: "decoder \<Rightarrow> bool" where
  "d_wf d \<longleftrightarrow> d_gens d \<noteq> 0 \<and> length (d_slots d) = unat (d_gens d)"

lemma slot_index_less: "d_wf d \<Longrightarrow> slot_index d gid < length (d_slots d)"
  by (simp add: d_wf_def slot_index_def unat_mod unat_gt_0 flip: word_less_nat_alt)

lemma slot_index_cong: "d_gens d' = d_gens d \<Longrightarrow> slot_index d' gid = slot_index d gid"
  by (simp add: slot_index_def)

lemma d_wf_put [simp]: "d_wf (put_gen d gid g) = d_wf d" "d_gens (put_gen d gid g) = d_gens d"
  by (simp_all add: d_wf_def put_gen_def)

lemma gen_at_put: "d_wf d \<Longrightarrow> gen_at (put_gen d gid g) gid = g"
  using slot_index_less [of d gid] by (simp add: gen_at_def put_gen_def slot_index_def)

lemma d_wf_counters [simp]: "d_wf (d\<lparr>d_counters := c\<rparr>) = d_wf d" "d_gens (d\<lparr>d_counters := c\<rparr>) = d_gens d"
    "gen_at (d\<lparr>d_counters := c\<rparr>) gid = gen_at d gid"
  by (simp_all add: d_wf_def gen_at_def slot_index_def)

lemma d_wf_latency [simp]: "d_wf (record_latency r l d) = d_wf d" "d_gens (record_latency r l d) = d_gens d"
    "gen_at (record_latency r l d) gid = gen_at d gid" "d_slots (record_latency r l d) = d_slots d"
  by (simp_all add: record_latency_def Let_def d_wf_def gen_at_def slot_index_def)

section \<open>Recovery on a tracked generation\<close>

lemma tracks_holds:
  assumes "sent_ok fs ml kk pc reason" and "tracks fs ml kk pc reason gid P g" and "P \<noteq> {}"
  shows "holds fs ml g"
  using assms sent_okD(4) [OF assms(1)] by (auto simp: tracks_def parity_ok_def holds_def)

lemma have_absent:
  assumes "holds fs ml g"
  shows "set (absent_of fs g) = {..<length fs} - have_frames fs g"
    and "length (absent_of fs g) + card (have_frames fs g) = length fs"
proof -
  show s: "set (absent_of fs g) = {..<length fs} - have_frames fs g"
    using assms by (auto simp: absent_of_def have_frames_def holds_def)
  have "distinct (absent_of fs g)" by (simp add: absent_of_def)
  then have "length (absent_of fs g) = card ({..<length fs} - have_frames fs g)"
    using s distinct_card by fastforce
  moreover have "have_frames fs g \<subseteq> {..<length fs}" by (auto simp: have_frames_def)
  ultimately show "length (absent_of fs g) + card (have_frames fs g) = length fs"
    using card_mono [of "{..<length fs}" "have_frames fs g"] by (simp add: card_Diff_subset finite_subset)
qed

lemma bad_row_block:
  assumes "frames_ok ml fs" and "i < length fs"
  shows "\<not> bad_row (unat ml + 2) (block_of ml (fs ! i))"
  using frames_okD [OF assms] block_of_unpack(2) [of "fs ! i" ml] unat_length_u16 [of "fs ! i" ml]
  by (simp add: bad_row_def)

lemma parity_rows:
  assumes "parity_ok fs ml pc reason P g" and "P \<subseteq> {..<16}"
    and "rows = filter (\<lambda>i. g_parities g ! i \<noteq> []) [0..<length (g_parities g)]"
  shows "set rows = P" and "distinct rows" and "length rows = card P"
    and "\<forall>r\<in>P. r < 128 \<and> is_shard (blocks ml fs) (unat ml + 2) r (g_parities g ! r)"
proof -
  have sh: "is_shard (blocks ml fs) (unat ml + 2) r (g_parities g ! r)" if "r \<in> P" for r
    using assms(1,2) that by (auto simp: parity_ok_def)
  have "g_parities g ! r = []" if "r < 16" "r \<notin> P" for r
    using assms(1) that by (auto simp: parity_ok_def)
  moreover have "g_parities g ! r \<noteq> []" if "r \<in> P" for r
    using sh [OF that] by (auto simp: is_shard_def)
  ultimately have "g_parities g ! r \<noteq> [] \<longleftrightarrow> r \<in> P" if "r < 16" for r using that by blast
  moreover have "length (g_parities g) = 16" using assms(1) by (simp add: parity_ok_def)
  ultimately show s: "set rows = P" using assms(2) by (auto simp: assms(3))
  show d: "distinct rows" by (simp add: assms(3))
  from s d show "length rows = card P" by (simp add: distinct_card [symmetric])
  show "\<forall>r\<in>P. r < 128 \<and> is_shard (blocks ml fs) (unat ml + 2) r (g_parities g ! r)"
    using sh assms(2) by auto
qed

definition marked :: "bytes list \<Rightarrow> u16 \<Rightarrow> generation \<Rightarrow> generation" where
  "marked fs ml g = g\<lparr>g_received := set_flags (absent_of fs g) (g_received g),
     g_data := set_blocks (\<lambda>i. block_of ml (fs ! i)) (absent_of fs g) (g_data g), g_recovered := True\<rparr>"

lemma parity_ok_marked [simp]: "parity_ok fs ml pc reason P (marked fs ml g) = parity_ok fs ml pc reason P g"
  by (simp add: parity_ok_def marked_def)

lemma marked_received:
  "length fs \<le> length (g_received g) \<Longrightarrow> i < length (g_received g) \<Longrightarrow>
   g_received (marked fs ml g) ! i = (g_received g ! i \<or> i < length fs)"
  by (auto simp: marked_def nth_set_flags absent_of_def)

lemma marked_data_ok:
  assumes "frames_ok ml fs" and "i < length (g_data g)" and "length (g_received g) = length (g_data g)"
    and "g_received g ! i \<longrightarrow> i < length fs \<and> data_ok fs ml i (g_data g ! i)"
    and "g_received (marked fs ml g) ! i"
  shows "i < length fs \<and> data_ok fs ml i (g_data (marked fs ml g) ! i)"
proof (cases "i \<in> set (absent_of fs g)")
  case True
  then have "i < length fs" by (rule absent_of_less)
  with True assms(1,2) show ?thesis by (simp add: marked_def nth_set_blocks data_ok_block)
next
  case False
  then have "g_received g ! i" using assms(2,3,5) by (simp add: marked_def nth_set_flags)
  with False assms(2,4) show ?thesis by (simp add: marked_def nth_set_blocks)
qed

lemma marked_complete:
  assumes "sent_ok fs ml kk pc reason" and "tracks fs ml kk pc reason gid P g" and "P \<noteq> {}"
  shows "tracks fs ml kk pc reason gid P (marked fs ml g)" and "have_frames fs (marked fs ml g) = {..<length fs}"
proof -
  have n: "length fs \<le> length (g_received g)"
    using tracks_holds [OF assms] by (simp add: holds_def)
  have len: "length (g_received (marked fs ml g)) = length (g_received g)"
      "length (g_data (marked fs ml g)) = length (g_data g)" by (simp_all add: marked_def)
  have all: "g_received (marked fs ml g) ! i" if "i < length fs" for i
    using that n marked_received [OF n] by simp
  with n len show "have_frames fs (marked fs ml g) = {..<length fs}"
    by (auto simp: have_frames_def)
  have t: "length (g_received g) = length (g_data g)" "unat (g_k g) \<le> length (g_data g)"
      "\<And>i. i < length (g_received g) \<Longrightarrow> g_received g ! i \<longrightarrow> i < length fs \<and> data_ok fs ml i (g_data g ! i)"
      "g_active g" "g_gen_id g = gid" "parity_ok fs ml pc reason P g"
    using assms(2,3) by (simp_all add: tracks_def)
  have m: "g_active (marked fs ml g) = g_active g" "g_gen_id (marked fs ml g) = g_gen_id g"
      "g_k (marked fs ml g) = g_k g" by (simp_all add: marked_def)
  show "tracks fs ml kk pc reason gid P (marked fs ml g)"
    unfolding tracks_def m len parity_ok_marked
    using t all assms(3) marked_data_ok [OF sent_okD(1) [OF assms(1)] _ t(1)] by simp
qed

context publisher begin

lemma try_recover_full:
  assumes sent: "sent_ok fs ml kk pc reason" and wf: "d_wf d" and g: "gen_at d gid = g"
    and tr: "tracks fs ml kk pc reason gid P g" and P: "P \<noteq> {}" "P \<subseteq> {..<16}"
    and nr: "\<not> g_recovered g" and ab: "absent_of fs g \<noteq> []" "length (absent_of fs g) \<le> card P"
    and s: "good s" and live: "\<forall>f\<in>set fs. live f"
  shows "\<exists>d' s'. try_recover publish d gid now s = Inr (True, d', s') \<and> d_wf d' \<and> d_gens d' = d_gens d \<and>
    gen_at d' gid = marked fs ml g \<and> good s' \<and> obs s' = obs s @ map (\<lambda>i. fs ! i) (absent_of fs g)"
proof -
  define ab where "ab = absent_of fs g"
  define rows where "rows = filter (\<lambda>i. g_parities g ! i \<noteq> []) [0..<length (g_parities g)]"
  let ?w = "unat ml + 2"
  note fr = sent_okD(1) [OF sent]
  have h: "holds fs ml g" by (rule tracks_holds [OF sent tr P(1)])
  have pok: "parity_ok fs ml pc reason P g" using tr P(1) by (simp add: tracks_def)
  note rws = parity_rows [OF pok P(2) rows_def]
  define rs where "rs = take (length ab) rows"
  have "length rs = length ab" using ab rws(3) by (simp add: rs_def ab_def)
  have sub: "set rs \<subseteq> P" using rws(1) set_take_subset by (fastforce simp: rs_def)
  have rsok: "\<forall>r\<in>set rs. r < 128 \<and> is_shard (blocks ml fs) ?w r (g_parities g ! r)"
    using sub rws(4) by blast
  have drs: "distinct rs" using rws(2) by (simp add: rs_def)
  obtain m b where mb: "build_system g ?w ab rs = Inr (Some (m, b))"
      "gauss [0..<length ab] m b = Inr (Some (map (\<lambda>i. block_of ml (fs ! i)) ab))"
    using recover_blocks [OF fr h drs _ rsok] \<open>length rs = length ab\<close> unfolding ab_def by blast
  have "rs ! 0 \<in> set rs" using \<open>length rs = length ab\<close> ab(1) by (intro nth_mem) (simp add: ab_def)
  then have width: "length (g_parities g ! (rs ! 0)) = ?w" using rsok by (simp add: is_shard_def)
  have bad: "\<not> list_ex (bad_row ?w) (map (\<lambda>i. block_of ml (fs ! i)) ab)"
    using bad_row_block [OF fr] absent_of_less [of _ fs g] by (auto simp: list_ex_iff ab_def)
  have "\<forall>i\<in>set ab. i < length fs \<and> live (fs ! i)"
    using live absent_of_less [of _ fs g] by (auto simp: ab_def)
  from publish_rows_ok [OF fr s this, of g "d_counters d"] obtain s' c' where
    pub: "publish_rows publish (zip ab (map (\<lambda>i. block_of ml (fs ! i)) ab)) g (d_counters d) s =
        Inr (True, g\<lparr>g_received := set_flags ab (g_received g),
          g_data := set_blocks (\<lambda>i. block_of ml (fs ! i)) ab (g_data g)\<rparr>, c', s')"
      "good s'" "obs s' = obs s @ map (\<lambda>i. fs ! i) ab" by blast
  have k: "unat (g_k g) = length fs" using h by (simp add: holds_def)
  have c1: "(\<not> g_parity_received g \<or> g_recovered g \<or> g_k g = 0) = False"
    using k sent_okD(2) [OF sent] nr pok by (auto simp: parity_ok_def)
  have c2: "(length ab = 0) = False" "(length rows < length ab) = False"
    using ab rws(3) by (simp_all add: ab_def)
  have c3: "list_ex (bad_row ?w) (map (\<lambda>i. block_of ml (fs ! i)) ab) = False" using bad by blast
  have fl: "filter (\<lambda>i. \<not> g_received g ! i) [0..<unat (g_k g)] = ab" by (simp add: k ab_def absent_of_def)
  let ?g1 = "g\<lparr>g_received := set_flags ab (g_received g),
      g_data := set_blocks (\<lambda>i. block_of ml (fs ! i)) ab (g_data g)\<rparr>"
  have mk: "?g1\<lparr>g_recovered := True\<rparr> = marked fs ml g" by (simp add: marked_def ab_def)
  have "\<exists>r l. try_recover publish d gid now s =
      Inr (True, record_latency r l (put_gen (put_gen (d\<lparr>d_counters := c'\<rparr>) gid ?g1) gid (marked fs ml g)), s')"
    unfolding try_recover_def Let_def g fl rows_def [symmetric] rs_def [symmetric] width
    by (simp only: c1 c2 c3 mb pub(1) mk bind_exn_simps option.case prod.case if_False if_True not_True_eq_False) blast
  then show ?thesis
    using pub(2,3) wf by (auto simp: gen_at_put ab_def)
qed

lemma try_recover_ok:
  assumes sent: "sent_ok fs ml kk pc reason" and wf: "d_wf d" and g: "gen_at d gid = g"
    and tr: "tracks fs ml kk pc reason gid P g" and P: "P \<subseteq> {..<16}"
    and s: "good s" and live: "\<forall>f\<in>set fs. live f"
  shows "\<exists>d' s' xs. try_recover publish d gid now s = Inr (True, d', s') \<and> d_wf d' \<and> d_gens d' = d_gens d \<and>
    tracks fs ml kk pc reason gid P (gen_at d' gid) \<and> good s' \<and> obs s' = obs s @ map (\<lambda>i. fs ! i) xs \<and>
    set xs \<subseteq> {..<length fs} \<and> have_frames fs (gen_at d' gid) = have_frames fs g \<union> set xs \<and>
    (P \<noteq> {} \<longrightarrow> length fs \<le> card (have_frames fs g) + card P \<longrightarrow> have_frames fs (gen_at d' gid) = {..<length fs})"
proof -
  have same: ?thesis if "try_recover publish d gid now s = Inr (True, d, s)"
      "P \<noteq> {} \<Longrightarrow> length fs \<le> card (have_frames fs g) + card P \<Longrightarrow> have_frames fs g = {..<length fs}"
    using that wf g tr s by (intro exI [of _ d] exI [of _ s] exI [of _ "[]"]) simp
  show ?thesis
  proof (cases "P = {} \<or> g_recovered g")
    case True
    then have "try_recover publish d gid now s = Inr (True, d, s)"
      using tr g by (auto simp: try_recover_def tracks_def Let_def)
    moreover have "have_frames fs g = {..<length fs}" if "P \<noteq> {}"
      using True that tr tracks_holds [OF sent tr that] by (auto simp: tracks_def have_frames_def holds_def)
    ultimately show ?thesis by (intro same)
  next
    case False
    then have h: "holds fs ml g" using tracks_holds [OF sent tr] by blast
    have pok: "parity_ok fs ml pc reason P g" using tr False by (simp add: tracks_def)
    have k: "unat (g_k g) = length fs" using h by (simp add: holds_def)
    have fl: "filter (\<lambda>i. \<not> g_received g ! i) [0..<unat (g_k g)] = absent_of fs g" by (simp add: k absent_of_def)
    note ha = have_absent [OF h]
    consider "absent_of fs g = []" | "card P < length (absent_of fs g)"
      | "absent_of fs g \<noteq> []" "length (absent_of fs g) \<le> card P" by linarith
    then show ?thesis
    proof cases
      case 1
      then have "try_recover publish d gid now s = Inr (True, d, s)"
        unfolding try_recover_def Let_def g fl by simp
      moreover have "have_frames fs g = {..<length fs}" using ha(1) 1 by (auto simp: have_frames_def)
      ultimately show ?thesis by (intro same)
    next
      case 2
      then have "try_recover publish d gid now s = Inr (True, d, s)"
        unfolding try_recover_def Let_def g fl using parity_rows(3) [OF pok P refl] by simp
      with 2 ha(2) show ?thesis by (intro same) auto
    next
      case 3
      from try_recover_full [OF sent wf g tr _ P _ 3 s live] False obtain d' s' where
        r: "try_recover publish d gid now s = Inr (True, d', s')" "d_wf d'" "d_gens d' = d_gens d"
          "gen_at d' gid = marked fs ml g" "good s'" "obs s' = obs s @ map (\<lambda>i. fs ! i) (absent_of fs g)" by blast
      have "have_frames fs g \<subseteq> {..<length fs}" by (auto simp: have_frames_def)
      with r marked_complete [OF sent tr] False ha(1) show ?thesis
        by (intro exI [of _ d'] exI [of _ s'] exI [of _ "absent_of fs g"]) auto
    qed
  qed
qed

end

section \<open>One datagram of the generation\<close>

definition stale :: "u32 \<Rightarrow> decoder \<Rightarrow> bool" where
  "stale gid d \<longleftrightarrow> \<not> g_active (gen_at d gid) \<or> g_gen_id (gen_at d gid) \<noteq> gid"

definition tracking :: "bytes list \<Rightarrow> u16 \<Rightarrow> u16 \<Rightarrow> u16 \<Rightarrow> u8 \<Rightarrow> u32 \<Rightarrow> nat set \<Rightarrow> decoder \<Rightarrow> bool" where
  "tracking fs ml kk pc reason gid P d \<longleftrightarrow> d_wf d \<and> P \<subseteq> {..<16} \<and>
     (if stale gid d then P = {} else tracks fs ml kk pc reason gid P (gen_at d gid))"

text \<open>The frames of the generation that its slot holds.\<close>

definition known :: "bytes list \<Rightarrow> u32 \<Rightarrow> decoder \<Rightarrow> nat set" where
  "known fs gid d = (if stale gid d then {} else have_frames fs (gen_at d gid))"

lemma known_subset: "known fs gid d \<subseteq> {..<length fs}"
  by (auto simp: known_def have_frames_def)

lemma tracks_not_stale: "tracks fs ml kk pc reason gid P (gen_at d gid) \<Longrightarrow> \<not> stale gid d"
  by (simp add: tracks_def stale_def)

lemma slot_fresh:
  assumes "d_wf d"
  shows "d_wf (slot d gid k now)" and "d_gens (slot d gid k now) = d_gens d"
    and "stale gid d \<Longrightarrow> gen_at (slot d gid k now) gid =
      generation_init\<lparr>g_active := True, g_gen_id := gid, g_k := k, g_first_ns := now\<rparr>"
    and "\<not> stale gid d \<Longrightarrow> slot d gid k now = d"
  using assms by (auto simp: slot_def stale_def Let_def gen_at_put)

lemma tracks_touch [simp]: "tracks fs ml kk pc reason gid P (touch now g) = tracks fs ml kk pc reason gid P g"
    "have_frames fs (touch now g) = have_frames fs g" "g_k (touch now g) = g_k g"
  by (simp_all add: tracks_def parity_ok_def touch_def have_frames_def)

lemma slot_data:
  assumes sent: "sent_ok fs ml kk pc reason" and tr: "tracking fs ml kk pc reason gid P d"
    and g: "g = gen_at (slot d gid kk now) gid"
  shows "\<not> (kk < g_k g \<or> (\<not> g_parity_received g \<and> kk \<noteq> g_k g))"
    and "tracks fs ml kk pc reason gid P (ensure g kk)" and "have_frames fs (ensure g kk) = known fs gid d"
    and "length fs \<le> unat (g_k (ensure g kk))"
proof -
  have wf: "d_wf d" using tr by (simp add: tracking_def)
  note so = sent_okD [OF sent]
  have kk0: "kk \<noteq> 0" using so by auto
  have "\<not> (kk < g_k g \<or> (\<not> g_parity_received g \<and> kk \<noteq> g_k g)) \<and>
    tracks fs ml kk pc reason gid P (ensure g kk) \<and> have_frames fs (ensure g kk) = known fs gid d \<and>
    length fs \<le> unat (g_k (ensure g kk))"
  proof (cases "stale gid d")
    case True
    then have "P = {}" using tr by (simp add: tracking_def)
    with True show ?thesis
      unfolding g slot_fresh(3) [OF wf True] using so kk0
      by (auto simp: generation_init_def ensure_def resize_def Let_def tracks_def have_frames_def known_def unat_gt_0)
  next
    case False
    then have t: "tracks fs ml kk pc reason gid P g" and gd: "g = gen_at d gid"
      using tr slot_fresh(4) [OF wf False] by (simp_all add: tracking_def g)
    have k: "unat (g_k g) \<le> unat kk" "length fs \<le> unat (g_k g)" "g_k g \<noteq> 0"
      "g_parity_received g \<or> kk = g_k g"
      using t so by (auto simp: tracks_def parity_ok_def split: if_splits)
    then have "ensure g kk = g" using t by (simp add: ensure_def Let_def word_less_nat_alt tracks_def)
    with k t gd False show ?thesis by (simp add: known_def word_less_nat_alt)
  qed
  then show "\<not> (kk < g_k g \<or> (\<not> g_parity_received g \<and> kk \<noteq> g_k g))"
    "tracks fs ml kk pc reason gid P (ensure g kk)" "have_frames fs (ensure g kk) = known fs gid d"
    "length fs \<le> unat (g_k (ensure g kk))" by blast+
qed

lemma tracks_store:
  assumes sent: "sent_ok fs ml kk pc reason" and tr: "tracks fs ml kk pc reason gid P g" and i: "i < length fs"
    and k: "length fs \<le> unat (g_k g)" and b: "data_ok fs ml i b"
  shows "tracks fs ml kk pc reason gid P (g\<lparr>g_data := (g_data g)[i := b], g_received := (g_received g)[i := True]\<rparr>)"
    and "have_frames fs (g\<lparr>g_data := (g_data g)[i := b], g_received := (g_received g)[i := True]\<rparr>) =
      insert i (have_frames fs g)"
proof -
  have l: "i < length (g_received g)" "length (g_received g) = length (g_data g)"
    using tr i k by (auto simp: tracks_def)
  then show "have_frames fs (g\<lparr>g_data := (g_data g)[i := b], g_received := (g_received g)[i := True]\<rparr>) =
      insert i (have_frames fs g)"
    using i by (auto simp: have_frames_def nth_list_update)
  show "tracks fs ml kk pc reason gid P (g\<lparr>g_data := (g_data g)[i := b], g_received := (g_received g)[i := True]\<rparr>)"
    using tr l i b by (auto simp: tracks_def parity_ok_def nth_list_update split: if_splits)
qed

lemma list_ex_drop: "list_ex (\<lambda>r. r) (drop k xs) \<longleftrightarrow> (\<exists>i<length xs. k \<le> i \<and> xs ! i)"
proof
  assume "list_ex (\<lambda>r. r) (drop k xs)"
  then obtain j where "j < length xs - k" "xs ! (k + j)" by (auto simp: list_ex_iff in_set_conv_nth)
  then show "\<exists>i<length xs. k \<le> i \<and> xs ! i" by (intro exI [of _ "k + j"]) simp
next
  assume "\<exists>i<length xs. k \<le> i \<and> xs ! i"
  then obtain i where "i < length xs" "k \<le> i" "xs ! i" by blast
  then have "drop k xs ! (i - k) = True" "i - k < length (drop k xs)" by simp_all
  then show "list_ex (\<lambda>r. r) (drop k xs)" by (metis list_ex_iff nth_mem)
qed

text \<open>A parity closes the generation: the slot then knows its real size.\<close>

lemma slot_parity:
  assumes sent: "sent_ok fs ml kk pc reason" and tr: "tracking fs ml kk pc reason gid P d"
    and g: "g = gen_at (slot d gid n now) gid" and n: "n = of_nat (length fs)"
  shows "\<not> (g_parity_received g \<and> (g_k g \<noteq> n \<or> g_parity_count g \<noteq> pc \<or> g_close_reason g \<noteq> reason))"
    and "\<not> n > g_k g" and "\<not> list_ex (\<lambda>r. r) (drop (unat n) (g_received g))"
    and "tracks fs ml n pc reason gid P (ensure g n)" and "have_frames fs (ensure g n) = known fs gid d"
    and "g_k (ensure g n) = n"
proof -
  have wf: "d_wf d" using tr by (simp add: tracking_def)
  note so = sent_okD [OF sent]
  have n0: "n \<noteq> 0" "unat n = length fs" using so by (auto simp: n)
  have "\<not> (g_parity_received g \<and> (g_k g \<noteq> n \<or> g_parity_count g \<noteq> pc \<or> g_close_reason g \<noteq> reason)) \<and>
    \<not> n > g_k g \<and> \<not> list_ex (\<lambda>r. r) (drop (unat n) (g_received g)) \<and>
    tracks fs ml n pc reason gid P (ensure g n) \<and> have_frames fs (ensure g n) = known fs gid d \<and>
    g_k (ensure g n) = n"
  proof (cases "stale gid d")
    case True
    then have "P = {}" using tr by (simp add: tracking_def)
    with True show ?thesis
      unfolding g slot_fresh(3) [OF wf True] using so n0
      by (auto simp: generation_init_def ensure_def resize_def Let_def tracks_def have_frames_def known_def unat_gt_0)
  next
    case False
    then have t: "tracks fs ml kk pc reason gid P g" and gd: "g = gen_at d gid"
      using tr slot_fresh(4) [OF wf False] by (simp_all add: tracking_def g)
    have l: "length (g_received g) = length (g_data g)" "unat (g_k g) \<le> length (g_data g)"
      and r: "\<And>i. i < length (g_received g) \<Longrightarrow> g_received g ! i \<Longrightarrow> i < length fs"
      using t by (auto simp: tracks_def)
    have "\<not> list_ex (\<lambda>r. r) (drop (unat n) (g_received g))"
      using r n0(2) by (force simp: list_ex_drop)
    moreover have k: "length fs \<le> unat (g_k g)" using t so n0 by (auto simp: tracks_def parity_ok_def n split: if_splits)
    then have e: "ensure g n = g\<lparr>g_k := n\<rparr>"
      using l n0 by (auto simp: ensure_def Let_def word_less_nat_alt word_unat_eq_iff)
    moreover have "tracks fs ml n pc reason gid P (g\<lparr>g_k := n\<rparr>)"
    proof (cases "P = {}")
      case False
      then have "g\<lparr>g_k := n\<rparr> = g" using t by (simp add: tracks_def parity_ok_def n)
      with False t show ?thesis by (simp add: tracks_def)
    qed (use t k l n0 in \<open>simp add: tracks_def\<close>)
    moreover have "have_frames fs (g\<lparr>g_k := n\<rparr>) = known fs gid d"
      using False gd by (simp add: known_def have_frames_def)
    moreover have "\<not> (g_parity_received g \<and> (g_k g \<noteq> n \<or> g_parity_count g \<noteq> pc \<or> g_close_reason g \<noteq> reason))"
      using t by (auto simp: tracks_def parity_ok_def n split: if_splits)
    ultimately show ?thesis using k n0 by (simp add: word_less_nat_alt)
  qed
  then show "\<not> (g_parity_received g \<and> (g_k g \<noteq> n \<or> g_parity_count g \<noteq> pc \<or> g_close_reason g \<noteq> reason))"
    "\<not> n > g_k g" "\<not> list_ex (\<lambda>r. r) (drop (unat n) (g_received g))"
    "tracks fs ml n pc reason gid P (ensure g n)" "have_frames fs (ensure g n) = known fs gid d"
    "g_k (ensure g n) = n" by blast+
qed

lemma tracks_parity:
  assumes sent: "sent_ok fs ml kk pc reason" and tr: "tracks fs ml n pc reason gid P g" and P: "P \<subseteq> {..<16}"
    and n: "n = of_nat (length fs)" "g_k g = n" and r: "r < 16" and sh: "is_shard (blocks ml fs) (unat ml + 2) r b"
    and g1: "g1 = g\<lparr>g_close_reason := reason, g_parity_count := pc,
      g_parities := (if g_parities g = [] then replicate 16 [] else g_parities g)\<rparr>"
  shows "\<not> list_ex (\<lambda>p. p \<noteq> [] \<and> length p \<noteq> length b) (g_parities g1)"
    and "tracks fs ml kk pc reason gid (insert r P) (g1\<lparr>g_parities := (g_parities g1)[r := b], g_parity_received := True\<rparr>)"
    and "have_frames fs (g1\<lparr>g_parities := (g_parities g1)[r := b], g_parity_received := True\<rparr>) = have_frames fs g"
proof -
  have ps: "length (g_parities g1) = 16 \<and> (\<forall>q<16. if q \<in> P then is_shard (blocks ml fs) (unat ml + 2) q (g_parities g1 ! q)
      else g_parities g1 ! q = [])"
  proof (cases "P = {}")
    case True
    then show ?thesis using tr by (simp add: tracks_def g1)
  next
    case False
    then have "parity_ok fs ml pc reason P g" using tr by (simp add: tracks_def)
    then show ?thesis by (auto simp: parity_ok_def g1)
  qed
  have "length (g_parities g1 ! q) = length b" if "q < 16" "g_parities g1 ! q \<noteq> []" for q
    using ps sh that by (cases "q \<in> P") (auto simp: is_shard_def)
  with ps show "\<not> list_ex (\<lambda>p. p \<noteq> [] \<and> length p \<noteq> length b) (g_parities g1)"
    by (fastforce simp: list_ex_iff in_set_conv_nth)
  show "have_frames fs (g1\<lparr>g_parities := (g_parities g1)[r := b], g_parity_received := True\<rparr>) = have_frames fs g"
    by (simp add: have_frames_def g1)
  have "\<forall>q<16. if q \<in> insert r P then is_shard (blocks ml fs) (unat ml + 2) q ((g_parities g1)[r := b] ! q)
      else (g_parities g1)[r := b] ! q = []"
    using ps sh r by (auto simp: nth_list_update)
  moreover have "length ((g_parities g1)[r := b]) = 16" using ps by simp
  moreover define g2 where "g2 = g1\<lparr>g_parities := (g_parities g1)[r := b], g_parity_received := True\<rparr>"
  have "g_k g2 = of_nat (length fs)" "g_parity_count g2 = pc" "g_close_reason g2 = reason" "g_parity_received g2"
      and g2: "g_parities g2 = (g_parities g1)[r := b]"
    using n by (simp_all add: g2_def g1)
  ultimately have "parity_ok fs ml pc reason (insert r P) (g1\<lparr>g_parities := (g_parities g1)[r := b], g_parity_received := True\<rparr>)"
    unfolding parity_ok_def g2_def [symmetric] g2 by blast
  then show "tracks fs ml kk pc reason gid (insert r P) (g1\<lparr>g_parities := (g_parities g1)[r := b], g_parity_received := True\<rparr>)"
    using tr by (simp add: tracks_def g1 split: if_splits)
qed

definition data_packet :: "u32 \<Rightarrow> u16 \<Rightarrow> bytes list \<Rightarrow> nat \<Rightarrow> bytes" where
  "data_packet gid kk fs i = write_envelope (data_envelope gid i kk (length (fs ! i))) @ fs ! i"

lemma index_u16: "sent_ok fs ml kk pc reason \<Longrightarrow> i < length fs + 16 \<Longrightarrow> unat (of_nat i :: u16) = i"
  using sent_okD(3) [of fs ml kk pc reason] by (intro unat_of_nat_small) simp

definition parity_packet :: "u32 \<Rightarrow> u16 \<Rightarrow> u8 \<Rightarrow> u16 \<Rightarrow> bytes list \<Rightarrow> nat \<Rightarrow> bytes \<Rightarrow> bytes" where
  "parity_packet gid pc reason ml fs r sh =
     write_envelope (parity_envelope gid r (length fs) pc (unat ml + 2) reason) @ sh"

lemma receive_parity_eq:
  assumes sent: "sent_ok fs ml kk pc reason"
  shows "receive publish d (parity_packet gid pc reason ml fs r sh) now s =
    receive_parity publish d (parity_envelope gid r (length fs) pc (unat ml + 2) reason) sh now s"
  using sent_okD [OF sent]
  by (auto simp: receive_def parity_packet_def parity_envelope_def kEnvelopeSize_def kMaxGeneration_def)

lemma receive_data_eq:
  assumes sent: "sent_ok fs ml kk pc reason" and i: "i < length fs"
  shows "receive publish d (data_packet gid kk fs i) now s =
    receive_data publish d (data_envelope gid i kk (length (fs ! i))) (fs ! i) now s"
  using sent_okD [OF sent] i
  by (auto simp: receive_def data_packet_def data_envelope_def kEnvelopeSize_def kMaxGeneration_def)

context publisher begin

lemma data_step:
  assumes sent: "sent_ok fs ml kk pc reason" and tr: "tracking fs ml kk pc reason gid P d" and i: "i < length fs"
    and s: "good s" and live: "\<forall>f\<in>set fs. live f"
  shows "\<exists>d' s' xs. receive publish d (data_packet gid kk fs i) now s = Inr (True, d', s') \<and>
    tracking fs ml kk pc reason gid P d' \<and> \<not> stale gid d' \<and> good s' \<and>
    obs s' = obs s @ fs ! i # map (\<lambda>i. fs ! i) xs \<and>
    set xs \<subseteq> {..<length fs} \<and> known fs gid d' = insert i (known fs gid d) \<union> set xs \<and>
    (P \<noteq> {} \<longrightarrow> length fs \<le> card (insert i (known fs gid d)) + card P \<longrightarrow> known fs gid d' = {..<length fs})"
proof -
  let ?env = "data_envelope gid i kk (length (fs ! i))" and ?len = "of_nat (length (fs ! i)) :: u16"
  have wf: "d_wf d" and P: "P \<subseteq> {..<16}" using tr by (simp_all add: tracking_def)
  define d1 where "d1 = slot d gid kk now"
  have d1: "d_wf d1" "d_gens d1 = d_gens d" using slot_fresh(1,2) [OF wf] by (simp_all add: d1_def)
  define g where "g = gen_at d1 gid"
  note sl = slot_data [OF sent tr g_def [unfolded d1_def]]
  define g1 where "g1 = touch now (ensure g kk)"
  have g1: "tracks fs ml kk pc reason gid P g1" "have_frames fs g1 = known fs gid d" "length fs \<le> unat (g_k g1)"
    using sl(2-4) by (simp_all add: g1_def)
  from accepts [OF s, of "fs ! i"] live i obtain s1 where
    s1: "publish s (fs ! i) False (g_close_reason g1) = Inr (True, s1)" "good s1" "obs s1 = obs s @ [fs ! i]"
    by (meson nth_mem)
  define g2 where "g2 = g1\<lparr>g_data := (g_data g1)[i := protected_frame (fs ! i) ?len ?len],
      g_received := (g_received g1)[i := True]\<rparr>"
  note fr = frames_okD [OF sent_okD(1) [OF sent] i]
  have g2: "tracks fs ml kk pc reason gid P g2" "have_frames fs g2 = insert i (known fs gid d)"
    using tracks_store [OF sent g1(1) i g1(3) data_ok_received [OF sent_okD(1) [OF sent] i]] g1(2)
    by (simp_all add: g2_def)
  have ix: "unat (of_nat i :: u16) = i" using index_u16 [OF sent, of i] i by simp
  have len: "unat ?len = length (fs ! i)" by (rule unat_length_u16 [OF fr(2)])
  have c1: "(fs ! i = [] \<or> length (fs ! i) \<noteq> unat ?len \<or> unat ?len > max_frame \<or> of_nat i \<ge> kk) = False"
    using fr len ix i sent_okD(5) [OF sent] by (simp add: word_le_nat_alt)
  have env: "e_gen_id ?env = gid" "e_k ?env = kk" "e_index ?env = of_nat i" "e_protected_len ?env = ?len"
    by (simp_all add: data_envelope_def)
  have c2: "(kk < g_k g \<or> \<not> g_parity_received g \<and> kk \<noteq> g_k g) = False" using sl(1) by blast
  have c3: "(of_nat i \<ge> g_k (ensure g kk)) = False" using sl(4) ix i by (simp add: word_le_nat_alt)
  have "receive publish d (data_packet gid kk fs i) now s = try_recover publish (put_gen d1 gid g2) gid now s1"
    unfolding receive_data_eq [OF sent i] receive_data_def Let_def c1 env d1_def [symmetric] g_def [symmetric]
      c2 c3 g1_def [symmetric] if_False s1(1) bind_exn_simps prod.case ix g2_def
    by simp
  moreover have "gen_at (put_gen d1 gid g2) gid = g2" using d1(1) by (rule gen_at_put)
  then obtain d' s' xs where r: "try_recover publish (put_gen d1 gid g2) gid now s1 = Inr (True, d', s')"
      "d_wf d'" "tracks fs ml kk pc reason gid P (gen_at d' gid)" "good s'"
      "obs s' = obs s1 @ map (\<lambda>i. fs ! i) xs" "set xs \<subseteq> {..<length fs}"
      "have_frames fs (gen_at d' gid) = have_frames fs g2 \<union> set xs"
      "P \<noteq> {} \<longrightarrow> length fs \<le> card (have_frames fs g2) + card P \<longrightarrow> have_frames fs (gen_at d' gid) = {..<length fs}"
    using try_recover_ok [OF sent _ _ g2(1) P s1(2) live, of "put_gen d1 gid g2" now] d1 by auto
  moreover have "\<not> stale gid d'" using r(3) by (rule tracks_not_stale)
  ultimately show ?thesis
    using P g2(2) s1(3)
    by (intro exI [of _ d'] exI [of _ s'] exI [of _ xs]) (simp add: tracking_def known_def)
qed

lemma parity_step:
  assumes sent: "sent_ok fs ml kk pc reason" and tr: "tracking fs ml kk pc reason gid P d" and r: "r < unat pc"
    and sh: "is_shard (blocks ml fs) (unat ml + 2) r sh" and s: "good s" and live: "\<forall>f\<in>set fs. live f"
  shows "\<exists>d' s' xs. receive publish d (parity_packet gid pc reason ml fs r sh) now s = Inr (True, d', s') \<and>
    tracking fs ml kk pc reason gid (insert r P) d' \<and> \<not> stale gid d' \<and> good s' \<and>
    obs s' = obs s @ map (\<lambda>i. fs ! i) xs \<and>
    set xs \<subseteq> {..<length fs} \<and> known fs gid d' = known fs gid d \<union> set xs \<and>
    (length fs \<le> card (known fs gid d) + card (insert r P) \<longrightarrow> known fs gid d' = {..<length fs})"
proof -
  let ?env = "parity_envelope gid r (length fs) pc (unat ml + 2) reason"
  note so = sent_okD [OF sent]
  have wf: "d_wf d" and P: "P \<subseteq> {..<16}" and rP: "r < 16" "insert r P \<subseteq> {..<16}"
    using tr so r by (auto simp: tracking_def)
  define n :: u16 where "n = of_nat (length fs)"
  define d0 where "d0 = d\<lparr>d_counters := (d_counters d)\<lparr>fc_parity_received := fc_parity_received (d_counters d) + 1\<rparr>\<rparr>"
  have tr0: "tracking fs ml kk pc reason gid P d0" "known fs gid d0 = known fs gid d" "d_wf d0"
    using tr by (simp_all add: d0_def tracking_def known_def stale_def)
  define d1 where "d1 = slot d0 gid n now"
  have d1: "d_wf d1" using slot_fresh(1) [OF tr0(3)] by (simp add: d1_def)
  define g where "g = gen_at d1 gid"
  note sl = slot_parity [OF sent tr0(1) g_def [unfolded d1_def] n_def]
  define g1 where "g1 = touch now (ensure g n)"
  have g1: "tracks fs ml n pc reason gid P g1" "have_frames fs g1 = known fs gid d" "g_k g1 = n"
    using sl(4-6) tr0(2) by (simp_all add: g1_def)
  define g2 where "g2 = g1\<lparr>g_close_reason := reason, g_parity_count := pc,
      g_parities := (if g_parities g1 = [] then replicate 16 [] else g_parities g1)\<rparr>"
  define g3 where "g3 = g2\<lparr>g_parities := (g_parities g2)[r := sh], g_parity_received := True\<rparr>"
  have g3: "\<not> list_ex (\<lambda>p. p \<noteq> [] \<and> length p \<noteq> length sh) (g_parities g2)"
      "tracks fs ml kk pc reason gid (insert r P) g3" "have_frames fs g3 = known fs gid d"
    using tracks_parity [OF sent g1(1) P n_def g1(3) rP(1) sh g2_def] g1(2) by (simp_all add: g3_def)
  have ix: "unat (of_nat (length fs + r) :: u16) = length fs + r"
    using index_u16 [OF sent, of "length fs + r"] rP by simp
  have ml: "unat ml \<le> max_frame" using so(1) by (simp add: frames_ok_def)
  have w: "length sh = unat ml + 2" using sh by (simp add: is_shard_def)
  have uw: "unat (of_nat (unat ml + 2) :: u16) = unat ml + 2"
    by (rule unat_of_nat_small) (use ml in \<open>simp add: max_frame_def\<close>)
  have env: "e_gen_id ?env = gid" "e_k ?env = n" "e_parity_count ?env = pc" "e_close_reason ?env = reason"
      "e_index ?env = of_nat (length fs + r)" "e_protected_len ?env = of_nat (unat ml + 2)"
    by (simp_all add: parity_envelope_def n_def)
  have un: "unat n = length fs" using so(4) by (simp add: n_def)
  have c1: "(unat pc > 16 \<or> of_nat (length fs + r) < n \<or> unat (of_nat (length fs + r) :: u16) \<ge> unat n + unat pc \<or>
      unat (of_nat (unat ml + 2) :: u16) \<noteq> length sh \<or> length sh < 2 \<or> length sh > max_frame + 2) = False"
    unfolding uw ix word_less_nat_alt un w using so r ml by simp
  have c2: "(g_parity_received g \<and> (g_k g \<noteq> n \<or> g_parity_count g \<noteq> pc \<or> g_close_reason g \<noteq> reason)) = False"
    "(n > g_k g) = False" "list_ex (\<lambda>r. r) (drop (unat n) (g_received g)) = False"
    "list_ex (\<lambda>p. p \<noteq> [] \<and> length p \<noteq> length sh) (g_parities g2) = False"
    using sl(1-3) g3(1) by blast+
  have row: "unat (of_nat (length fs + r) :: u16) - unat n = r" using ix un by simp
  have g2': "(if g_parities (g1\<lparr>g_close_reason := reason, g_parity_count := pc\<rparr>) = []
      then g1\<lparr>g_close_reason := reason, g_parity_count := pc\<rparr>\<lparr>g_parities := replicate 16 []\<rparr>
      else g1\<lparr>g_close_reason := reason, g_parity_count := pc\<rparr>) = g2"
    by (simp add: g2_def)
  have "receive publish d (parity_packet gid pc reason ml fs r sh) now s =
      try_recover publish (put_gen d1 gid g3) gid now s"
    unfolding receive_parity_eq [OF sent] receive_parity_def Let_def env c1 d0_def [symmetric]
      d1_def [symmetric] g_def [symmetric] c2 g1_def [symmetric] if_False g2' row g3_def
    by simp
  moreover have "gen_at (put_gen d1 gid g3) gid = g3" using d1 by (rule gen_at_put)
  then obtain d' s' xs where r: "try_recover publish (put_gen d1 gid g3) gid now s = Inr (True, d', s')"
      "d_wf d'" "tracks fs ml kk pc reason gid (insert r P) (gen_at d' gid)" "good s'"
      "obs s' = obs s @ map (\<lambda>i. fs ! i) xs" "set xs \<subseteq> {..<length fs}"
      "have_frames fs (gen_at d' gid) = have_frames fs g3 \<union> set xs"
      "length fs \<le> card (have_frames fs g3) + card (insert r P) \<longrightarrow> have_frames fs (gen_at d' gid) = {..<length fs}"
    using try_recover_ok [OF sent _ _ g3(2) rP(2) s live, of "put_gen d1 gid g3" now] d1 by auto
  moreover have "\<not> stale gid d'" using r(3) by (rule tracks_not_stale)
  ultimately show ?thesis
    using rP g3(3)
    by (intro exI [of _ d'] exI [of _ s'] exI [of _ xs]) (simp add: tracking_def known_def)
qed

end

end
