(* ===== verification/Fec_Delivery.thy ===== *)
theory Fec_Delivery
  imports Fec_Recovery
begin

text \<open>
  What the FEC layer promises: the datagrams of a generation closed by the encoder, delivered
  in any order and with any losses, make the decoder publish every frame of the generation as
  soon as as many distinct datagrams have arrived as the generation has frames, and never
  anything but these frames.
\<close>

section \<open>All datagrams of the generation\<close>

text \<open>The receiving loop: one \<open>receive\<close> per datagram, at its arrival time.\<close>

fun receive_all :: "'s publish \<Rightarrow> decoder \<Rightarrow> (bytes \<times> u64) list \<Rightarrow> 's \<Rightarrow> exn + decoder \<times> 's" where
  "receive_all publish d [] s = Inr (d, s)"
| "receive_all publish d ((p, now) # ps) s =
     bind_exn (receive publish d p now s) (\<lambda>(_, d, s). receive_all publish d ps s)"

datatype shard = Data nat | Parity nat

fun packet_of :: "built_generation \<Rightarrow> shard \<Rightarrow> bytes" where
  "packet_of b (Data i) = bg_data b ! i"
| "packet_of b (Parity r) = parity_packets b ! r"

fun valid_shard :: "nat \<Rightarrow> nat \<Rightarrow> shard \<Rightarrow> bool" where
  "valid_shard n m (Data i) = (i < n)"
| "valid_shard n m (Parity r) = (r < m)"

definition packets_ok :: "built_generation \<Rightarrow> bytes list \<Rightarrow> u16 \<Rightarrow> u16 \<Rightarrow> u16 \<Rightarrow> u8 \<Rightarrow> u32 \<Rightarrow> bool" where
  "packets_ok b fs ml kk pc reason gid \<longleftrightarrow>
     (\<forall>i<length fs. bg_data b ! i = data_packet gid kk fs i) \<and>
     (\<forall>r<unat pc. \<exists>sh. parity_packets b ! r = parity_packet gid pc reason ml fs r sh \<and>
        is_shard (blocks ml fs) (unat ml + 2) r sh)"

text \<open>\<open>D\<close> and \<open>P\<close> are the data and parity datagrams that have arrived.\<close>

definition complete :: "bytes list \<Rightarrow> u32 \<Rightarrow> nat set \<Rightarrow> nat set \<Rightarrow> decoder \<Rightarrow> bool" where
  "complete fs gid D P d \<longleftrightarrow> D \<subseteq> known fs gid d \<and>
     (P \<noteq> {} \<longrightarrow> length fs \<le> card D + card P \<longrightarrow> known fs gid d = {..<length fs})"

lemma completeI:
  assumes "D \<subseteq> K" "K \<subseteq> known fs gid d" "P \<noteq> {} \<longrightarrow> length fs \<le> card K + card P \<longrightarrow> known fs gid d = {..<length fs}"
  shows "complete fs gid D P d"
proof -
  have "finite K" by (rule finite_subset [OF order_trans [OF assms(2) known_subset] finite_lessThan])
  then have "card D \<le> card K" using assms(1) by (rule card_mono)
  then have "length fs \<le> card K + card P" if "length fs \<le> card D + card P" using that by linarith
  then show ?thesis using assms unfolding complete_def by blast
qed

context publisher begin

lemma shard_step:
  assumes sent: "sent_ok fs ml kk pc reason" and pk: "packets_ok b fs ml kk pc reason gid"
    and tr: "tracking fs ml kk pc reason gid P d" and c: "complete fs gid D P d"
    and x: "valid_shard (length fs) (unat pc) x" and s: "good s" and live: "\<forall>f\<in>set fs. live f"
  shows "\<exists>d' s' ys. receive publish d (packet_of b x) now s = Inr (True, d', s') \<and>
    tracking fs ml kk pc reason gid (P \<union> {r. x = Parity r}) d' \<and>
    complete fs gid (D \<union> {i. x = Data i}) (P \<union> {r. x = Parity r}) d' \<and> good s' \<and>
    obs s' = obs s @ ys \<and> set ys \<subseteq> set fs \<and> known fs gid d \<subseteq> known fs gid d' \<and>
    (\<lambda>i. fs ! i) ` (known fs gid d' - known fs gid d) \<subseteq> set ys"
proof (cases x)
  case (Data i)
  with x have i: "i < length fs" by simp
  from data_step [OF sent tr i s live] obtain d' s' xs where
    r: "receive publish d (data_packet gid kk fs i) now s = Inr (True, d', s')"
      "tracking fs ml kk pc reason gid P d'" "good s'" "obs s' = obs s @ fs ! i # map (\<lambda>i. fs ! i) xs"
      "set xs \<subseteq> {..<length fs}" "known fs gid d' = insert i (known fs gid d) \<union> set xs"
      "P \<noteq> {} \<longrightarrow> length fs \<le> card (insert i (known fs gid d)) + card P \<longrightarrow> known fs gid d' = {..<length fs}"
    by blast
  have "complete fs gid (insert i D) P d'"
    by (rule completeI [of _ "insert i (known fs gid d)"]) (use c r in \<open>auto simp: complete_def\<close>)
  moreover have "set (fs ! i # map (\<lambda>i. fs ! i) xs) \<subseteq> set fs" using i r(5) by auto
  moreover have "(\<lambda>i. fs ! i) ` (known fs gid d' - known fs gid d) \<subseteq> set (fs ! i # map (\<lambda>i. fs ! i) xs)"
    unfolding r(6) by auto
  moreover have "packet_of b x = data_packet gid kk fs i" using pk i Data by (simp add: packets_ok_def)
  moreover have "{j. x = Data j} = {i}" "{r. x = Parity r} = {}" using Data by auto
  moreover have "known fs gid d \<subseteq> known fs gid d'" unfolding r(6) by blast
  ultimately show ?thesis using r(1-4) by (simp only: Un_empty_right Un_insert_right) blast
next
  case (Parity r)
  with x have r: "r < unat pc" by simp
  with pk obtain sh where sh: "parity_packets b ! r = parity_packet gid pc reason ml fs r sh"
      "is_shard (blocks ml fs) (unat ml + 2) r sh" by (auto simp: packets_ok_def)
  from parity_step [OF sent tr r sh(2) s live] obtain d' s' xs where
    q: "receive publish d (parity_packet gid pc reason ml fs r sh) now s = Inr (True, d', s')"
      "tracking fs ml kk pc reason gid (insert r P) d'" "good s'" "obs s' = obs s @ map (\<lambda>i. fs ! i) xs"
      "set xs \<subseteq> {..<length fs}" "known fs gid d' = known fs gid d \<union> set xs"
      "length fs \<le> card (known fs gid d) + card (insert r P) \<longrightarrow> known fs gid d' = {..<length fs}"
    by blast
  have "complete fs gid D (insert r P) d'"
    by (rule completeI [of _ "known fs gid d"]) (use c q in \<open>auto simp: complete_def\<close>)
  moreover have "set (map (\<lambda>i. fs ! i) xs) \<subseteq> set fs" using q(5) by auto
  moreover have "(\<lambda>i. fs ! i) ` (known fs gid d' - known fs gid d) \<subseteq> set (map (\<lambda>i. fs ! i) xs)"
    unfolding q(6) by auto
  moreover have "packet_of b x = parity_packet gid pc reason ml fs r sh" using sh(1) Parity by simp
  moreover have "{j. x = Data j} = {}" "{q. x = Parity q} = {r}" using Parity by auto
  moreover have "known fs gid d \<subseteq> known fs gid d'" unfolding q(6) by blast
  ultimately show ?thesis using q(1-4) by (simp only: Un_empty_right Un_insert_right) blast
qed

lemma deliver:
  assumes sent: "sent_ok fs ml kk pc reason" and pk: "packets_ok b fs ml kk pc reason gid"
    and live: "\<forall>f\<in>set fs. live f"
    and "tracking fs ml kk pc reason gid P d" and "complete fs gid D P d" and "good s"
    and "\<forall>x\<in>fst ` set xs. valid_shard (length fs) (unat pc) x"
  shows "\<exists>d' s' ys. receive_all publish d (map (\<lambda>(x, now). (packet_of b x, now)) xs) s = Inr (d', s') \<and>
    complete fs gid (D \<union> {i. Data i \<in> fst ` set xs}) (P \<union> {r. Parity r \<in> fst ` set xs}) d' \<and> good s' \<and>
    obs s' = obs s @ ys \<and> set ys \<subseteq> set fs \<and> (\<lambda>i. fs ! i) ` (known fs gid d' - known fs gid d) \<subseteq> set ys"
  using assms(4-7)
proof (induction xs arbitrary: d s D P)
  case Nil
  then show ?case by simp
next
  case (Cons a xs)
  obtain x now where a: "a = (x, now)" by fastforce
  with Cons.prems(4) have "valid_shard (length fs) (unat pc) x" by simp
  from shard_step [OF sent pk Cons.prems(1,2) this Cons.prems(3) live, of now] obtain d1 s1 ys1 where
    st: "receive publish d (packet_of b x) now s = Inr (True, d1, s1)"
      "tracking fs ml kk pc reason gid (P \<union> {r. x = Parity r}) d1"
      "complete fs gid (D \<union> {i. x = Data i}) (P \<union> {r. x = Parity r}) d1" "good s1"
      "obs s1 = obs s @ ys1" "set ys1 \<subseteq> set fs" "known fs gid d \<subseteq> known fs gid d1"
      "(\<lambda>i. fs ! i) ` (known fs gid d1 - known fs gid d) \<subseteq> set ys1" by blast
  have "\<forall>x\<in>fst ` set xs. valid_shard (length fs) (unat pc) x" using Cons.prems(4) by simp
  from Cons.IH [OF st(2,3,4) this] obtain d' s' ys where
    r: "receive_all publish d1 (map (\<lambda>(x, now). (packet_of b x, now)) xs) s1 = Inr (d', s')"
      "complete fs gid (D \<union> {i. x = Data i} \<union> {i. Data i \<in> fst ` set xs})
        (P \<union> {r. x = Parity r} \<union> {r. Parity r \<in> fst ` set xs}) d'" "good s'"
      "obs s' = obs s1 @ ys" "set ys \<subseteq> set fs" "(\<lambda>i. fs ! i) ` (known fs gid d' - known fs gid d1) \<subseteq> set ys"
    by blast
  have D: "D \<union> {i. x = Data i} \<union> {i. Data i \<in> fst ` set xs} = D \<union> {i. Data i \<in> fst ` set (a # xs)}"
      "P \<union> {r. x = Parity r} \<union> {r. Parity r \<in> fst ` set xs} = P \<union> {r. Parity r \<in> fst ` set (a # xs)}"
    by (auto simp: a)
  have "(\<lambda>i. fs ! i) ` (known fs gid d' - known fs gid d) \<subseteq> set (ys1 @ ys)"
    using r(6) st(8) by auto
  moreover have "receive_all publish d (map (\<lambda>(x, now). (packet_of b x, now)) (a # xs)) s = Inr (d', s')"
    using st(1) r(1) by (simp add: a)
  moreover have "obs s' = obs s @ (ys1 @ ys)" "set (ys1 @ ys) \<subseteq> set fs" using st(5,6) r(4,5) by simp_all
  ultimately show ?case using r(2,3) unfolding D by blast
qed

end

section \<open>Any \<open>k\<close> datagrams are enough\<close>

text \<open>A callback that accepts every frame and keeps it with its flags.\<close>

definition collect :: "(bytes \<times> bool \<times> u8) list publish" where
  "collect log f recovered reason = Inr (True, log @ [(f, recovered, reason)])"

interpretation collector: publisher collect "map fst" "\<lambda>_. True" "\<lambda>_. True"
  by unfold_locales (simp add: collect_def)

lemma sent_by_encoder:
  assumes "enc_wf e" and "\<not> enc_empty e" and "reason \<le> 2"
  shows "sent_ok (enc_frames e) (enc_max_len e) (enc_k e) (enc_parity_count e) reason"
  using assms by (simp add: sent_ok_def enc_wf_def enc_empty_def)

lemma packets_by_encoder:
  assumes "enc_wf e" and "\<not> enc_empty e" and "enc_close e gid reason = Inr (b, e')"
  shows "packets_ok b (enc_frames e) (enc_max_len e) (enc_k e) (enc_parity_count e) reason gid"
proof -
  let ?fs = "enc_frames e"
  from enc_close_ok [OF assms(1,2), of gid reason] assms(3) have
    d: "bg_data b = map (\<lambda>i. write_envelope (data_envelope gid i (enc_k e) (length (?fs ! i))) @ ?fs ! i) [0..<length ?fs]"
    and p: "\<forall>r<unat (enc_parity_count e). \<exists>s. parity_packets b ! r =
       write_envelope (parity_envelope gid r (length ?fs) (enc_parity_count e) (unat (enc_max_len e) + 2) reason) @ s \<and>
       is_shard (blocks (enc_max_len e) ?fs) (unat (enc_max_len e) + 2) r s" by auto
  show ?thesis
    unfolding packets_ok_def data_packet_def parity_packet_def using p by (simp add: d)
qed

lemma card_shards:
  assumes "finite X"
  shows "card X \<le> card {i. Data i \<in> X} + card {r. Parity r \<in> X}"
proof -
  let ?D = "{i. Data i \<in> X}" and ?P = "{r. Parity r \<in> X}"
  have "finite (Data ` ?D)" "finite (Parity ` ?P)" by (rule finite_subset [OF _ assms], auto)+
  then have fin: "finite ?D" "finite ?P" by (auto elim!: finite_imageD intro: inj_onI)
  have "x \<in> Data ` ?D \<union> Parity ` ?P" if "x \<in> X" for x using that by (cases x) auto
  then have "X \<subseteq> Data ` ?D \<union> Parity ` ?P" by blast
  then have "card X \<le> card (Data ` ?D \<union> Parity ` ?P)" using fin by (intro card_mono) auto
  also have "\<dots> \<le> card (Data ` ?D) + card (Parity ` ?P)" by (rule card_Un_le)
  also have "\<dots> \<le> card ?D + card ?P" by (intro add_mono card_image_le fin)
  finally show ?thesis .
qed

text \<open>The outcome of any arrivals at a slot that does not hold the generation yet.\<close>

lemma delivery:
  assumes e: "enc_wf e" "\<not> enc_empty e" "reason \<le> 2" "enc_close e gid reason = Inr (b, e')"
    and d: "d_wf d" "stale gid d"
    and v: "\<forall>x\<in>fst ` set xs. valid_shard (length (enc_frames e)) (unat (enc_parity_count e)) x"
  obtains d' log where "receive_all collect d (map (\<lambda>(x, now). (packet_of b x, now)) xs) [] = Inr (d', log)"
    and "set (map fst log) \<subseteq> set (enc_frames e)"
    and "complete (enc_frames e) gid {i. Data i \<in> fst ` set xs} {r. Parity r \<in> fst ` set xs} d'"
    and "(\<lambda>i. enc_frames e ! i) ` known (enc_frames e) gid d' \<subseteq> set (map fst log)"
proof -
  let ?fs = "enc_frames e" and ?ml = "enc_max_len e" and ?kk = "enc_k e" and ?pc = "enc_parity_count e"
  have tr: "tracking ?fs ?ml ?kk ?pc reason gid {} d" using d by (simp add: tracking_def)
  have k: "known ?fs gid d = {}" using d by (simp add: known_def)
  have c: "complete ?fs gid {} {} d" by (simp add: complete_def)
  have live: "\<forall>f\<in>set ?fs. True" by simp
  from collector.deliver [OF sent_by_encoder [OF e(1-3)] packets_by_encoder [OF e(1,2,4)] live tr c TrueI v, of "[]"]
  obtain d' log ys where r: "receive_all collect d (map (\<lambda>(x, now). (packet_of b x, now)) xs) [] = Inr (d', log)"
      "complete ?fs gid ({} \<union> {i. Data i \<in> fst ` set xs}) ({} \<union> {r. Parity r \<in> fst ` set xs}) d'"
      "map fst log = ys" "set ys \<subseteq> set ?fs"
      "(\<lambda>i. ?fs ! i) ` (known ?fs gid d' - known ?fs gid d) \<subseteq> set ys"
    by (elim exE conjE) simp
  have "set (map fst log) = set ys" using r(3) by simp
  show thesis
    by (rule that [OF r(1)]) (use r(2,4,5) in \<open>simp_all only: \<open>set (map fst log) = set ys\<close> Un_empty_left k Diff_empty\<close>)
qed

lemma complete_all:
  assumes "complete fs gid D P d" and "length fs \<le> card D + card P"
  shows "known fs gid d = {..<length fs}"
proof (cases "P = {}")
  case True
  have "D \<subseteq> {..<length fs}" using assms(1) known_subset [of fs gid d] by (auto simp: complete_def)
  moreover have "card {..<length fs} \<le> card D" using True assms(2) by simp
  ultimately have "D = {..<length fs}" by (intro card_seteq) auto
  then show ?thesis using assms(1) known_subset [of fs gid d] by (auto simp: complete_def)
qed (use assms in \<open>simp add: complete_def\<close>)

text \<open>A generation of two frames and two parities, and an empty decoder.\<close>

definition example_encoder :: encoder where
  "example_encoder = \<lparr>enc_k = 2, enc_parity_count = 2, enc_max_len = 3, enc_frames = [[7], [1, 2, 3]]\<rparr>"

lemma example_encoder_ok: "enc_wf example_encoder" "\<not> enc_empty example_encoder"
  by (simp_all add: example_encoder_def enc_wf_def enc_empty_def frames_ok_def kMaxGeneration_def max_frame_def)

lemma decoder_new_stale: "d_wf (decoder_new n)" "stale gid (decoder_new n)"
proof -
  show wf: "d_wf (decoder_new n)" by (simp add: d_wf_def decoder_new_def Let_def)
  have "gen_at (decoder_new n) gid = generation_init"
    using slot_index_less [OF wf, of gid] by (simp add: gen_at_def decoder_new_def Let_def)
  then show "stale gid (decoder_new n)" by (simp add: stale_def generation_init_def)
qed

text \<open>
  C5. Whatever datagrams of a closed generation arrive, in whatever order and at whatever
  times, and however often each of them: if at least as many distinct ones arrive as the generation
  has frames, the decoder publishes exactly the frames of the generation, the lost ones
  rebuilt from the parities.
\<close>

theorem fec_any_k_recover:
  assumes e: "enc_wf e" "\<not> enc_empty e" "reason \<le> 2" "enc_close e gid reason = Inr (b, e')"
    and d: "d_wf d" "stale gid d"
    and v: "\<forall>x\<in>fst ` set xs. valid_shard (length (enc_frames e)) (unat (enc_parity_count e)) x"
    and enough: "length (enc_frames e) \<le> card (fst ` set xs)"
  shows "\<exists>d' log. receive_all collect d (map (\<lambda>(x, now). (packet_of b x, now)) xs) [] = Inr (d', log) \<and>
    set (map fst log) = set (enc_frames e)"
proof -
  obtain d' log where r: "receive_all collect d (map (\<lambda>(x, now). (packet_of b x, now)) xs) [] = Inr (d', log)"
      "set (map fst log) \<subseteq> set (enc_frames e)"
      "complete (enc_frames e) gid {i. Data i \<in> fst ` set xs} {r. Parity r \<in> fst ` set xs} d'"
      "(\<lambda>i. enc_frames e ! i) ` known (enc_frames e) gid d' \<subseteq> set (map fst log)"
    using delivery [OF e d v] by blast
  have "length (enc_frames e) \<le> card {i. Data i \<in> fst ` set xs} + card {r. Parity r \<in> fst ` set xs}"
    using enough card_shards [of "fst ` set xs"] by simp
  from complete_all [OF r(3) this] have "known (enc_frames e) gid d' = {..<length (enc_frames e)}" .
  moreover have "set (enc_frames e) = (\<lambda>i. enc_frames e ! i) ` {..<length (enc_frames e)}"
    by (auto simp: set_conv_nth)
  ultimately have "set (enc_frames e) \<subseteq> set (map fst log)" using r(4) by simp
  with r(1,2) show ?thesis by blast
qed

lemma fec_any_k_recover_witness:
  "\<exists>b d' log. enc_close example_encoder 5 0 = Inr (b, example_encoder\<lparr>enc_frames := [], enc_max_len := 0\<rparr>) \<and>
    receive_all collect (decoder_new 4) [(packet_of b (Parity 1), 10), (packet_of b (Parity 0), 11)] [] = Inr (d', log) \<and>
    set (map fst log) = {[7], [1, 2, 3]}"
proof -
  note e = example_encoder_ok
  obtain b where b: "enc_close example_encoder 5 0 = Inr (b, example_encoder\<lparr>enc_frames := [], enc_max_len := 0\<rparr>)"
    using enc_close_ok [OF e, of 5 0] by blast
  let ?xs = "[(Parity 1, 10 :: u64), (Parity 0, 11)]"
  have "\<forall>x\<in>fst ` set ?xs. valid_shard (length (enc_frames example_encoder)) (unat (enc_parity_count example_encoder)) x"
    "length (enc_frames example_encoder) \<le> card (fst ` set ?xs)"
    by (simp_all add: example_encoder_def)
  from fec_any_k_recover [OF e _ b decoder_new_stale this] b show ?thesis
    by (simp add: example_encoder_def)
qed

text \<open>
  C12. Below that number nothing is invented: whatever datagrams of the generation arrive, the
  decoder throws nothing, and every frame it publishes is a frame of the generation.
\<close>

theorem fec_only_sent_frames:
  assumes e: "enc_wf e" "\<not> enc_empty e" "reason \<le> 2" "enc_close e gid reason = Inr (b, e')"
    and d: "d_wf d" "stale gid d"
    and v: "\<forall>x\<in>fst ` set xs. valid_shard (length (enc_frames e)) (unat (enc_parity_count e)) x"
  shows "\<exists>d' log. receive_all collect d (map (\<lambda>(x, now). (packet_of b x, now)) xs) [] = Inr (d', log) \<and>
    set (map fst log) \<subseteq> set (enc_frames e)"
  by (rule delivery [OF e d v]) blast

lemma fec_only_sent_frames_witness:
  "\<exists>b d' log. enc_close example_encoder 5 1 = Inr (b, example_encoder\<lparr>enc_frames := [], enc_max_len := 0\<rparr>) \<and>
    receive_all collect (decoder_new 4) [(packet_of b (Parity 1), 10)] [] = Inr (d', log) \<and>
    set (map fst log) \<subseteq> {[7], [1, 2, 3]}"
proof -
  note e = example_encoder_ok
  obtain b where b: "enc_close example_encoder 5 1 = Inr (b, example_encoder\<lparr>enc_frames := [], enc_max_len := 0\<rparr>)"
    using enc_close_ok [OF e, of 5 1] by blast
  have "\<forall>x\<in>fst ` set [(Parity 1, 10 :: u64)].
      valid_shard (length (enc_frames example_encoder)) (unat (enc_parity_count example_encoder)) x"
    by (simp add: example_encoder_def)
  from fec_only_sent_frames [OF e _ b decoder_new_stale this] b show ?thesis
    by (simp add: example_encoder_def)
qed

end
