(* ===== verification/Fec_Total.thy ===== *)
theory Fec_Total
  imports Fec_Recovery
begin

text \<open>
  The decoder on arbitrary bytes: an invariant of its state that keeps every vector access in
  range, preserved by every operation, and the fact that no datagram makes it throw.
\<close>

section \<open>The invariant\<close>

definition len_ok :: "bytes \<Rightarrow> bool" where
  "len_ok p \<longleftrightarrow> 2 \<le> length p \<and> length p \<le> max_frame + 2"

definition parities_ok :: "bytes list \<Rightarrow> bool" where
  "parities_ok ps \<longleftrightarrow> (ps = [] \<or> length ps = 16) \<and> (\<forall>p\<in>set ps. p \<noteq> [] \<longrightarrow> len_ok p) \<and>
     (\<forall>p\<in>set ps. \<forall>q\<in>set ps. p \<noteq> [] \<longrightarrow> q \<noteq> [] \<longrightarrow> length p = length q)"

lemma parities_okI:
  assumes "ps = [] \<or> length ps = 16" and "\<And>p. p \<in> set ps \<Longrightarrow> p \<noteq> [] \<Longrightarrow> len_ok p \<and> length p = w"
  shows "parities_ok ps"
  using assms unfolding parities_ok_def by metis

lemma parities_okD:
  assumes "parities_ok ps"
  shows "ps = [] \<or> length ps = 16" and "p \<in> set ps \<Longrightarrow> p \<noteq> [] \<Longrightarrow> len_ok p"
  using assms unfolding parities_ok_def by blast+

lemma parities_ok_empty: "parities_ok (replicate 16 [])"
  by (simp add: parities_ok_def del: replicate.simps)

definition gen_ok :: "generation \<Rightarrow> bool" where
  "gen_ok g \<longleftrightarrow> length (g_received g) = length (g_data g) \<and> length (g_data g) \<le> 128 \<and>
     unat (g_k g) \<le> length (g_data g) \<and>
     (\<forall>i<length (g_data g). g_received g ! i \<longrightarrow> len_ok (g_data g ! i)) \<and> parities_ok (g_parities g)"

definition counters_ok :: "fec_counters \<Rightarrow> bool" where
  "counters_ok c \<longleftrightarrow> fc_recovered c = fc_recovered_by_k c + fc_recovered_by_timeout c + fc_recovered_by_flush c"

definition samples_ok :: "decoder \<Rightarrow> bool" where
  "samples_ok d \<longleftrightarrow> length (d_recovery_latencies d) \<le> kSampleLimit \<and> length (d_recovery_by_k d) \<le> kSampleLimit \<and>
     length (d_recovery_by_timeout d) \<le> kSampleLimit \<and> length (d_recovery_by_flush d) \<le> kSampleLimit"

definition decoder_ok :: "decoder \<Rightarrow> bool" where
  "decoder_ok d \<longleftrightarrow> d_wf d \<and> (\<forall>g\<in>set (d_slots d). gen_ok g) \<and> counters_ok (d_counters d) \<and> samples_ok d"

definition never_throws :: "'s publish \<Rightarrow> bool" where
  "never_throws publish \<longleftrightarrow> (\<forall>s f rc reason. \<exists>ok s'. publish s f rc reason = Inr (ok, s'))"

lemma gen_ok_init [simp]: "gen_ok generation_init"
  by (simp add: gen_ok_def generation_init_def parities_ok_def)

lemma gen_ok_flags [simp]:
  "gen_ok (g\<lparr>g_unrecoverable_counted := a\<rparr>) = gen_ok g" "gen_ok (g\<lparr>g_recovered := a\<rparr>) = gen_ok g"
  "gen_ok (touch now g) = gen_ok g"
  by (simp_all add: gen_ok_def touch_def)

lemma decoder_ok_put:
  assumes "decoder_ok d" and "gen_ok g"
  shows "decoder_ok (put_gen d gid g)"
proof -
  have "set ((d_slots d)[slot_index d gid := g]) \<subseteq> insert g (set (d_slots d))" by (rule set_update_subset_insert)
  then show ?thesis using assms by (auto simp: decoder_ok_def put_gen_def d_wf_def samples_ok_def)
qed

lemma decoder_ok_gen: "decoder_ok d \<Longrightarrow> gen_ok (gen_at d gid)"
  using slot_index_less [of d gid] nth_mem by (auto simp: decoder_ok_def gen_at_def)

lemma decoder_ok_counters: "decoder_ok d \<Longrightarrow> counters_ok c \<Longrightarrow> decoder_ok (d\<lparr>d_counters := c\<rparr>)"
  by (simp add: decoder_ok_def samples_ok_def)

lemma decoder_ok_latency: "decoder_ok d \<Longrightarrow> decoder_ok (record_latency r l d)"
  by (auto simp: decoder_ok_def samples_ok_def record_latency_def Let_def d_wf_def intro: sample_bound)

lemma counters_ok_finalize: "counters_ok c \<Longrightarrow> counters_ok (fst (finalize c g))"
  by (simp add: finalize_def counters_ok_def)

lemma gen_ok_finalize: "gen_ok g \<Longrightarrow> gen_ok (snd (finalize c g))"
  by (simp add: finalize_def)

lemma counters_ok_recovered: "counters_ok c \<Longrightarrow> counters_ok (count_recovered r c)"
  by (simp add: count_recovered_def counters_ok_def Let_def)

lemma decoder_ok_new: "decoder_ok (decoder_new n)"
  by (auto simp: decoder_ok_def d_wf_def decoder_new_def Let_def counters_ok_def samples_ok_def)

section \<open>Recovery never throws\<close>

lemma coefficient_total: "r < 128 \<Longrightarrow> c < 128 \<Longrightarrow> \<exists>b. coefficient (of_nat r) (of_nat c) = Inr b"
  using coefficient_field by blast

lemma reduce_known_total:
  assumes "row < 128" and "\<forall>c\<in>set cs. c < 128" and "length rhs = w"
  shows "\<exists>r. reduce_known g w row cs rhs = Inr r \<and> (\<forall>b. r = Some b \<longrightarrow> length b = w)"
  using assms(2,3)
proof (induction cs arbitrary: rhs)
  case (Cons c cs)
  obtain f where f: "coefficient (of_nat row) (of_nat c) = Inr f"
    using coefficient_total [OF assms(1), of c] Cons.prems by auto
  show ?case
  proof (cases "g_received g ! c \<and> length (g_data g ! c) \<le> w")
    case True
    then have "length (xor_into rhs (map (mul f) (g_data g ! c))) = w" using Cons.prems(2) by simp
    with Cons f True show ?thesis by simp
  qed (use Cons in auto)
qed simp

lemma build_system_total:
  assumes ab: "\<forall>c\<in>set ab. c < 128" and k: "unat (g_k g) \<le> 128"
    and "\<forall>r\<in>set rows. r < 128 \<and> length (g_parities g ! r) = w"
  shows "\<exists>sys. build_system g w ab rows = Inr sys \<and> (\<forall>m b. sys = Some (m, b) \<longrightarrow>
    rect (length rows) (length ab) m \<and> rect (length rows) w b \<and>
    (\<forall>i<length rows. \<forall>j<length ab. gm m i j = gcoef (rows ! i) (ab ! j)))"
  using assms(3)
proof (induction rows)
  case (Cons row rows)
  then obtain sys where sys: "build_system g w ab rows = Inr sys" and IH: "\<forall>m b. sys = Some (m, b) \<longrightarrow>
      rect (length rows) (length ab) m \<and> rect (length rows) w b \<and>
      (\<forall>i<length rows. \<forall>j<length ab. gm m i j = gcoef (rows ! i) (ab ! j))" by auto
  have row: "row < 128" "length (g_parities g ! row) = w" using Cons.prems by auto
  obtain coefs where c: "mapM_exn (\<lambda>c. coefficient (of_nat row) (of_nat c)) ab = Inr coefs"
      "length coefs = length ab" "\<forall>j<length ab. gf_of (coefs ! j) = gcoef row (ab ! j)"
    using coefficients_ok [OF row(1)] ab by blast
  obtain r where r: "reduce_known g w row [0..<unat (g_k g)] (g_parities g ! row) = Inr r"
      "\<forall>b. r = Some b \<longrightarrow> length b = w"
    using reduce_known_total [OF row(1) _ row(2), of "[0..<unat (g_k g)]" g] k by auto
  show ?case
  proof (cases "r = None \<or> sys = None")
    case True
    then show ?thesis using c(1) r(1) sys by (cases r) auto
  next
    case False
    then obtain b0 m b where s: "r = Some b0" "sys = Some (m, b)" by auto
    then have "build_system g w ab (row # rows) = Inr (Some (coefs # m, b0 # b))"
      using c(1) r(1) sys by simp
    moreover have "rect (length (row # rows)) (length ab) (coefs # m)" "rect (length (row # rows)) w (b0 # b)"
      using c(2) r(2) IH s by (auto simp: rect_def nth_Cons')
    moreover have "gm (coefs # m) i j = gcoef ((row # rows) ! i) (ab ! j)"
      if "i < length (row # rows)" "j < length ab" for i j
      using that c(3) IH s by (cases i) (auto simp: gm_def)
    ultimately show ?thesis by blast
  qed
qed (simp add: rect_def)

lemma cauchy_gauss:
  assumes "distinct rows" "distinct ab" "length rows = length ab" "\<forall>r\<in>set rows. r < 128" "\<forall>c\<in>set ab. c < 128"
    and "rect (length rows) (length ab) m" "rect (length rows) w b"
    and m: "\<forall>i<length rows. \<forall>j<length ab. gm m i j = gcoef (rows ! i) (ab ! j)"
  shows "\<exists>res. gauss [0..<length ab] m b = Inr (Some res) \<and> rect (length ab) w res"
proof -
  have "set rows \<subseteq> {..<128}" "set ab \<subseteq> {..<128}" using assms(4,5) by auto
  then have "regular (length ab) (\<lambda>i j. gcoef (rows ! i) (ab ! j))"
    using cauchy.sub_regular assms(1-3) by blast
  moreover have "regular (length ab) (gm m) = regular (length ab) (\<lambda>i j. gcoef (rows ! i) (ab ! j))"
    using m assms(3) by (intro regular_cong) simp
  ultimately have "regular (length ab) (gm m)" by blast
  then show ?thesis using gauss_total assms(3,6,7) by simp
qed

lemma publish_rows_total:
  assumes nt: "never_throws publish"
    and "\<forall>x\<in>set rows. fst x < length (g_data g) \<and> len_ok (snd x)" and "gen_ok g" and "counters_ok c"
  shows "\<exists>ok g' c' s'. publish_rows publish rows g c s = Inr (ok, g', c', s') \<and> gen_ok g' \<and> counters_ok c'"
  using assms(2-4)
proof (induction rows arbitrary: g c s)
  case (Cons x rows)
  obtain i row where x: "x = (i, row)" by fastforce
  obtain ok s1 where p: "publish s (take (unat (fec_get_u16 row)) (drop 2 row)) True (g_close_reason g) = Inr (ok, s1)"
    using nt unfolding never_throws_def by blast
  let ?g = "g\<lparr>g_received := (g_received g)[i := True], g_data := (g_data g)[i := row]\<rparr>"
  have i: "i < length (g_data g)" "len_ok row" using Cons.prems(1) x by auto
  have "gen_ok ?g" using Cons.prems(2) i by (auto simp: gen_ok_def nth_list_update)
  from Cons.IH [OF _ this counters_ok_recovered [OF Cons.prems(3)], of "g_close_reason g" s1] Cons.prems
  show ?case using p by (cases ok) (auto simp: x)
qed auto

lemma try_recover_total:
  assumes nt: "never_throws publish" and ok: "decoder_ok d"
  shows "\<exists>b d' s'. try_recover publish d gid now s = Inr (b, d', s') \<and> decoder_ok d'"
proof -
  define g where "g = gen_at d gid"
  have g: "gen_ok g" using decoder_ok_gen [OF ok] by (simp add: g_def)
  define ab where "ab = filter (\<lambda>i. \<not> g_received g ! i) [0..<unat (g_k g)]"
  define rows where "rows = filter (\<lambda>i. g_parities g ! i \<noteq> []) [0..<length (g_parities g)]"
  define rs where "rs = take (length ab) rows"
  define w where "w = length (g_parities g ! (rs ! 0))"
  have ab: "\<forall>c\<in>set ab. c < 128 \<and> c < length (g_data g)" "distinct ab" and k: "unat (g_k g) \<le> 128"
    using g by (auto simp: ab_def gen_ok_def)
  show ?thesis
  proof (cases "\<not> g_parity_received g \<or> g_recovered g \<or> g_k g = 0 \<or> length ab = 0 \<or> length rows < length ab")
    case True
    then have "try_recover publish d gid now s = Inr (True, d, s)"
      unfolding try_recover_def Let_def g_def [symmetric] ab_def [symmetric] rows_def [symmetric] by auto
    with ok show ?thesis by blast
  next
    case False
    then have c: "(\<not> g_parity_received g \<or> g_recovered g \<or> g_k g = 0) = False" "(length ab = 0) = False"
      "(length rows < length ab) = False" by auto
    have len: "length rs = length ab" using False by (simp add: rs_def)
    have "set rs \<subseteq> set rows" by (auto simp: rs_def dest: in_set_takeD)
    moreover have par: "parities_ok (g_parities g)" using g by (simp add: gen_ok_def)
    ultimately have nz: "r < 128 \<and> g_parities g ! r \<in> set (g_parities g) \<and> g_parities g ! r \<noteq> []"
      if "r \<in> set rs" for r using that by (auto simp: rows_def parities_ok_def)
    have "rs ! 0 \<in> set rs" using len False by (intro nth_mem) auto
    then have w: "r < 128 \<and> length (g_parities g ! r) = w" if "r \<in> set rs" for r
      using nz [OF that] nz [of "rs ! 0"] par unfolding parities_ok_def w_def by blast
    have w2: "2 \<le> w" "w \<le> max_frame + 2"
      using nz [OF \<open>rs ! 0 \<in> set rs\<close>] par by (auto simp: parities_ok_def w_def len_ok_def)
    have "\<forall>c\<in>set ab. c < 128" using ab(1) by blast
    from build_system_total [OF this k, of rs w] w obtain sys where
      sys: "build_system g w ab rs = Inr sys" and rect: "\<forall>m b. sys = Some (m, b) \<longrightarrow>
        rect (length rs) (length ab) m \<and> rect (length rs) w b \<and>
        (\<forall>i<length rs. \<forall>j<length ab. gm m i j = gcoef (rs ! i) (ab ! j))" by blast
    note unf = try_recover_def Let_def g_def [symmetric] ab_def [symmetric] rows_def [symmetric]
      rs_def [symmetric] w_def [symmetric]
    show ?thesis
    proof (cases sys)
      case None
      then have "try_recover publish d gid now s = Inr (False, d, s)"
        unfolding unf by (simp only: c sys if_False bind_exn_simps option.case)
      with ok show ?thesis by blast
    next
      case (Some x)
      then obtain m b where mb: "sys = Some (m, b)" by (cases x) auto
      have "distinct rs" by (simp add: rs_def rows_def)
      moreover have "\<forall>r\<in>set rs. r < 128" using w by blast
      moreover note \<open>\<forall>c\<in>set ab. c < 128\<close>
      moreover have "rect (length rs) (length ab) m" "rect (length rs) w b"
        "\<forall>i<length rs. \<forall>j<length ab. gm m i j = gcoef (rs ! i) (ab ! j)" using rect mb by simp_all
      ultimately obtain res where
        res: "gauss [0..<length ab] m b = Inr (Some res)" "rect (length ab) w res"
        using cauchy_gauss [OF _ ab(2) len] by blast
      show ?thesis
      proof (cases "list_ex (bad_row w) res")
        case True
        then have "try_recover publish d gid now s = Inr (False, d, s)"
          unfolding unf by (simp only: c sys mb res if_False if_True bind_exn_simps option.case prod.case)
        with ok show ?thesis by blast
      next
        case False
        have "\<forall>q\<in>set res. len_ok q" using res(2) w2 by (auto simp: rect_def len_ok_def in_set_conv_nth)
        moreover have "fst x \<in> set ab \<and> snd x \<in> set res" if "x \<in> set (zip ab res)" for x
          using that by (metis prod.collapse set_zip_leftD set_zip_rightD)
        ultimately have "\<forall>x\<in>set (zip ab res). fst x < length (g_data g) \<and> len_ok (snd x)"
          using ab(1) by blast
        moreover have "counters_ok (d_counters d)" using ok by (simp add: decoder_ok_def)
        ultimately obtain q g' c' s' where
          q: "publish_rows publish (zip ab res) g (d_counters d) s = Inr (q, g', c', s')" "gen_ok g'" "counters_ok c'"
          using publish_rows_total [OF nt _ g] by blast
        define d1 where "d1 = put_gen (d\<lparr>d_counters := c'\<rparr>) gid g'"
        have d1: "decoder_ok d1" using ok q by (simp add: d1_def decoder_ok_put decoder_ok_counters)
        then have d2: "decoder_ok (record_latency r l (put_gen d1 gid (g'\<lparr>g_recovered := True\<rparr>)))" for r l
          using q(2) by (intro decoder_ok_latency decoder_ok_put) simp_all
        have "\<exists>r l. try_recover publish d gid now s =
          Inr (if q then (True, record_latency r l (put_gen d1 gid (g'\<lparr>g_recovered := True\<rparr>)), s') else (False, d1, s'))"
          unfolding unf using False
          by (cases q) (simp_all only: c sys mb res q if_False if_True bind_exn_simps option.case prod.case d1_def
              not_True_eq_False not_False_eq_True, blast+)
        then show ?thesis using d1 d2 by (cases q) auto
      qed
    qed
  qed
qed

section \<open>Every operation keeps the invariant\<close>

lemma slot_ok:
  assumes "decoder_ok d" and "gen_ok g"
  shows "decoder_ok (put_gen (slot d gid k now) gid g)"
proof (cases "stale gid d")
  case True
  have "put_gen (put_gen d' gid g') gid g = put_gen d' gid g" for d' g' by (simp add: put_gen_def slot_index_def)
  then have "put_gen (slot d gid k now) gid g =
      put_gen (d\<lparr>d_counters := fst (finalize (d_counters d) (gen_at d gid))\<rparr>) gid g"
    using True by (simp add: slot_def stale_def Let_def)
  moreover have "counters_ok (d_counters d)" using assms(1) by (simp add: decoder_ok_def)
  ultimately show ?thesis using assms by (simp add: decoder_ok_put decoder_ok_counters counters_ok_finalize)
next
  case False
  then have "slot d gid k now = d" using assms(1) by (intro slot_fresh(4)) (simp_all add: decoder_ok_def)
  then show ?thesis using assms by (simp add: decoder_ok_put)
qed

lemma ensure_ok:
  assumes "length (g_received g) = length (g_data g)" "length (g_data g) \<le> 128"
    "\<forall>i<length (g_data g). g_received g ! i \<longrightarrow> len_ok (g_data g ! i)" "parities_ok (g_parities g)"
    and "0 < unat k" "unat k \<le> 128" "unat (g_k g) \<le> 128"
  shows "gen_ok (ensure g k)" and "unat (g_k (ensure g k)) \<le> length (g_data (ensure g k))"
proof -
  have "gen_ok (ensure g k)"
  proof (cases "length (g_data g) < unat (if g_k g = 0 \<or> k < g_k g then k else g_k g)")
    case True
    then show ?thesis
      using assms by (auto simp: ensure_def Let_def gen_ok_def resize_def nth_append word_less_nat_alt)
  next
    case False
    then show ?thesis using assms by (auto simp: ensure_def Let_def gen_ok_def)
  qed
  then show "gen_ok (ensure g k)" "unat (g_k (ensure g k)) \<le> length (g_data (ensure g k))" by (simp_all add: gen_ok_def)
qed

text \<open>The generation a datagram meets: a new one, or the one its slot holds.\<close>

lemma slot_gen:
  assumes "decoder_ok d" and "0 < unat k" "unat k \<le> 128" and "g = gen_at (slot d gid k now) gid"
  shows "gen_ok (ensure g k)"
    and "decoder_ok (slot d gid k now) \<or> (g_k g = k \<and> \<not> g_parity_received g \<and> g_received g = [])"
proof -
  have wf: "d_wf d" using assms(1) by (simp add: decoder_ok_def)
  show "gen_ok (ensure g k)"
  proof (cases "stale gid d")
    case True
    then show ?thesis
      using slot_fresh(3) [OF wf True, of k now] assms(2-4)
      by (intro ensure_ok) (simp_all add: generation_init_def parities_ok_def)
  next
    case False
    then have "gen_ok g" using slot_fresh(4) [OF wf False, of k now] decoder_ok_gen [OF assms(1)] assms(4) by simp
    then show ?thesis using assms(2,3) by (intro ensure_ok) (auto simp: gen_ok_def)
  qed
  show "decoder_ok (slot d gid k now) \<or> (g_k g = k \<and> \<not> g_parity_received g \<and> g_received g = [])"
    using slot_fresh(3,4) [OF wf] assms(1,4) by (cases "stale gid d") (simp_all add: generation_init_def)
qed

lemma receive_data_total:
  assumes nt: "never_throws publish" and ok: "decoder_ok d" and k: "0 < unat (e_k env)" "unat (e_k env) \<le> 128"
  shows "\<exists>b d' s'. receive_data publish d env payload now s = Inr (b, d', s') \<and> decoder_ok d'"
proof (cases "payload = [] \<or> length payload \<noteq> unat (e_protected_len env) \<or>
    unat (e_protected_len env) > max_frame \<or> e_index env \<ge> e_k env")
  case True
  with ok show ?thesis by (auto simp: receive_data_def)
next
  case c1: False
  define d1 where "d1 = slot d (e_gen_id env) (e_k env) now"
  define g where "g = gen_at d1 (e_gen_id env)"
  note sg = slot_gen [OF ok k g_def [unfolded d1_def]]
  have put: "decoder_ok (put_gen d1 (e_gen_id env) g')" if "gen_ok g'" for g'
    unfolding d1_def by (rule slot_ok [OF ok that])
  note unf = receive_data_def Let_def d1_def [symmetric] g_def [symmetric]
  show ?thesis
  proof (cases "e_k env < g_k g \<or> (\<not> g_parity_received g \<and> e_k env \<noteq> g_k g)")
    case True
    then have "decoder_ok d1" using sg(2) by (auto simp: d1_def)
    moreover have "receive_data publish d env payload now s = Inr (False, d1, s)"
      unfolding unf using c1 True by auto
    ultimately show ?thesis by blast
  next
    case c2: False
    define g1 where "g1 = ensure g (e_k env)"
    have g1: "gen_ok g1" using sg(1) by (simp add: g1_def)
    obtain b s1 where p: "publish s payload False (g_close_reason (touch now g1)) = Inr (b, s1)"
      using nt unfolding never_throws_def by blast
    define g2 where "g2 = (touch now g1)\<lparr>g_data := (g_data (touch now g1))[unat (e_index env) :=
        protected_frame payload (e_protected_len env) (e_protected_len env)],
        g_received := (g_received (touch now g1))[unat (e_index env) := True]\<rparr>"
    have "len_ok (protected_frame payload (e_protected_len env) (e_protected_len env))"
      using c1 protected_frame_unpack(1) [of payload "e_protected_len env" "e_protected_len env"]
      by (simp add: len_ok_def)
    then have "gen_ok g2" if "\<not> e_index env \<ge> g_k g1"
      using g1 that by (auto simp: g2_def gen_ok_def touch_def nth_list_update word_le_nat_alt)
    then have "\<not> e_index env \<ge> g_k g1 \<Longrightarrow> \<exists>b d' s'. try_recover publish (put_gen d1 (e_gen_id env) g2) (e_gen_id env) now s1 =
        Inr (b, d', s') \<and> decoder_ok d'"
      using try_recover_total [OF nt put] by blast
    moreover have "receive_data publish d env payload now s =
        (if e_index env \<ge> g_k g1 then Inr (False, put_gen d1 (e_gen_id env) g1, s)
         else if \<not> b then Inr (False, put_gen d1 (e_gen_id env) (touch now g1), s1)
         else try_recover publish (put_gen d1 (e_gen_id env) g2) (e_gen_id env) now s1)"
      unfolding unf g1_def [symmetric] if_not_P [OF c1] if_not_P [OF c2] p bind_exn_simps prod.case g2_def by (rule refl)
    moreover have "decoder_ok (put_gen d1 (e_gen_id env) g1)" "decoder_ok (put_gen d1 (e_gen_id env) (touch now g1))"
      using put g1 by simp_all
    ultimately show ?thesis by (cases "e_index env \<ge> g_k g1"; cases b) auto
  qed
qed

lemma receive_parity_total:
  assumes nt: "never_throws publish" and ok: "decoder_ok d" and k: "0 < unat (e_k env)" "unat (e_k env) \<le> 128"
  shows "\<exists>b d' s'. receive_parity publish d env payload now s = Inr (b, d', s') \<and> decoder_ok d'"
proof (cases "unat (e_parity_count env) > 16 \<or> e_index env < e_k env \<or>
    unat (e_index env) \<ge> unat (e_k env) + unat (e_parity_count env) \<or>
    unat (e_protected_len env) \<noteq> length payload \<or> length payload < 2 \<or> length payload > max_frame + 2")
  case True
  with ok show ?thesis by (auto simp: receive_parity_def)
next
  case c1: False
  define d0 where "d0 = d\<lparr>d_counters := (d_counters d)\<lparr>fc_parity_received := fc_parity_received (d_counters d) + 1\<rparr>\<rparr>"
  have ok0: "decoder_ok d0"
    unfolding d0_def by (rule decoder_ok_counters [OF ok]) (use ok in \<open>simp add: decoder_ok_def counters_ok_def\<close>)
  define d1 where "d1 = slot d0 (e_gen_id env) (e_k env) now"
  define g where "g = gen_at d1 (e_gen_id env)"
  note sg = slot_gen [OF ok0 k g_def [unfolded d1_def]]
  have put: "decoder_ok (put_gen d1 (e_gen_id env) g')" if "gen_ok g'" for g'
    unfolding d1_def by (rule slot_ok [OF ok0 that])
  note unf = receive_parity_def Let_def d0_def [symmetric] d1_def [symmetric] g_def [symmetric]
  let ?c = "\<lambda>g. g_parity_received g \<and> (g_k g \<noteq> e_k env \<or> g_parity_count g \<noteq> e_parity_count env \<or>
      g_close_reason g \<noteq> e_close_reason env)"
  show ?thesis
  proof (cases "?c g \<or> e_k env > g_k g \<or> list_ex (\<lambda>r. r) (drop (unat (e_k env)) (g_received g))")
    case True
    then have "decoder_ok d1" using sg(2) by (auto simp: d1_def)
    moreover have "receive_parity publish d env payload now s = Inr (False, d1, s)"
      unfolding unf if_not_P [OF c1] using True by auto
    ultimately show ?thesis by blast
  next
    case False
    then have c2: "\<not> ?c g" "\<not> e_k env > g_k g" "\<not> list_ex (\<lambda>r. r) (drop (unat (e_k env)) (g_received g))" by auto
    define row where "row = unat (e_index env) - unat (e_k env)"
    define g1 where "g1 = (touch now (ensure g (e_k env)))\<lparr>g_close_reason := e_close_reason env,
        g_parity_count := e_parity_count env\<rparr>"
    define g2 where "g2 = (if g_parities g1 = [] then g1\<lparr>g_parities := replicate 16 []\<rparr> else g1)"
    define g3 where "g3 = g2\<lparr>g_parities := (g_parities g2)[row := payload], g_parity_received := True\<rparr>"
    have "gen_ok (touch now (ensure g (e_k env)))" using sg(1) by simp
    then have "gen_ok g1" by (simp add: g1_def gen_ok_def)
    then have g2: "gen_ok g2" using parities_ok_empty by (simp add: g2_def gen_ok_def)
    have eq: "receive_parity publish d env payload now s =
        (if list_ex (\<lambda>p. p \<noteq> [] \<and> length p \<noteq> length payload) (g_parities g2)
         then Inr (False, put_gen d1 (e_gen_id env) g2, s)
         else try_recover publish (put_gen d1 (e_gen_id env) g3) (e_gen_id env) now s)"
      unfolding unf if_not_P [OF c1] if_not_P [OF c2(1)] if_not_P [OF c2(2)] if_not_P [OF c2(3)]
        row_def [symmetric] g1_def [symmetric] g2_def [symmetric] g3_def by (rule refl)
    have g3: "gen_ok g3" if same: "\<not> list_ex (\<lambda>p. p \<noteq> [] \<and> length p \<noteq> length payload) (g_parities g2)"
    proof -
      have po: "parities_ok (g_parities g2)" using g2 by (simp add: gen_ok_def)
      have "len_ok payload" using c1 by (simp add: len_ok_def)
      have all: "len_ok p \<and> length p = length payload" if p: "p \<in> set ((g_parities g2)[row := payload])" "p \<noteq> []" for p
      proof (cases "p = payload")
        case False
        then have "p \<in> set (g_parities g2)" using p(1) set_update_subset_insert by fastforce
        with p(2) show ?thesis using parities_okD(2) [OF po] same unfolding list_ex_iff by blast
      qed (use \<open>len_ok payload\<close> in simp)
      have "parities_ok ((g_parities g2)[row := payload])"
        by (rule parities_okI [OF _ all]) (use parities_okD(1) [OF po] in simp_all)
      then show ?thesis using g2 by (simp add: g3_def gen_ok_def)
    qed
    show ?thesis
    proof (cases "list_ex (\<lambda>p. p \<noteq> [] \<and> length p \<noteq> length payload) (g_parities g2)")
      case True
      with put [OF g2] show ?thesis unfolding eq by simp blast
    next
      case False
      with try_recover_total [OF nt put [OF g3 [OF False]]] show ?thesis unfolding eq by simp
    qed
  qed
qed

lemma receive_ok:
  assumes nt: "never_throws publish" and ok: "decoder_ok d"
  shows "\<exists>b d' s'. receive publish d data now s = Inr (b, d', s') \<and> decoder_ok d'"
proof -
  obtain b s1 where "publish s data False 0 = Inr (b, s1)" using nt unfolding never_throws_def by blast
  then have pt: "pass_through publish d data s = Inr (b, d, s1)" by (simp add: pass_through_def)
  show ?thesis
  proof (cases "length data < kEnvelopeSize")
    case True
    then show ?thesis using pt ok by (simp add: receive_def)
  next
    case False
    then have "17 \<le> length data" by (simp add: kEnvelopeSize_def)
    then obtain env where env: "read_envelope data = Inr env" by (rule read_envelope_total)
    show ?thesis
    proof (cases "e_magic env \<noteq> fec_magic \<or> e_k env = 0 \<or> unat (e_k env) > kMaxGeneration \<or> e_close_reason env > 2")
      case True
      then show ?thesis using False env pt ok by (auto simp: receive_def)
    next
      case k: False
      then have "0 < unat (e_k env)" "unat (e_k env) \<le> 128" by (auto simp: unat_gt_0 kMaxGeneration_def)
      note t = receive_data_total [OF nt ok this, of "drop kEnvelopeSize data" now s]
        receive_parity_total [OF nt ok this, of "drop kEnvelopeSize data" now s]
      have "receive publish d data now s = (if e_parity_count env = 0
          then receive_data publish d env (drop kEnvelopeSize data) now s
          else receive_parity publish d env (drop kEnvelopeSize data) now s)"
        using False env k by (simp add: receive_def Let_def)
      with t show ?thesis by simp
    qed
  qed
qed

lemma finalize_all_Cons:
  "finalize_all sel after c (g # gs) =
    (if sel g then (fst (finalize_all sel after (fst (finalize c g)) gs),
       after (snd (finalize c g)) # snd (finalize_all sel after (fst (finalize c g)) gs))
     else (fst (finalize_all sel after c gs), g # snd (finalize_all sel after c gs)))"
  by (simp add: Let_def split: prod.split)

declare finalize_all.simps(2) [simp del]

lemma finalize_all_ok:
  assumes "counters_ok c" and "\<forall>g\<in>set gs. gen_ok g" and "\<forall>g. gen_ok g \<longrightarrow> gen_ok (after g)"
  shows "counters_ok (fst (finalize_all sel after c gs)) \<and> (\<forall>g\<in>set (snd (finalize_all sel after c gs)). gen_ok g) \<and>
    length (snd (finalize_all sel after c gs)) = length gs"
  using assms(1,2)
proof (induction gs arbitrary: c)
  case (Cons g gs)
  have "gen_ok (snd (finalize c g))" using gen_ok_finalize [of g c] Cons.prems(2) by simp
  then have "gen_ok (after (snd (finalize c g)))" by (rule mp [OF spec [OF assms(3)]])
  moreover have "counters_ok (fst (finalize c g))" using Cons.prems(1) by (rule counters_ok_finalize)
  moreover have gs: "\<forall>g\<in>set gs. gen_ok g" and g: "gen_ok g" using Cons.prems(2) by simp_all
  ultimately show ?case
    using Cons.IH [OF _ gs] Cons.prems(1) unfolding finalize_all_Cons
    by (cases "sel g") (simp_all only: if_True if_False fst_conv snd_conv list.set ball_simps length_Cons, blast+)
qed simp

lemma decoder_ok_finalize_all:
  assumes "decoder_ok d" and "\<forall>g. gen_ok g \<longrightarrow> gen_ok (after g)"
  shows "decoder_ok (let (c, gs) = finalize_all sel after (d_counters d) (d_slots d) in d\<lparr>d_counters := c, d_slots := gs\<rparr>)"
proof -
  have c: "counters_ok (d_counters d)" "\<forall>g\<in>set (d_slots d). gen_ok g" using assms(1) by (simp_all add: decoder_ok_def)
  show ?thesis
    using finalize_all_ok [OF c assms(2), where sel = sel] assms(1)
    by (simp add: decoder_ok_def d_wf_def samples_ok_def Let_def case_prod_unfold)
qed

lemma decoder_ok_expire: "decoder_ok d \<Longrightarrow> decoder_ok (expire d now ttl)"
  unfolding expire_def by (rule decoder_ok_finalize_all) simp_all

lemma decoder_ok_retire: "decoder_ok d \<Longrightarrow> decoder_ok (retire_all d)"
  unfolding retire_all_def by (rule decoder_ok_finalize_all) simp_all

section \<open>What the receiver can rely on\<close>

text \<open>The states a decoder reaches through its public operations, on any datagrams.\<close>

inductive decoder_reachable :: "'s publish \<Rightarrow> decoder \<Rightarrow> bool" for publish where
  new: "decoder_reachable publish (decoder_new gens)"
| receive: "decoder_reachable publish d \<Longrightarrow> receive publish d data now s = Inr (b, d', s') \<Longrightarrow>
    decoder_reachable publish d'"
| expire: "decoder_reachable publish d \<Longrightarrow> decoder_reachable publish (expire d now ttl)"
| retire_all: "decoder_reachable publish d \<Longrightarrow> decoder_reachable publish (retire_all d)"

lemma receive_keeps_ok:
  "never_throws publish \<Longrightarrow> decoder_ok d \<Longrightarrow> receive publish d data now s = Inr (b, d', s') \<Longrightarrow> decoder_ok d'"
  using receive_ok [of publish d data now s] by auto

lemma reachable_ok:
  assumes "decoder_reachable publish d" and "never_throws publish"
  shows "decoder_ok d"
  using assms(1)
proof induction
  case (receive d data now s b d' s')
  then show ?case using receive_keeps_ok [OF assms(2)] by blast
qed (simp_all add: decoder_ok_new decoder_ok_expire decoder_ok_retire)

text \<open>
  C13. The decoder is total on hostile input: in every state it can reach, for every byte
  string and every time, \<open>receive\<close> returns normally (no inverse of zero, no missing pivot,
  no truncated envelope), provided the callback does, and the state it leaves satisfies the
  invariant that keeps all of its vector accesses in range, its counters consistent and its
  sample reservoirs bounded.
\<close>

theorem decoder_receive_total:
  assumes "decoder_reachable publish d" and "never_throws publish"
  shows "\<exists>b d' s'. receive publish d data now s = Inr (b, d', s') \<and> decoder_ok d'"
  using receive_ok [OF assms(2) reachable_ok [OF assms]] .

lemma decoder_receive_total_witness:
  "\<exists>b d' s'. receive (\<lambda>s f rc reason. Inr (True, Suc s)) (decoder_new 2) (replicate 40 70) 5 (0 :: nat) = Inr (b, d', s') \<and>
    decoder_ok d'"
  by (rule decoder_receive_total) (auto simp: never_throws_def intro: decoder_reachable.new)

lemma finalize_all_const:
  "snd (finalize_all sel (\<lambda>_. x) c gs) = map (\<lambda>g. if sel g then x else g) gs"
  by (induction gs arbitrary: c) (simp_all add: finalize_all_Cons)

text \<open>
  A generation is lost when its parity came, a frame of it is missing and it was not counted
  before.
\<close>

definition newly_lost :: "generation \<Rightarrow> bool" where
  "newly_lost g \<longleftrightarrow> g_active g \<and> g_parity_received g \<and> \<not> g_recovered g \<and> \<not> g_unrecoverable_counted g \<and>
     g_k g \<noteq> 0 \<and> (\<exists>i<unat (g_k g). i \<ge> length (g_received g) \<or> \<not> g_received g ! i)"

lemma finalize_count:
  "fc_unrecoverable_gens (fst (finalize c g)) = fc_unrecoverable_gens c + of_bool (newly_lost g)"
  by (auto simp: finalize_def newly_lost_def filter_empty_conv)

lemma finalize_all_count:
  "fc_unrecoverable_gens (fst (finalize_all sel after c gs)) =
     fc_unrecoverable_gens c + of_nat (length (filter (\<lambda>g. sel g \<and> newly_lost g) gs))"
  by (induction gs arbitrary: c) (simp_all add: finalize_all_Cons finalize_count)

text \<open>
  C14. \<open>expire\<close> empties exactly the slots whose generation saw its first datagram \<open>ttl\<close>
  nanoseconds ago or earlier, keeps every other slot as it was, and adds to the
  \<open>unrecoverable_gens\<close> counter the number of those generations that are lost, each counted
  at most once.
\<close>

theorem expire_clears_old:
  "d_slots (expire d now ttl) =
     map (\<lambda>g. if g_active g \<and> ttl \<le> now - g_first_ns g then generation_init else g) (d_slots d) \<and>
   fc_unrecoverable_gens (d_counters (expire d now ttl)) = fc_unrecoverable_gens (d_counters d) +
     of_nat (length (filter (\<lambda>g. (g_active g \<and> ttl \<le> now - g_first_ns g) \<and> newly_lost g) (d_slots d)))"
  by (simp add: expire_def case_prod_unfold finalize_all_const finalize_all_count)

lemma finalize_twice: "finalize c' (snd (finalize c g)) = (c', snd (finalize c g))"
  by (auto simp: finalize_def)

lemma retire_twice:
  "finalize_all (\<lambda>_. True) (\<lambda>g. g) c' (snd (finalize_all (\<lambda>_. True) (\<lambda>g. g) c gs)) =
   (c', snd (finalize_all (\<lambda>_. True) (\<lambda>g. g) c gs))"
  by (induction gs arbitrary: c) (simp_all add: finalize_all_Cons finalize_twice)

text \<open>
  C15. A generation that could not be recovered is counted once: a second \<open>retire_all\<close>
  changes nothing.
\<close>

theorem retire_all_idempotent: "retire_all (retire_all d) = retire_all d"
proof -
  let ?r = "finalize_all (\<lambda>_. True) (\<lambda>g. g) (d_counters d) (d_slots d)"
  have r: "retire_all d = d\<lparr>d_counters := fst ?r, d_slots := snd ?r\<rparr>"
    by (cases ?r) (simp add: retire_all_def)
  show ?thesis unfolding r by (simp add: retire_all_def retire_twice case_prod_beta)
qed

end
