(* ===== verification/Ring.thy ===== *)
theory Ring
  imports Message
begin

text \<open>
  The shared-memory ring of \<open>shm_ring.h\<close>: one writer, up to 64 readers, a fixed number of
  slots. What other processes do between two steps of an operation enters as an argument: the
  answers of \<open>trylock\<close> and the snapshots of the reader table seen by the polling loops. The
  abstract state is the log of all frames ever published; a slot holds the newest frame of its
  residue class. The last part takes \<open>publish\<close> apart into the loads of its scan and its stores, and
  interleaves them with the readers.
\<close>

section \<open>Region\<close>

definition is_power_of_two :: "u64 \<Rightarrow> bool" where
  "is_power_of_two v \<longleftrightarrow> v \<noteq> 0 \<and> v AND (v - 1) = 0"

definition kFrameCap :: nat where "kFrameCap = kMaxFrame"
definition kMaxReaders :: nat where "kMaxReaders = 64"
definition ring_magic :: u32 where "ring_magic = 0x53484d31"

record ring_slot =
  sl_seq :: u64
  sl_frame_len :: u32
  sl_frame :: bytes

record reader_state =
  rs_pid :: u32
  rs_cursor :: u64

record ring_header =
  rh_magic :: u32
  rh_layout_version :: u32
  rh_epoch :: u64
  rh_readers :: "reader_state list"
  rh_slot_count :: u32
  rh_slot_size :: u64
  rh_backpressure :: bool
  rh_write_index :: u64

record region =
  rg_header :: ring_header
  rg_slots :: "ring_slot list"

text \<open>The private part of a \<open>Ring\<close> object; \<open>None\<close> is \<open>reader_ == -1\<close>.\<close>

record ring =
  r_mask :: u64
  r_reader :: "nat option"

section \<open>Locks\<close>

text \<open>One answer of \<open>pthread_mutex_trylock\<close>; the argument of \<open>OwnerDead\<close> is whether
  \<open>pthread_mutex_consistent\<close> succeeds.\<close>

datatype try_rc = Locked | OwnerDead bool | Busy | LockError

text \<open>
  The constructor of \<open>Lock\<close> on a trace of polls: the answer, and the stop flag and clock read
  after it. \<open>Inr b\<close> is a constructed object, \<open>b\<close> whether it owns the mutex; \<open>None\<close> means that
  the loop is still running at the end of the trace.
\<close>

fun lock_new :: "bool \<Rightarrow> u64 \<Rightarrow> (try_rc \<times> bool \<times> u64) list \<Rightarrow> (exn + bool) option" where
  "lock_new wait deadline [] = None"
| "lock_new wait deadline ((rc, stop, now) # polls) =
     (case rc of
        Locked \<Rightarrow> Some (Inr True)
      | OwnerDead consistent \<Rightarrow> if \<not> consistent then Some (Inl RuntimeError) else Some (Inr True)
      | LockError \<Rightarrow> Some (Inl RuntimeError)
      | Busy \<Rightarrow>
          if \<not> wait then Some (Inr False)
          else if stop \<or> now \<ge> deadline then Some (Inl RuntimeError)
          else lock_new wait deadline polls)"

section \<open>Attaching\<close>

fun first_free :: "nat \<Rightarrow> reader_state list \<Rightarrow> nat option" where
  "first_free i [] = None"
| "first_free i (r # rs) = (if rs_pid r = 0 then Some i else first_free (Suc i) rs)"

text \<open>
  \<open>attach(base, count, init)\<close>. The size of a slot depends on the platform's mutex and is an
  argument; \<open>base_ok\<close> says that the base is non-null and aligned; \<open>mutexes\<close> and \<open>lock\<close> are the
  outcomes of initialising the mutexes and of taking the registry lock.
\<close>

definition attach_init :: "u64 \<Rightarrow> bool \<Rightarrow> u32 \<Rightarrow> u64 \<Rightarrow> string option \<Rightarrow> exn + unit \<Rightarrow> exn + region \<times> ring" where
  "attach_init sizeof_Slot base_ok count now policy mutexes =
     (if \<not> base_ok \<or> \<not> is_power_of_two (ucast count) then Inl InvalidArgument
      else bind_exn mutexes (\<lambda>_. Inr
        (\<lparr>rg_header = \<lparr>rh_magic = ring_magic, rh_layout_version = 3, rh_epoch = now,
            rh_readers = replicate kMaxReaders \<lparr>rs_pid = 0, rs_cursor = 0\<rparr>, rh_slot_count = count,
            rh_slot_size = sizeof_Slot, rh_backpressure = (policy \<noteq> Some ''overwrite''), rh_write_index = 0\<rparr>,
          rg_slots = replicate (unat count)
            \<lparr>sl_seq = 0, sl_frame_len = 0, sl_frame = replicate kFrameCap 0\<rparr>\<rparr>,
         \<lparr>r_mask = ucast (count - 1), r_reader = None\<rparr>)))"

definition attach_reader :: "u64 \<Rightarrow> bool \<Rightarrow> u32 \<Rightarrow> u32 \<Rightarrow> exn + unit \<Rightarrow> region \<Rightarrow> exn + region \<times> ring" where
  "attach_reader sizeof_Slot base_ok count pid lock g =
     (if \<not> base_ok \<or> \<not> is_power_of_two (ucast count) then Inl InvalidArgument
      else let h = rg_header g
      in if rh_magic h \<noteq> ring_magic \<or> rh_layout_version h \<noteq> 3 \<or> rh_slot_count h \<noteq> count \<or>
            rh_slot_size h \<noteq> sizeof_Slot then Inl RuntimeError
      else bind_exn lock (\<lambda>_.
        case first_free 0 (rh_readers h) of
          None \<Rightarrow> Inl RuntimeError
        | Some i \<Rightarrow> Inr
            (g\<lparr>rg_header := h\<lparr>rh_readers := (rh_readers h)[i := \<lparr>rs_pid = pid, rs_cursor = 0\<rparr>]\<rparr>\<rparr>,
             \<lparr>r_mask = ucast (count - 1), r_reader = Some i\<rparr>)))"

text \<open>The destructor gives the reader slot back.\<close>

definition detach :: "region \<Rightarrow> ring \<Rightarrow> region" where
  "detach g r =
     (case r_reader r of None \<Rightarrow> g
      | Some i \<Rightarrow> g\<lparr>rg_header := (rg_header g)\<lparr>rh_readers :=
          (rh_readers (rg_header g))[i := (rh_readers (rg_header g) ! i)\<lparr>rs_pid := 0\<rparr>]\<rparr>\<rparr>)"

definition reader_count :: "region \<Rightarrow> u32" where
  "reader_count g = of_nat (length (filter (\<lambda>r. rs_pid r \<noteq> 0) (rh_readers (rg_header g))))"

definition set_backpressure :: "region \<Rightarrow> ring \<Rightarrow> bool \<Rightarrow> exn + region" where
  "set_backpressure g r enabled =
     (if r_reader r \<noteq> None then Inl LogicError
      else Inr (g\<lparr>rg_header := (rg_header g)\<lparr>rh_backpressure := enabled\<rparr>\<rparr>))"

definition live_edge :: "region \<Rightarrow> u64" where
  "live_edge g = rh_write_index (rg_header g)"

definition slot_count :: "region \<Rightarrow> u64" where
  "slot_count g = ucast (rh_slot_count (rg_header g))"

section \<open>Publishing\<close>

text \<open>
  The backpressure loop on the trace of what its polls see: the reader table, the stop flag and
  the clock. It ends when some reader is attached and none would be overrun; the table it saw
  then is returned.
\<close>

definition overrun :: "u64 \<Rightarrow> reader_state list \<Rightarrow> bool" where
  "overrun limit readers = list_ex (\<lambda>r. rs_pid r \<noteq> 0 \<and> rs_cursor r \<le> limit) readers"

fun bp_wait :: "u64 \<Rightarrow> u64 \<Rightarrow> (reader_state list \<times> bool \<times> u64) list \<Rightarrow> (exn + reader_state list) option" where
  "bp_wait limit deadline [] = None"
| "bp_wait limit deadline ((readers, stop, now) # polls) =
     (if list_ex (\<lambda>r. rs_pid r \<noteq> 0) readers \<and> \<not> overrun limit readers then Some (Inr readers)
      else if stop \<or> now \<ge> deadline then Some (Inl RuntimeError)
      else bp_wait limit deadline polls)"

text \<open>\<open>memcpy(out, src, n)\<close> into a buffer at least as long.\<close>

definition mem_copy :: "bytes \<Rightarrow> bytes \<Rightarrow> bytes" where
  "mem_copy out src = src @ drop (length src) out"

definition put_slot :: "region \<Rightarrow> nat \<Rightarrow> ring_slot \<Rightarrow> region" where
  "put_slot g j s = g\<lparr>rg_slots := (rg_slots g)[j := s]\<rparr>"

text \<open>
  The stores of \<open>publish\<close> under the slot's lock, one memory image after each: the slot is
  invalidated, the frame is copied byte by byte, its length and sequence number are set, and
  the write index moves. The last image is the result; an earlier one is what a writer that
  dies there leaves behind. The images are in program order: the plain stores to the slot are
  taken to reach memory in the order of the source, which the code relies on and C++ does not
  promise.
\<close>

definition publish_stores :: "region \<Rightarrow> ring \<Rightarrow> u64 \<Rightarrow> bytes \<Rightarrow> region list" where
  "publish_stores g r idx frame =
     (let j = unat (idx AND r_mask r);
          s1 = (rg_slots g ! j)\<lparr>sl_seq := 0\<rparr>;
          s2 = s1\<lparr>sl_frame_len := 0\<rparr>;
          copies = map (\<lambda>m. s2\<lparr>sl_frame := mem_copy (sl_frame s2) (take m frame)\<rparr>) [0..<Suc (length frame)];
          s3 = s2\<lparr>sl_frame := mem_copy (sl_frame s2) frame\<rparr>;
          s4 = s3\<lparr>sl_frame_len := of_nat (length frame)\<rparr>;
          s5 = s4\<lparr>sl_seq := idx + 1\<rparr>;
          g5 = put_slot g j s5
      in map (put_slot g j) ([s1, s2] @ copies @ [s4, s5]) @
         [g5\<lparr>rg_header := (rg_header g5)\<lparr>rh_write_index := idx + 1\<rparr>\<rparr>])"

text \<open>
  \<open>publish(frame, len)\<close>: \<open>now\<close> is the clock when the deadline is set, \<open>polls\<close> the trace of the
  backpressure loop and \<open>lock\<close> the outcome of taking the slot's lock.
\<close>

definition publish :: "region \<Rightarrow> ring \<Rightarrow> bytes option \<Rightarrow> u64 \<Rightarrow> (reader_state list \<times> bool \<times> u64) list \<Rightarrow>
    exn + unit \<Rightarrow> (exn + region) option" where
  "publish g r frame now polls lock =
     (case frame of None \<Rightarrow> Some (Inl LengthError)
      | Some f \<Rightarrow>
          if f = [] \<or> length f > kFrameCap then Some (Inl LengthError)
          else if r_reader r \<noteq> None then Some (Inl LogicError)
          else let idx = live_edge g; deadline = now + 2000000000
          in case (if rh_backpressure (rg_header g) \<and> idx \<ge> slot_count g
                   then bp_wait (idx - slot_count g) deadline polls
                   else Some (Inr (rh_readers (rg_header g)))) of
               None \<Rightarrow> None
             | Some (Inl e) \<Rightarrow> Some (Inl e)
             | Some (Inr readers) \<Rightarrow>
                 (case lock of Inl e \<Rightarrow> Some (Inl e)
                  | Inr _ \<Rightarrow> Some (Inr (last (publish_stores
                      (g\<lparr>rg_header := (rg_header g)\<lparr>rh_readers := readers\<rparr>\<rparr>) r idx f)))))"

section \<open>Reading\<close>

datatype frame_status = kOk | kEmpty | kLapped | kCorrupt

text \<open>
  \<open>read(index, out, len, resume)\<close> with the outcome of the non-waiting lock: the status, the
  bytes stored in \<open>out\<close>, the value stored in \<open>resume\<close>, and the region.
\<close>

definition read :: "region \<Rightarrow> ring \<Rightarrow> u64 \<Rightarrow> exn + bool \<Rightarrow> exn + frame_status \<times> bytes \<times> u64 \<times> region" where
  "read g r index lock = bind_exn lock (\<lambda>locked.
     if \<not> locked then Inr (kEmpty, [], 0, g)
     else let s = rg_slots g ! unat (index AND r_mask r)
     in if sl_seq s < index + 1 then Inr (kEmpty, [], 0, g)
        else if sl_seq s > index + 1 then
          let edge = live_edge g
          in Inr (kLapped, [], if edge > slot_count g then edge - slot_count g else 0, g)
        else if sl_frame_len s = 0 \<or> unat (sl_frame_len s) > kFrameCap then Inr (kCorrupt, [], 0, g)
        else Inr (kOk, take (unat (sl_frame_len s)) (sl_frame s), 0,
          case r_reader r of None \<Rightarrow> g
          | Some i \<Rightarrow> g\<lparr>rg_header := (rg_header g)\<lparr>rh_readers :=
              (rh_readers (rg_header g))[i := (rh_readers (rg_header g) ! i)\<lparr>rs_cursor := index + 1\<rparr>]\<rparr>\<rparr>))"

section \<open>The log behind the slots\<close>

definition holds_frame :: "ring_slot \<Rightarrow> nat \<Rightarrow> bytes \<Rightarrow> bool" where
  "holds_frame s i f \<longleftrightarrow> sl_seq s = of_nat (Suc i) \<and> unat (sl_frame_len s) = length f \<and>
     take (length f) (sl_frame s) = f \<and> f \<noteq> [] \<and> length f \<le> kFrameCap"

text \<open>The slots hold the last \<open>n\<close> frames of the log; a slot not used yet has number zero.\<close>

definition log_of :: "nat \<Rightarrow> ring_slot list \<Rightarrow> bytes list \<Rightarrow> bool" where
  "log_of n slots L \<longleftrightarrow> length slots = n \<and>
     (\<forall>i<length L. length L \<le> i + n \<longrightarrow> holds_frame (slots ! (i mod n)) i (L ! i)) \<and>
     (\<forall>j<n. length L \<le> j \<longrightarrow> sl_seq (slots ! j) = 0)"

lemma log_of_empty: "log_of n (replicate n \<lparr>sl_seq = 0, sl_frame_len = l, sl_frame = b\<rparr>) []"
  by (simp add: log_of_def)

lemma log_of_append:
  assumes "log_of n slots L" and "0 < n" and "holds_frame s (length L) f"
  shows "log_of n (slots[length L mod n := s]) (L @ [f])"
proof -
  let ?l = "length L"
  have len: "length slots = n" using assms(1) by (simp add: log_of_def)
  have "holds_frame (slots[?l mod n := s] ! (i mod n)) i ((L @ [f]) ! i)" if i: "i < Suc ?l" "Suc ?l \<le> i + n" for i
  proof (cases "i = ?l")
    case True
    then show ?thesis using assms(2,3) len by simp
  next
    case False
    have "i mod n \<noteq> ?l mod n"
    proof
      assume "i mod n = ?l mod n"
      from residue_eq [OF order.refl _ _ _ this] i assms(2) False show False by simp
    qed
    then show ?thesis using assms(1) i False by (simp add: log_of_def nth_append)
  qed
  moreover have "sl_seq (slots[?l mod n := s] ! j) = 0" if "j < n" "Suc ?l \<le> j" for j
    using assms(1) that by (simp add: log_of_def)
  ultimately show ?thesis using len by (simp add: log_of_def)
qed

text \<open>The number in the slot of \<open>i\<close>: that of the newest frame in its class, at most the length.\<close>

lemma log_of_seq:
  assumes "log_of n slots L" and "0 < n"
  shows "\<exists>m. sl_seq (slots ! (i mod n)) = of_nat m \<and> m \<le> length L \<and>
    (i + n < length L \<longrightarrow> Suc i < m)"
proof (cases "length L \<le> i mod n")
  case True
  then have "i + n \<ge> length L" using mod_less_eq_dividend [of i n] by linarith
  moreover have "sl_seq (slots ! (i mod n)) = 0" using assms True by (simp add: log_of_def)
  ultimately show ?thesis by (intro exI [of _ 0]) simp
next
  case False
  then obtain i' where i': "i' < length L" "length L \<le> i' + n" "i' mod n = i mod n"
    using residue_repr [of "i mod n" n "length L"] assms(2) by auto
  then have "holds_frame (slots ! (i mod n)) i' (L ! i')" using assms(1) by (metis log_of_def)
  then have "sl_seq (slots ! (i mod n)) = of_nat (Suc i')" by (simp add: holds_frame_def)
  moreover have "i + n < length L \<Longrightarrow> Suc i < Suc i'" using i'(2) by simp
  ultimately show ?thesis using i'(1) by (intro exI [of _ "Suc i'"]) simp
qed

text \<open>\<open>ring_log g r n L\<close>: a region of \<open>n\<close> slots seen through \<open>r\<close> whose log is \<open>L\<close>.\<close>

definition ring_log :: "region \<Rightarrow> ring \<Rightarrow> nat \<Rightarrow> bytes list \<Rightarrow> bool" where
  "ring_log g r n L \<longleftrightarrow> (\<exists>k<32. n = 2 ^ k \<and> rh_slot_count (rg_header g) = 2 ^ k \<and> r_mask r = mask k) \<and>
     log_of n (rg_slots g) L \<and> live_edge g = of_nat (length L) \<and> length L + n < 2 ^ 64"

lemma ring_log_simps:
  assumes "ring_log g r n L"
  shows "0 < n" and "unat (idx AND r_mask r) = unat idx mod n" and "unat (slot_count g) = n"
    and "log_of n (rg_slots g) L" and "unat (live_edge g) = length L" and "length L + n < 2 ^ 64"
proof -
  obtain k where k: "k < 32" "n = 2 ^ k" "rh_slot_count (rg_header g) = 2 ^ k" "r_mask r = mask k"
    using assms by (auto simp: ring_log_def)
  show "0 < n" by (simp add: k(2))
  show "unat (idx AND r_mask r) = unat idx mod n" by (simp only: k(2,4) unat_and_mask)
  show "unat (slot_count g) = n" using k(1) unat_ucast_u64 [of "2 ^ k"] by (simp add: slot_count_def k(2,3) unat_pow2)
  show "log_of n (rg_slots g) L" "length L + n < 2 ^ 64" using assms by (simp_all add: ring_log_def)
  then show "unat (live_edge g) = length L" using assms by (simp add: ring_log_def unat_of_nat_small)
qed

lemma unat_of_nat_u64: "n < 2 ^ 64 \<Longrightarrow> unat (of_nat n :: u64) = n"
  by (simp add: unat_of_nat_small)

definition advance_cursor :: "region \<Rightarrow> ring \<Rightarrow> u64 \<Rightarrow> region" where
  "advance_cursor g r c = (case r_reader r of None \<Rightarrow> g
     | Some i \<Rightarrow> g\<lparr>rg_header := (rg_header g)\<lparr>rh_readers :=
         (rh_readers (rg_header g))[i := (rh_readers (rg_header g) ! i)\<lparr>rs_cursor := c\<rparr>]\<rparr>\<rparr>)"

text \<open>A successful read depends on one slot only.\<close>

definition slot_gives :: "ring_slot \<Rightarrow> u64 \<Rightarrow> bytes \<Rightarrow> bool" where
  "slot_gives s index out \<longleftrightarrow> sl_seq s = index + 1 \<and> sl_frame_len s \<noteq> 0 \<and>
     unat (sl_frame_len s) \<le> kFrameCap \<and> out = take (unat (sl_frame_len s)) (sl_frame s)"

lemma read_ok_iff:
  "(\<exists>resume g'. read g r index (Inr True) = Inr (kOk, out, resume, g')) \<longleftrightarrow>
     slot_gives (rg_slots g ! unat (index AND r_mask r)) index out"
  by (auto simp: read_def slot_gives_def Let_def)

lemma read_log:
  assumes "ring_log g r n L" and "Suc (unat index) < 2 ^ 64"
  shows "read g r index (Inr True) =
    (if length L \<le> unat index then Inr (kEmpty, [], 0, g)
     else if length L \<le> unat index + n then Inr (kOk, L ! unat index, 0, advance_cursor g r (index + 1))
     else Inr (kLapped, [], of_nat (length L - n), g))"
proof -
  note s = ring_log_simps [OF assms(1)]
  let ?i = "unat index" and ?s = "rg_slots g ! (unat index mod n)"
  have i1: "unat (index + 1) = Suc ?i" using assms(2) by (simp add: unat_inc)
  obtain m where m: "sl_seq ?s = of_nat m" "m \<le> length L" "?i + n < length L \<Longrightarrow> Suc ?i < m"
    using log_of_seq [OF s(4,1), of ?i] by auto
  have um: "unat (sl_seq ?s) = m" using m(1,2) s(6) by (simp add: unat_of_nat_u64)
  have lt: "sl_seq ?s < index + 1 \<longleftrightarrow> m < Suc ?i" and gt: "sl_seq ?s > index + 1 \<longleftrightarrow> Suc ?i < m"
    by (simp_all only: word_less_nat_alt um i1)
  consider "length L \<le> ?i" | "?i < length L" "length L \<le> ?i + n" | "?i + n < length L" by linarith
  then show ?thesis
  proof cases
    case 1
    then have "m < Suc ?i" using m(2) by simp
    then show ?thesis using 1 by (simp add: read_def s(2) lt)
  next
    case 2
    then have h: "holds_frame ?s ?i (L ! ?i)" using s(4) by (simp add: log_of_def)
    then have "sl_seq ?s = index + 1" by (simp add: holds_frame_def add.commute)
    moreover have "sl_frame_len ?s \<noteq> 0" "\<not> kFrameCap < unat (sl_frame_len ?s)"
      using h by (auto simp: holds_frame_def)
    moreover have "take (unat (sl_frame_len ?s)) (sl_frame ?s) = L ! ?i" using h by (simp add: holds_frame_def)
    ultimately show ?thesis using 2 by (simp add: read_def s(2) advance_cursor_def)
  next
    case 3
    then have "Suc ?i < m" by (rule m(3))
    moreover have "slot_count g < live_edge g" using 3 by (simp add: word_less_nat_alt s(3,5))
    moreover from this have "live_edge g - slot_count g = of_nat (length L - n)"
      using s(3,5,6) by (simp add: word_unat_eq_iff unat_sub word_less_nat_alt word_le_nat_alt unat_of_nat_u64)
    ultimately show ?thesis using 3 lt gt by (simp add: read_def s(2) Let_def)
  qed
qed

section \<open>Publishing appends to the log\<close>

text \<open>The image after the last store.\<close>

definition stored :: "region \<Rightarrow> ring \<Rightarrow> u64 \<Rightarrow> bytes \<Rightarrow> ring_slot" where
  "stored g r idx f = (rg_slots g ! unat (idx AND r_mask r))
     \<lparr>sl_frame := mem_copy (sl_frame (rg_slots g ! unat (idx AND r_mask r))) f,
      sl_frame_len := of_nat (length f), sl_seq := idx + 1\<rparr>"

lemma last_publish_stores:
  "last (publish_stores g r idx f) =
     (put_slot g (unat (idx AND r_mask r)) (stored g r idx f))
       \<lparr>rg_header := (rg_header g)\<lparr>rh_write_index := idx + 1\<rparr>\<rparr>"
  by (simp add: publish_stores_def Let_def stored_def put_slot_def)

text \<open>Before the sequence number is stored, the slot is marked invalid.\<close>

lemma publish_stores_cases:
  assumes "g' \<in> set (publish_stores g r idx f)"
  obtains s where "g' = put_slot g (unat (idx AND r_mask r)) s" "sl_seq s = 0"
  | "g' = put_slot g (unat (idx AND r_mask r)) (stored g r idx f)"
  | "g' = last (publish_stores g r idx f)"
proof -
  define j s2 where "j = unat (idx AND r_mask r)" and "s2 = (rg_slots g ! j)\<lparr>sl_seq := 0, sl_frame_len := 0\<rparr>"
  define zs where "zs = [(rg_slots g ! j)\<lparr>sl_seq := 0\<rparr>, s2] @
    map (\<lambda>m. s2\<lparr>sl_frame := mem_copy (sl_frame s2) (take m f)\<rparr>) [0..<Suc (length f)] @
    [s2\<lparr>sl_frame := mem_copy (sl_frame s2) f, sl_frame_len := of_nat (length f)\<rparr>]"
  have "publish_stores g r idx f = map (put_slot g j) (zs @ [stored g r idx f]) @ [last (publish_stores g r idx f)]"
    unfolding last_publish_stores by (simp add: publish_stores_def Let_def stored_def zs_def s2_def j_def put_slot_def)
  then have "g' \<in> set (map (put_slot g j) (zs @ [stored g r idx f]) @ [last (publish_stores g r idx f)])"
    using assms by simp
  moreover have "\<forall>s\<in>set zs. sl_seq s = 0" by (auto simp: zs_def s2_def)
  ultimately show thesis using that unfolding j_def by auto
qed

lemma stored_holds:
  assumes "f \<noteq> []" "length f \<le> kFrameCap" "idx = of_nat i"
  shows "holds_frame (stored g r idx f) i f"
proof -
  have "length f < 2 ^ LENGTH(32)" using assms(2) by (simp add: kFrameCap_def size_consts)
  then have "unat (of_nat (length f) :: u32) = length f" by (rule unat_of_nat_small)
  then show ?thesis using assms by (simp add: holds_frame_def stored_def mem_copy_def add.commute)
qed

lemma publish_log:
  assumes "ring_log g r n L" and "f \<noteq> []" "length f \<le> kFrameCap" and "Suc (length L) + n < 2 ^ 64"
  shows "ring_log (last (publish_stores g r (live_edge g) f)) r n (L @ [f])"
proof -
  note s = ring_log_simps [OF assms(1)]
  have e: "live_edge g = of_nat (length L)" using assms(1) by (simp add: ring_log_def)
  have "log_of n ((rg_slots g)[length L mod n := stored g r (live_edge g) f]) (L @ [f])"
    by (rule log_of_append [OF s(4,1) stored_holds [OF assms(2,3) e]])
  moreover have "unat (live_edge g AND r_mask r) = length L mod n" by (simp add: s(2,5))
  moreover have "live_edge g + 1 = of_nat (length (L @ [f]))" by (simp add: e add.commute)
  ultimately show ?thesis
    using assms(1,4) by (simp add: last_publish_stores ring_log_def put_slot_def) (simp add: live_edge_def)
qed

lemma ring_log_readers:
  "ring_log (g\<lparr>rg_header := (rg_header g)\<lparr>rh_readers := rs\<rparr>\<rparr>) r n L = ring_log g r n L"
  by (simp add: ring_log_def live_edge_def)

lemma publish_ok:
  assumes "publish g r (Some f) now polls lock = Some (Inr g')"
  obtains readers where "f \<noteq> []" "length f \<le> kFrameCap" "r_reader r = None"
    "g' = last (publish_stores (g\<lparr>rg_header := (rg_header g)\<lparr>rh_readers := readers\<rparr>\<rparr>) r (live_edge g) f)"
    "if rh_backpressure (rg_header g) \<and> live_edge g \<ge> slot_count g
     then bp_wait (live_edge g - slot_count g) (now + 2000000000) polls = Some (Inr readers)
     else readers = rh_readers (rg_header g)"
proof (cases "if rh_backpressure (rg_header g) \<and> live_edge g \<ge> slot_count g
     then bp_wait (live_edge g - slot_count g) (now + 2000000000) polls else Some (Inr (rh_readers (rg_header g)))")
  case None
  then show thesis using assms by (auto simp: publish_def Let_def split: if_splits)
next
  case (Some x)
  then show thesis using assms that
    by (cases x; cases lock) (auto simp: publish_def Let_def split: if_splits)
qed

section \<open>What the ring promises\<close>

text \<open>
  C22. Reading is reading the log: while the slots hold the last \<open>n\<close> frames of the log, a read
  under the lock returns the frame at its index when it is still held, says empty at or after
  the end, and otherwise says lapped and resumes at the oldest frame held. It never says corrupt.
\<close>

theorem ring_read_spec:
  assumes "ring_log g r n L" and "Suc (unat index) < 2 ^ 64"
  shows "read g r index (Inr True) =
    (if length L \<le> unat index then Inr (kEmpty, [], 0, g)
     else if length L \<le> unat index + n then Inr (kOk, L ! unat index, 0, advance_cursor g r (index + 1))
     else Inr (kLapped, [], of_nat (length L - n), g))"
  by (rule read_log [OF assms])

text \<open>
  C23. Publishing is appending to the log: whenever \<open>publish\<close> returns, whatever its wait saw,
  the slots hold the log extended by the frame.
\<close>

theorem ring_publish_refines:
  assumes "ring_log g r n L" and "publish g r (Some f) now polls lock = Some (Inr g')"
    and "Suc (length L) + n < 2 ^ 64"
  shows "ring_log g' r n (L @ [f])"
  using assms(2)
proof (rule publish_ok)
  fix readers
  let ?g = "g\<lparr>rg_header := (rg_header g)\<lparr>rh_readers := readers\<rparr>\<rparr>"
  assume f: "f \<noteq> []" "length f \<le> kFrameCap" and g': "g' = last (publish_stores ?g r (live_edge g) f)"
  have "live_edge ?g = live_edge g" by (simp add: live_edge_def)
  then show ?thesis
    using publish_log [of ?g r n L f] assms(1,3) f unfolding g' ring_log_readers by simp
qed

text \<open>
  C9. A writer may die at any store of \<open>publish\<close>: whatever a reader then reads, it is a frame of
  the log or the complete new frame, never a torn one.
\<close>

theorem ring_no_torn_frame:
  assumes "ring_log g r n L" and "f \<noteq> []" "length f \<le> kFrameCap" and "Suc (length L) + n < 2 ^ 64"
    and "g' \<in> set (publish_stores g r (live_edge g) f)" and "Suc (unat index) < 2 ^ 64"
    and "read g' r index (Inr True) = Inr (kOk, out, resume, g'')"
  shows "unat index \<le> length L \<and> out = (L @ [f]) ! unat index"
proof -
  note s = ring_log_simps [OF assms(1)]
  let ?j = "unat (live_edge g AND r_mask r)" and ?i = "unat index mod n"
  let ?goal = "unat index \<le> length L \<and> out = (L @ [f]) ! unat index"
  have j: "?j = length L mod n" by (simp add: s(2,5))
  have len: "length (rg_slots g) = n" using s(4) by (simp add: log_of_def)
  have give: "slot_gives (rg_slots g' ! ?i) index out" using assms(7) read_ok_iff [of g' r index out] by (auto simp: s(2))
  have old: ?goal if "slot_gives (rg_slots g ! ?i) index out"
  proof -
    have "\<exists>resume h. read g r index (Inr True) = Inr (kOk, out, resume, h)"
      using that read_ok_iff [of g r index out] by (simp add: s(2))
    then show ?thesis using read_log [OF assms(1,6)] by (auto simp: nth_append split: if_splits)
  qed
  have new: ?goal if "slot_gives (rg_slots (last (publish_stores g r (live_edge g) f)) ! ?i) index out"
  proof -
    have "\<exists>resume h. read (last (publish_stores g r (live_edge g) f)) r index (Inr True) = Inr (kOk, out, resume, h)"
      using that read_ok_iff [of "last (publish_stores g r (live_edge g) f)" r index out] by (simp add: s(2))
    then show ?thesis using read_log [OF publish_log [OF assms(1-4)] assms(6)] by (auto split: if_splits)
  qed
  have other: "rg_slots (put_slot g ?j t) ! ?i = (if ?i = length L mod n then t else rg_slots g ! ?i)" for t
    unfolding j using s(1) len by (auto simp: put_slot_def)
  have pos: "index + 1 \<noteq> 0" using assms(6) unat_inc [of index] by auto
  show ?thesis
    using assms(5)
  proof (cases rule: publish_stores_cases)
    case (1 t)
    then show ?thesis using give pos old unfolding 1(1) other by (auto simp: slot_gives_def split: if_splits)
  next
    case 2
    have "rg_slots (last (publish_stores g r (live_edge g) f)) = rg_slots (put_slot g ?j (stored g r (live_edge g) f))"
      unfolding last_publish_stores by simp
    then show ?thesis using give new unfolding 2 by simp
  next
    case 3
    then show ?thesis using give new by simp
  qed
qed

section \<open>Attaching and waiting\<close>

lemma count_mask: "k < 32 \<Longrightarrow> (ucast ((2 ^ k :: u32) - 1) :: u64) = mask k"
proof -
  assume k: "k < 32"
  then have "unat ((2 ^ k :: u32) - 1) = 2 ^ k - 1" by (simp add: unat_sub word_le_nat_alt unat_pow2)
  then show ?thesis
    using k by (simp add: word_unat_eq_iff unat_ucast_u64 mask_eq_exp_minus_1 unat_sub word_le_nat_alt unat_pow2)
qed

lemma attach_init_log:
  assumes "attach_init sz base_ok count now policy mutexes = Inr (g, r)"
  shows "ring_log g r (unat count) []" and "r_reader r = None"
    and "rh_readers (rg_header g) = replicate kMaxReaders \<lparr>rs_pid = 0, rs_cursor = 0\<rparr>"
    and "rh_slot_count (rg_header g) = count" and "r_mask r = ucast (count - 1)"
    and "rh_backpressure (rg_header g) = (policy \<noteq> Some ''overwrite'')"
proof -
  have p: "is_power_of_two (ucast count)" and
    g: "rg_slots g = replicate (unat count) \<lparr>sl_seq = 0, sl_frame_len = 0, sl_frame = replicate kFrameCap 0\<rparr>"
      "live_edge g = 0"
    and h: "r_reader r = None" "rh_readers (rg_header g) = replicate kMaxReaders \<lparr>rs_pid = 0, rs_cursor = 0\<rparr>"
      "rh_slot_count (rg_header g) = count" "r_mask r = ucast (count - 1)"
      "rh_backpressure (rg_header g) = (policy \<noteq> Some ''overwrite'')"
    using assms by (auto simp: attach_init_def live_edge_def bind_exn_Inr_iff split: if_splits)
  obtain k where k: "k < 64" "(ucast count :: u64) = 2 ^ k"
    using pow2_if_and_dec [of "ucast count :: u64"] p by (auto simp: is_power_of_two_def)
  have u: "unat count = 2 ^ k" using k unat_ucast_u64 [of count] by (simp add: unat_pow2)
  then have "(2 :: nat) ^ k < 2 ^ 32" using u32_less [of count] by simp
  then have k32: "k < 32" by (rule power_less_imp_less_exp [rotated]) simp
  have c: "count = 2 ^ k" using u k32 by (simp add: word_unat_eq_iff unat_pow2)
  have "r_mask r = mask k" unfolding h(4) c by (rule count_mask [OF k32])
  moreover have "unat count < 2 ^ 64" using u64_less [of "ucast count"] by (simp add: unat_ucast_u64)
  ultimately show "ring_log g r (unat count) []"
    using k32 u c h(3) log_of_empty by (auto simp: ring_log_def g intro!: exI [of _ k])
qed (use assms in \<open>auto simp: attach_init_def bind_exn_Inr_iff split: if_splits\<close>)

lemma first_free_None: "first_free i rs = None \<longleftrightarrow> (\<forall>r\<in>set rs. rs_pid r \<noteq> 0)"
  by (induction i rs rule: first_free.induct) auto

lemma first_free_Some:
  "first_free i rs = Some j \<Longrightarrow> i \<le> j \<and> j < i + length rs \<and> rs_pid (rs ! (j - i)) = 0 \<and> (\<forall>m<j - i. rs_pid (rs ! m) \<noteq> 0)"
proof (induction i rs rule: first_free.induct)
  case (2 i r rs)
  show ?case
  proof (cases "rs_pid r = 0")
    case False
    then have ih: "Suc i \<le> j \<and> j < Suc i + length rs \<and> rs_pid (rs ! (j - Suc i)) = 0 \<and> (\<forall>m<j - Suc i. rs_pid (rs ! m) \<noteq> 0)"
      using 2 by simp
    have "rs_pid ((r # rs) ! m) \<noteq> 0" if "m < j - i" for m
      using that ih False by (cases m) auto
    then show ?thesis using ih by (auto simp: nth_Cons')
  qed (use 2 in auto)
qed simp

definition set_readers :: "region \<Rightarrow> reader_state list \<Rightarrow> region" where
  "set_readers g rs = g\<lparr>rg_header := (rg_header g)\<lparr>rh_readers := rs\<rparr>\<rparr>"

lemma set_readers_simps [simp]:
  "rh_readers (rg_header (set_readers g rs)) = rs" "rg_slots (set_readers g rs) = rg_slots g"
  "rh_backpressure (rg_header (set_readers g rs)) = rh_backpressure (rg_header g)"
  "live_edge (set_readers g rs) = live_edge g" "slot_count (set_readers g rs) = slot_count g"
  "set_readers (set_readers g rs) rs' = set_readers g rs'" "set_readers g (rh_readers (rg_header g)) = g"
  by (simp_all add: set_readers_def live_edge_def slot_count_def)

lemma set_readers_log [simp]: "ring_log (set_readers g rs) r n L = ring_log g r n L"
  unfolding set_readers_def by (rule ring_log_readers)

text \<open>A region that fits the reader: the check of the constructor before it takes the lock.\<close>

definition matching :: "u64 \<Rightarrow> bool \<Rightarrow> u32 \<Rightarrow> region \<Rightarrow> bool" where
  "matching sz base_ok count g \<longleftrightarrow> base_ok \<and> is_power_of_two (ucast count) \<and> rh_magic (rg_header g) = ring_magic \<and>
     rh_layout_version (rg_header g) = 3 \<and> rh_slot_count (rg_header g) = count \<and> rh_slot_size (rg_header g) = sz"

lemma attach_reader_Inr:
  assumes "attach_reader sz base_ok count pid lock g = Inr (g', r)"
  obtains i where "matching sz base_ok count g" "lock = Inr ()" "i < length (rh_readers (rg_header g))"
    "rs_pid (rh_readers (rg_header g) ! i) = 0" "\<forall>j<i. rs_pid (rh_readers (rg_header g) ! j) \<noteq> 0"
    "r = \<lparr>r_mask = ucast (count - 1), r_reader = Some i\<rparr>"
    "g' = set_readers g ((rh_readers (rg_header g))[i := \<lparr>rs_pid = pid, rs_cursor = 0\<rparr>])"
  using assms first_free_Some [of 0 "rh_readers (rg_header g)"]
  by (auto simp: attach_reader_def Let_def matching_def set_readers_def bind_exn_Inr_iff split: if_splits option.splits)

lemma attach_reader_at:
  assumes "attach_reader sz base_ok count pid lock g = Inr (g', r)" and "r_reader r = Some i"
  shows "i < length (rh_readers (rg_header g))"
    and "g' = set_readers g ((rh_readers (rg_header g))[i := \<lparr>rs_pid = pid, rs_cursor = 0\<rparr>])"
proof -
  obtain j where "j < length (rh_readers (rg_header g))" "r = \<lparr>r_mask = ucast (count - 1), r_reader = Some j\<rparr>"
    "g' = set_readers g ((rh_readers (rg_header g))[j := \<lparr>rs_pid = pid, rs_cursor = 0\<rparr>])"
    by (rule attach_reader_Inr [OF assms(1)])
  then show "i < length (rh_readers (rg_header g))"
    "g' = set_readers g ((rh_readers (rg_header g))[i := \<lparr>rs_pid = pid, rs_cursor = 0\<rparr>])"
    using assms(2) by simp_all
qed

lemma attach_reader_log:
  assumes "attach_reader sz base_ok count pid lock g = Inr (g', r)" and "ring_log g w n L"
  shows "ring_log g' w n L" and "r_mask r = r_mask w" and "live_edge g' = live_edge g" and "slot_count g' = slot_count g"
    and "rh_backpressure (rg_header g') = rh_backpressure (rg_header g)"
proof -
  obtain j where j: "matching sz base_ok count g" "r = \<lparr>r_mask = ucast (count - 1), r_reader = Some j\<rparr>"
    "g' = set_readers g ((rh_readers (rg_header g))[j := \<lparr>rs_pid = pid, rs_cursor = 0\<rparr>])"
    by (rule attach_reader_Inr [OF assms(1)])
  obtain k where "k < 32" "rh_slot_count (rg_header g) = 2 ^ k" "r_mask w = mask k"
    using assms(2) unfolding ring_log_def by blast
  then show "r_mask r = r_mask w" using j(1,2) count_mask [of k] by (simp add: matching_def)
  show "ring_log g' w n L" "live_edge g' = live_edge g" "slot_count g' = slot_count g"
    "rh_backpressure (rg_header g') = rh_backpressure (rg_header g)" using assms(2) j(3) by simp_all
qed

lemma filter_count_update:
  assumes "i < length xs" and "\<not> P (xs ! i)"
  shows "length (filter P (xs[i := x])) = length (filter P xs) + (if P x then 1 else 0)"
proof -
  have "filter P xs = filter P (take i xs) @ filter P (drop (Suc i) xs)"
    using assms by (subst id_take_nth_drop [OF assms(1)]) simp
  then show ?thesis using assms(1) by (simp add: upd_conv_take_nth_drop)
qed

text \<open>
  C24. The registry of readers. Attaching succeeds exactly when the base is valid and aligned, the
  slot count a power of two, the region's magic number, layout version, slot count and slot size
  are the expected ones, the registry lock is obtained and some reader slot is free. It then takes
  the first free slot, with the cursor at zero, and leaves the other reader slots, the frames and
  the write index alone; the ring counts one reader more, until the reader is detached (its
  process number is not zero). Otherwise the error says which condition failed, in the order of the checks.
\<close>

theorem attach_reader_spec:
  assumes "pid \<noteq> 0"
  shows "case attach_reader sz base_ok count pid lock g of
      Inr (g', r) \<Rightarrow> matching sz base_ok count g \<and> lock = Inr () \<and>
        (\<exists>i<length (rh_readers (rg_header g)). rs_pid (rh_readers (rg_header g) ! i) = 0 \<and>
          (\<forall>j<i. rs_pid (rh_readers (rg_header g) ! j) \<noteq> 0) \<and>
          r = \<lparr>r_mask = ucast (count - 1), r_reader = Some i\<rparr> \<and>
          g' = set_readers g ((rh_readers (rg_header g))[i := \<lparr>rs_pid = pid, rs_cursor = 0\<rparr>])) \<and>
        reader_count g' = reader_count g + 1 \<and> reader_count (detach g' r) = reader_count g
    | Inl e \<Rightarrow>
        if \<not> base_ok \<or> \<not> is_power_of_two (ucast count) then e = InvalidArgument
        else if \<not> matching sz base_ok count g then e = RuntimeError
        else if lock \<noteq> Inr () then lock = Inl e
        else e = RuntimeError \<and> (\<forall>s\<in>set (rh_readers (rg_header g)). rs_pid s \<noteq> 0)"
proof (cases "attach_reader sz base_ok count pid lock g")
  case (Inl e)
  then show ?thesis
    using first_free_None [of 0 "rh_readers (rg_header g)"]
    by (cases lock) (auto simp: attach_reader_def Let_def matching_def split: if_splits option.splits)
next
  case (Inr x)
  obtain g' r where x: "x = (g', r)" by (cases x)
  let ?rs = "rh_readers (rg_header g)"
  obtain i where i: "matching sz base_ok count g" "lock = Inr ()" "i < length ?rs" "rs_pid (?rs ! i) = 0"
    "\<forall>j<i. rs_pid (?rs ! j) \<noteq> 0" "r = \<lparr>r_mask = ucast (count - 1), r_reader = Some i\<rparr>"
    "g' = set_readers g (?rs[i := \<lparr>rs_pid = pid, rs_cursor = 0\<rparr>])"
    using attach_reader_Inr [OF Inr [unfolded x]] by blast
  have "detach g' r = set_readers g (?rs[i := \<lparr>rs_pid = 0, rs_cursor = 0\<rparr>])"
    using i(3) by (simp add: i(6,7) detach_def) (simp add: set_readers_def)
  then have "reader_count g' = reader_count g + 1 \<and> reader_count (detach g' r) = reader_count g"
    using filter_count_update [OF i(3), of "\<lambda>r. rs_pid r \<noteq> 0"] i(4) assms by (simp add: reader_count_def i(7))
  then show ?thesis using Inr x i by auto
qed

lemma lock_new_returns:
  "list_ex (\<lambda>(rc, stop, now). stop \<or> deadline \<le> now) polls \<Longrightarrow> lock_new wait deadline polls \<noteq> None"
  by (induction wait deadline polls rule: lock_new.induct) (auto split: try_rc.splits)

lemma bp_wait_returns:
  "list_ex (\<lambda>(rs, stop, now). stop \<or> deadline \<le> now) polls \<Longrightarrow> bp_wait limit deadline polls \<noteq> None"
  by (induction limit deadline polls rule: bp_wait.induct) auto

lemma bp_wait_blocked:
  "(\<forall>p\<in>set polls. overrun limit (fst p)) \<Longrightarrow> bp_wait limit deadline polls \<noteq> Some (Inr rs)"
  by (induction limit deadline polls rule: bp_wait.induct) auto

text \<open>
  C25. \<open>publish\<close> returns: once a poll of its wait sees the stop flag or the deadline two seconds
  after its start, it has ended, with the frame stored or with an exception.
\<close>

theorem publish_returns:
  assumes "list_ex (\<lambda>(rs, stop, t). stop \<or> now + 2000000000 \<le> t) polls"
  shows "publish g r frame now polls lock \<noteq> None"
  using bp_wait_returns [OF assms, of "live_edge g - slot_count g"] by (auto simp: publish_def Let_def split: option.splits sum.splits)

text \<open>
  C26. A reader that attaches to a ring that has wrapped and starts at the live edge stops the
  writer. Let the ring hold at least as many frames as it has slots, and let a reader attach:
  its cursor is then zero. Its reads at the live edge are empty, whatever its lock says, and
  leave the region as it is, the cursor at zero included. As long as its entry in the table stays
  that way, whatever the other entries are at each poll, no \<open>publish\<close> under backpressure succeeds.
\<close>

theorem from_edge_blocks_writer:
  assumes "ring_log g w n L" and "n \<le> length L" and "rh_backpressure (rg_header g)"
    and "attach_reader sz base_ok count pid lock g = Inr (g', r)" and "pid \<noteq> 0" and "r_reader r = Some i"
    and "\<forall>p\<in>set polls. i < length (fst p) \<and> fst p ! i = rh_readers (rg_header g') ! i"
  shows "read g' r (live_edge g') (Inr locked) = Inr (kEmpty, [], 0, g') \<and>
    rs_cursor (rh_readers (rg_header g') ! i) = 0 \<and> publish g' w frame now polls slot_lock \<noteq> Some (Inr g'')"
proof -
  note i = attach_reader_at [OF assms(4,6)] and at0 = attach_reader_log [OF assms(4,1)]
  have log: "ring_log g' w n L" "ring_log g' r n L" using at0(1,2) by (simp_all add: ring_log_def)
  note s = ring_log_simps [OF log(1)]
  have "Suc (unat (live_edge g')) < 2 ^ 64" using s(1,5,6) by linarith
  then have "read g' r (live_edge g') (Inr locked) = Inr (kEmpty, [], 0, g')"
    using read_log [OF log(2), of "live_edge g'"] s(5) by (cases locked) (simp_all add: read_def)
  moreover have at: "rh_readers (rg_header g') ! i = \<lparr>rs_pid = pid, rs_cursor = 0\<rparr>" using i(1) unfolding i(2) by simp
  moreover have "publish g' w frame now polls slot_lock \<noteq> Some (Inr g'')"
  proof
    assume pub: "publish g' w frame now polls slot_lock = Some (Inr g'')"
    then obtain f where "frame = Some f" by (cases frame) (simp_all add: publish_def)
    moreover have "slot_count g' \<le> live_edge g'" using assms(2) s(3,5) by (simp add: word_le_nat_alt)
    moreover have "rh_backpressure (rg_header g')" using assms(3) at0(5) by simp
    ultimately obtain readers where "bp_wait (live_edge g' - slot_count g') (now + 2000000000) polls = Some (Inr readers)"
      using publish_ok [of g' w f now polls slot_lock g''] pub by auto
    moreover have "\<forall>p\<in>set polls. overrun (live_edge g' - slot_count g') (fst p)"
    proof
      fix p
      assume "p \<in> set polls"
      then have "i < length (fst p)" "fst p ! i = \<lparr>rs_pid = pid, rs_cursor = 0\<rparr>" using assms(7) at by auto
      then show "overrun (live_edge g' - slot_count g') (fst p)"
        unfolding overrun_def list_ex_length using assms(5) by (intro exI [of _ i]) simp
    qed
    ultimately show False using bp_wait_blocked by blast
  qed
  ultimately show ?thesis by simp
qed

section \<open>A writer and its readers\<close>

text \<open>
  The writer inside \<open>publish\<close>: between two calls; in the scan of the reader table, about to load
  the process number of reader \<open>j\<close>, or its cursor; or past the scan. The scan takes no lock:
  readers attach, read and detach between any two of its loads. The stores are one step, since
  readers take the same slot lock for the slot they change.
\<close>

datatype writer = Returned | LoadPid bytes nat bool bool | LoadCursor bytes nat bool | Storing bytes

definition writer_begin :: "region \<Rightarrow> bytes \<Rightarrow> writer" where
  "writer_begin g f =
     (if rh_backpressure (rg_header g) \<and> live_edge g \<ge> slot_count g then LoadPid f 0 False False else Storing f)"

text \<open>
  One step, with what it finds at the end of a scan (the stop flag or the deadline) and at the
  slot's lock: the writer, the region and what was published.
\<close>

fun writer_step :: "ring \<Rightarrow> bool \<Rightarrow> bool \<Rightarrow> region \<Rightarrow> writer \<Rightarrow> writer \<times> region \<times> bytes list" where
  "writer_step w expired locked g Returned = (Returned, g, [])"
| "writer_step w expired locked g (LoadPid f j any blocked) =
     (if j < kMaxReaders then
        (if rs_pid (rh_readers (rg_header g) ! j) \<noteq> 0 then LoadCursor f j blocked else LoadPid f (Suc j) any blocked, g, [])
      else if any \<and> \<not> blocked then (Storing f, g, [])
      else if expired then (Returned, g, [])
      else (LoadPid f 0 False False, g, []))"
| "writer_step w expired locked g (LoadCursor f j blocked) =
     (LoadPid f (Suc j) True (blocked \<or> rs_cursor (rh_readers (rg_header g) ! j) \<le> live_edge g - slot_count g), g, [])"
| "writer_step w expired locked g (Storing f) =
     (if locked then (Returned, last (publish_stores g w (live_edge g) f), [f]) else (Returned, g, []))"

text \<open>Steps with nothing in between amount to \<open>publish\<close>.\<close>

inductive writer_steps :: "ring \<Rightarrow> region \<Rightarrow> writer \<Rightarrow> region \<Rightarrow> writer \<Rightarrow> bytes list \<Rightarrow> bool" for w where
  none: "writer_steps w g ph g ph []"
| step: "writer_step w expired locked g ph = (ph1, g1, out1) \<Longrightarrow> writer_steps w g1 ph1 g2 ph2 out2 \<Longrightarrow>
    writer_steps w g ph g2 ph2 (out1 @ out2)"

lemma scan_steps:
  assumes "length (rh_readers (rg_header g)) = kMaxReaders" and "j \<le> kMaxReaders"
  shows "writer_steps w g (LoadPid f kMaxReaders
      (any \<or> list_ex (\<lambda>r. rs_pid r \<noteq> 0) (drop j (rh_readers (rg_header g))))
      (blocked \<or> overrun (live_edge g - slot_count g) (drop j (rh_readers (rg_header g))))) g2 ph2 out \<Longrightarrow>
    writer_steps w g (LoadPid f j any blocked) g2 ph2 out"
  using assms(2)
proof (induction "kMaxReaders - j" arbitrary: j any blocked)
  case 0
  then show ?case using assms(1) by (simp add: overrun_def)
next
  case (Suc m)
  let ?rs = "rh_readers (rg_header g)"
  have j: "j < kMaxReaders" using Suc(2) by simp
  have d: "drop j ?rs = ?rs ! j # drop (Suc j) ?rs" using assms(1) j by (simp add: Cons_nth_drop_Suc)
  have ih: "writer_steps w g (LoadPid f (Suc j) any' blocked') g2 ph2 out"
    if "any \<or> rs_pid (?rs ! j) \<noteq> 0 \<longleftrightarrow> any'"
      "blocked \<or> (rs_pid (?rs ! j) \<noteq> 0 \<and> rs_cursor (?rs ! j) \<le> live_edge g - slot_count g) \<longleftrightarrow> blocked'" for any' blocked'
    by (rule Suc(1)) (use Suc j that in \<open>auto simp: d overrun_def\<close>)
  show ?case
  proof (cases "rs_pid (?rs ! j) = 0")
    case True
    have "writer_step w False True g (LoadPid f j any blocked) = (LoadPid f (Suc j) any blocked, g, [])" using j True by simp
    from writer_steps.step [OF this ih [of any blocked]] True show ?thesis by simp
  next
    case False
    let ?b = "blocked \<or> rs_cursor (?rs ! j) \<le> live_edge g - slot_count g"
    have 1: "writer_step w False True g (LoadPid f j any blocked) = (LoadCursor f j blocked, g, [])" using j False by simp
    have 2: "writer_step w False True g (LoadCursor f j blocked) = (LoadPid f (Suc j) True ?b, g, [])" by simp
    from writer_steps.step [OF 1 writer_steps.step [OF 2 ih [of True ?b]]] False show ?thesis by simp
  qed
qed

lemma publish_steps:
  assumes "publish g w (Some f) now [(rh_readers (rg_header g), stop, t)] lock = Some (Inr g')"
    and "length (rh_readers (rg_header g)) = kMaxReaders"
  shows "writer_steps w g (writer_begin g f) g' Returned [f]"
proof -
  let ?rs = "rh_readers (rg_header g)"
  obtain readers where g': "g' = last (publish_stores (g\<lparr>rg_header := (rg_header g)\<lparr>rh_readers := readers\<rparr>\<rparr>) w (live_edge g) f)"
    and bp: "if rh_backpressure (rg_header g) \<and> live_edge g \<ge> slot_count g
     then bp_wait (live_edge g - slot_count g) (now + 2000000000) [(?rs, stop, t)] = Some (Inr readers) else readers = ?rs"
    using publish_ok [OF assms(1)] by blast
  have "readers = ?rs" using bp by (auto split: if_splits)
  then have "writer_step w False True g (Storing f) = (Returned, g', [f])" by (simp add: g')
  from writer_steps.step [OF this writer_steps.none] have st: "writer_steps w g (Storing f) g' Returned [f]" by simp
  show ?thesis
  proof (cases "rh_backpressure (rg_header g) \<and> live_edge g \<ge> slot_count g")
    case True
    then have "list_ex (\<lambda>r. rs_pid r \<noteq> 0) ?rs \<and> \<not> overrun (live_edge g - slot_count g) ?rs"
      using bp by (simp split: if_splits)
    moreover have "writer_step w False True g (LoadPid f kMaxReaders True False) = (Storing f, g, [])" by simp
    ultimately have "writer_steps w g (LoadPid f 0 False False) g' Returned [f]"
      using scan_steps [OF assms(2), of 0 w f False False g' Returned "[f]"] writer_steps.step [OF _ st] by fastforce
    then show ?thesis using True by (simp add: writer_begin_def)
  qed (use st in \<open>auto simp: writer_begin_def\<close>)
qed

text \<open>
  Runs of one writer under backpressure and readers that follow their cursors, step by step;
  \<open>rec i\<close> is what the reader in slot \<open>i\<close> has received. A reader joins while the ring is not yet
  full, or when it is just full and the writer is between two calls.
\<close>

inductive ring_run :: "u64 \<Rightarrow> ring \<Rightarrow> region \<Rightarrow> writer \<Rightarrow> bytes list \<Rightarrow> (nat \<Rightarrow> bytes list) \<Rightarrow> bool" for sz w where
  init: "attach_init sz base_ok count now policy mutexes = Inr (g, w) \<Longrightarrow> policy \<noteq> Some ''overwrite'' \<Longrightarrow>
    ring_run sz w g Returned [] (\<lambda>_. [])"
| attach: "ring_run sz w g ph L rec \<Longrightarrow> attach_reader sz base_ok count pid lock g = Inr (g', r) \<Longrightarrow>
    r_reader r = Some i \<Longrightarrow> live_edge g < slot_count g \<or> live_edge g = slot_count g \<and> ph = Returned \<Longrightarrow>
    ring_run sz w g' ph L (rec(i := []))"
| detach: "ring_run sz w g ph L rec \<Longrightarrow> r_reader r = Some i \<Longrightarrow> i < kMaxReaders \<Longrightarrow> ring_run sz w (detach g r) ph L rec"
| publish: "ring_run sz w g Returned L rec \<Longrightarrow> f \<noteq> [] \<Longrightarrow> length f \<le> kFrameCap \<Longrightarrow>
    Suc (length L) + unat (slot_count g) < 2 ^ 64 \<Longrightarrow> ring_run sz w g (writer_begin g f) L rec"
| writer: "ring_run sz w g ph L rec \<Longrightarrow> writer_step w expired locked g ph = (ph', g', out) \<Longrightarrow>
    ring_run sz w g' ph' (L @ out) rec"
| read: "ring_run sz w g ph L rec \<Longrightarrow> r_mask r = r_mask w \<Longrightarrow> r_reader r = Some i \<Longrightarrow> i < kMaxReaders \<Longrightarrow>
    rs_pid (rh_readers (rg_header g) ! i) \<noteq> 0 \<Longrightarrow>
    read g r (rs_cursor (rh_readers (rg_header g) ! i)) (Inr locked) = Inr (st, out, resume, g') \<Longrightarrow>
    ring_run sz w g' ph L (if st = kOk then rec(i := rec i @ [out]) else rec)"

definition reader_inv :: "nat \<Rightarrow> bytes list \<Rightarrow> reader_state \<Rightarrow> bytes list \<Rightarrow> bool" where
  "reader_inv n L s rc \<longleftrightarrow> (rs_pid s \<noteq> 0 \<longrightarrow> rc = take (unat (rs_cursor s)) L \<and>
     unat (rs_cursor s) \<le> length L \<and> length L \<le> unat (rs_cursor s) + n)"

text \<open>A reader that the next frame does not overrun, and what the writer knows of the readers it has scanned.\<close>

definition passed :: "nat \<Rightarrow> bytes list \<Rightarrow> reader_state \<Rightarrow> bool" where
  "passed n L s \<longleftrightarrow> (rs_pid s \<noteq> 0 \<longrightarrow> Suc (length L) \<le> unat (rs_cursor s) + n)"

definition storable :: "nat \<Rightarrow> bytes list \<Rightarrow> bytes \<Rightarrow> bool" where
  "storable n L f \<longleftrightarrow> f \<noteq> [] \<and> length f \<le> kFrameCap \<and> Suc (length L) + n < 2 ^ 64"

fun writer_inv :: "nat \<Rightarrow> bytes list \<Rightarrow> reader_state list \<Rightarrow> writer \<Rightarrow> bool" where
  "writer_inv n L rs Returned \<longleftrightarrow> True"
| "writer_inv n L rs (LoadPid f j any blocked) \<longleftrightarrow> storable n L f \<and> n \<le> length L \<and> j \<le> kMaxReaders \<and>
     (\<not> blocked \<longrightarrow> (\<forall>i<j. passed n L (rs ! i)))"
| "writer_inv n L rs (LoadCursor f j blocked) \<longleftrightarrow> storable n L f \<and> n \<le> length L \<and> j < kMaxReaders \<and>
     (\<not> blocked \<longrightarrow> (\<forall>i<j. passed n L (rs ! i)))"
| "writer_inv n L rs (Storing f) \<longleftrightarrow> storable n L f \<and> (\<forall>i<kMaxReaders. passed n L (rs ! i))"

definition ring_inv :: "ring \<Rightarrow> nat \<Rightarrow> region \<Rightarrow> bytes list \<Rightarrow> (nat \<Rightarrow> bytes list) \<Rightarrow> bool" where
  "ring_inv w n g L rec \<longleftrightarrow> ring_log g w n L \<and> rh_backpressure (rg_header g) \<and> length (rh_readers (rg_header g)) = kMaxReaders \<and>
     (\<forall>i<kMaxReaders. reader_inv n L (rh_readers (rg_header g) ! i) (rec i))"

definition run_inv :: "ring \<Rightarrow> region \<Rightarrow> writer \<Rightarrow> bytes list \<Rightarrow> (nat \<Rightarrow> bytes list) \<Rightarrow> bool" where
  "run_inv w g ph L rec \<longleftrightarrow> (\<exists>n. ring_inv w n g L rec \<and> writer_inv n L (rh_readers (rg_header g)) ph)"

lemma writer_inv_update:
  assumes "writer_inv n L rs ph" and "length rs = kMaxReaders" and "ph \<noteq> Returned \<Longrightarrow> passed n L (rs ! i) \<Longrightarrow> passed n L s"
  shows "writer_inv n L (rs[i := s]) ph"
proof -
  have "passed n L (rs[i := s] ! k)" if "ph \<noteq> Returned" "passed n L (rs ! k)" "k < kMaxReaders" for k
    using that assms(2,3) by (cases "k = i") auto
  then show ?thesis using assms(1) by (cases ph) auto
qed

lemma run_inv_update:
  assumes "run_inv w g ph L rec" and "i < kMaxReaders"
    and "\<And>n. ring_inv w n g L rec \<Longrightarrow> reader_inv n L (rh_readers (rg_header g) ! i) (rec i) \<Longrightarrow>
      reader_inv n L s rc \<and> (ph \<noteq> Returned \<longrightarrow> passed n L (rh_readers (rg_header g) ! i) \<longrightarrow> passed n L s)"
    and "g' = set_readers g ((rh_readers (rg_header g))[i := s])"
  shows "run_inv w g' ph L (rec(i := rc))"
proof -
  obtain n where n: "ring_inv w n g L rec" "writer_inv n L (rh_readers (rg_header g)) ph"
    using assms(1) by (auto simp: run_inv_def)
  have s: "reader_inv n L s rc" "ph \<noteq> Returned \<Longrightarrow> passed n L (rh_readers (rg_header g) ! i) \<Longrightarrow> passed n L s"
    using assms(3) [OF n(1)] n(1) assms(2) by (auto simp: ring_inv_def)
  have "writer_inv n L ((rh_readers (rg_header g))[i := s]) ph"
    using writer_inv_update [OF n(2) _ s(2)] n(1) by (simp add: ring_inv_def)
  moreover have "ring_inv w n g' L (rec(i := rc))"
    using n(1) s(1) assms(4) by (auto simp: ring_inv_def nth_list_update)
  ultimately show ?thesis using assms(4) by (auto simp: run_inv_def)
qed

text \<open>A successful scan of one reader, and the frame behind a full scan.\<close>

lemma cursor_passed:
  assumes "ring_log g w n L" and "n \<le> length L" and "\<not> rs_cursor s \<le> live_edge g - slot_count g"
  shows "passed n L s"
proof -
  note l = ring_log_simps [OF assms(1)]
  have "slot_count g \<le> live_edge g" using assms(2) l(3,5) by (simp add: word_le_nat_alt)
  then have "unat (live_edge g - slot_count g) = length L - n" using l(3,5) by (simp add: unat_sub)
  then have "length L - n < unat (rs_cursor s)" using assms(3) by (simp add: word_le_nat_alt)
  then show ?thesis unfolding passed_def by linarith
qed

lemma store_inv:
  assumes "ring_inv w n g L rec" and "writer_inv n L (rh_readers (rg_header g)) (Storing f)"
  shows "ring_inv w n (last (publish_stores g w (live_edge g) f)) (L @ [f]) rec"
proof -
  let ?g = "last (publish_stores g w (live_edge g) f)"
  have "ring_log ?g w n (L @ [f])"
    using publish_log [of g w n L f] assms by (simp add: ring_inv_def storable_def)
  moreover have "rg_header ?g = (rg_header g)\<lparr>rh_write_index := live_edge g + 1\<rparr>" unfolding last_publish_stores by simp
  ultimately show ?thesis using assms by (auto simp: ring_inv_def reader_inv_def passed_def)
qed

lemma run_inv_writer:
  assumes "run_inv w g ph L rec" and "writer_step w expired locked g ph = (ph', g', out)"
  shows "run_inv w g' ph' (L @ out) rec"
proof -
  obtain n where n: "ring_inv w n g L rec" "writer_inv n L (rh_readers (rg_header g)) ph"
    using assms(1) by (auto simp: run_inv_def)
  have log: "ring_log g w n L" using n(1) by (simp add: ring_inv_def)
  show ?thesis
  proof (cases ph)
    case Returned
    then show ?thesis using assms by simp
  next
    case (LoadPid f j any blocked)
    have "rs_pid s = 0 \<Longrightarrow> passed n L s" for s by (simp add: passed_def)
    then have "g' = g \<and> out = [] \<and> writer_inv n L (rh_readers (rg_header g)) ph'"
      using assms(2) n(2) LoadPid by (auto simp: less_Suc_eq split: if_splits)
    then show ?thesis using n(1) by (auto simp: run_inv_def)
  next
    case (LoadCursor f j blocked)
    then have "g' = g \<and> out = [] \<and> writer_inv n L (rh_readers (rg_header g)) ph'"
      using assms(2) n(2) cursor_passed [OF log] by (auto simp: less_Suc_eq)
    then show ?thesis using n(1) by (auto simp: run_inv_def)
  next
    case (Storing f)
    then show ?thesis
      using assms(2) n store_inv [of w n g L rec f] by (auto simp: run_inv_def split: if_splits)
  qed
qed

lemma run_inv_begin:
  assumes "run_inv w g Returned L rec" and "f \<noteq> []" and "length f \<le> kFrameCap" and "Suc (length L) + unat (slot_count g) < 2 ^ 64"
  shows "run_inv w g (writer_begin g f) L rec"
proof -
  obtain n where n: "ring_inv w n g L rec" using assms(1) by (auto simp: run_inv_def)
  then have log: "ring_log g w n L" "rh_backpressure (rg_header g)" by (simp_all add: ring_inv_def)
  note l = ring_log_simps [OF log(1)]
  have "writer_inv n L (rh_readers (rg_header g)) (writer_begin g f)"
    using assms(2-4) l(3,5) log(2) by (auto simp: writer_begin_def storable_def passed_def word_le_nat_alt)
  then show ?thesis using n by (auto simp: run_inv_def)
qed

lemma run_inv_read:
  assumes inv: "run_inv w g ph L rec" and mask: "r_mask r = r_mask w" and i: "r_reader r = Some i" "i < kMaxReaders"
    and act: "rs_pid (rh_readers (rg_header g) ! i) \<noteq> 0"
    and rd: "read g r (rs_cursor (rh_readers (rg_header g) ! i)) (Inr locked) = Inr (st, out, resume, g')"
  shows "run_inv w g' ph L (if st = kOk then rec(i := rec i @ [out]) else rec)"
proof -
  let ?s = "rh_readers (rg_header g) ! i"
  obtain n where n: "ring_log g w n L" "reader_inv n L ?s (rec i)" using inv i(2) by (auto simp: run_inv_def ring_inv_def)
  note s = ring_log_simps [OF n(1)]
  have c: "unat (rs_cursor ?s) \<le> length L" "length L \<le> unat (rs_cursor ?s) + n" using n(2) act by (auto simp: reader_inv_def)
  have logr: "ring_log g r n L" using n(1) mask by (simp add: ring_log_def)
  have sm: "Suc (unat (rs_cursor ?s)) < 2 ^ 64" using c s(1,6) by linarith
  show ?thesis
  proof (cases "locked \<and> unat (rs_cursor ?s) < length L")
    case True
    then have o: "st = kOk" "out = L ! unat (rs_cursor ?s)" "g' = advance_cursor g r (rs_cursor ?s + 1)"
      using rd read_log [OF logr sm] c by (auto split: if_splits)
    have "run_inv w g' ph L (rec(i := rec i @ [out]))"
    proof (rule run_inv_update [OF inv i(2)])
      show "g' = set_readers g ((rh_readers (rg_header g))[i := ?s\<lparr>rs_cursor := rs_cursor ?s + 1\<rparr>])"
        by (simp add: o(3) advance_cursor_def i(1) set_readers_def)
      show "reader_inv m L (?s\<lparr>rs_cursor := rs_cursor ?s + 1\<rparr>) (rec i @ [out]) \<and>
          (ph \<noteq> Returned \<longrightarrow> passed m L ?s \<longrightarrow> passed m L (?s\<lparr>rs_cursor := rs_cursor ?s + 1\<rparr>))"
        if "reader_inv m L ?s (rec i)" for m
        using that act True o(2) unat_inc [of "rs_cursor ?s"] sm
        by (auto simp: reader_inv_def passed_def take_Suc_conv_app_nth)
    qed
    then show ?thesis using o(1) by simp
  next
    case False
    then have "st = kEmpty \<and> g' = g"
      using rd read_log [OF logr sm] by (cases locked) (auto simp: read_def)
    then show ?thesis using inv by simp
  qed
qed

lemma run_inv_attach:
  assumes inv: "run_inv w g ph L rec" and at: "attach_reader sz base_ok count pid lock g = Inr (g', r)" "r_reader r = Some i"
    and edge: "live_edge g < slot_count g \<or> live_edge g = slot_count g \<and> ph = Returned"
  shows "run_inv w g' ph L (rec(i := []))"
proof -
  have i: "i < kMaxReaders" "g' = set_readers g ((rh_readers (rg_header g))[i := \<lparr>rs_pid = pid, rs_cursor = 0\<rparr>])"
    using attach_reader_at [OF at] inv by (auto simp: run_inv_def ring_inv_def)
  have "reader_inv n L \<lparr>rs_pid = pid, rs_cursor = 0\<rparr> [] \<and> (ph \<noteq> Returned \<longrightarrow> passed n L \<lparr>rs_pid = pid, rs_cursor = 0\<rparr>)"
    if "ring_inv w n g L rec" for n
  proof -
    have log: "ring_log g w n L" using that by (simp add: ring_inv_def)
    then show ?thesis
      using edge ring_log_simps(3,5) [OF log] by (auto simp: reader_inv_def passed_def word_less_nat_alt)
  qed
  then show ?thesis by (intro run_inv_update [OF inv i(1) _ i(2)]) blast
qed

lemma ring_run_inv: "ring_run sz w g ph L rec \<Longrightarrow> run_inv w g ph L rec"
proof (induction rule: ring_run.induct)
  case (init base_ok count now policy mutexes g)
  note a = attach_init_log [OF init(1)]
  show ?case unfolding run_inv_def ring_inv_def
    using a init(2) by (intro exI [of _ "unat count"]) (simp add: reader_inv_def)
next
  case (detach g ph L rec r i)
  let ?s = "(rh_readers (rg_header g) ! i)\<lparr>rs_pid := 0\<rparr>"
  have "run_inv w (detach g r) ph L (rec(i := rec i))"
    by (rule run_inv_update [OF detach.IH detach(3), where s = ?s])
      (use detach(2) in \<open>simp_all add: reader_inv_def passed_def detach_def set_readers_def\<close>)
  then show ?case by simp
qed (blast intro: run_inv_attach run_inv_begin run_inv_writer run_inv_read)+

text \<open>
  C27. Under backpressure the fan-out is lossless and in order for the readers that join in time:
  while the ring is not yet full, or when it is just full and the writer is not inside \<open>publish\<close>.
  The writer scans the reader table one load at a time and without a lock, readers act in
  between, and each of them reads at its cursor. In every such run, what an attached reader has
  received is a prefix of the log, and its next read is never lapped: it returns the next frame
  of the log, or says empty when it has received them all.
\<close>

theorem ring_delivers_in_order:
  assumes "ring_run sz w g ph L rec" and "i < kMaxReaders" and "rs_pid (rh_readers (rg_header g) ! i) \<noteq> 0"
    and "r_mask r = r_mask w" and "r_reader r = Some i"
  shows "rec i = take (length (rec i)) L \<and>
    read g r (rs_cursor (rh_readers (rg_header g) ! i)) (Inr True) =
      (if length (rec i) = length L then Inr (kEmpty, [], 0, g)
       else Inr (kOk, L ! length (rec i), 0, advance_cursor g r (rs_cursor (rh_readers (rg_header g) ! i) + 1)))"
proof -
  let ?c = "rs_cursor (rh_readers (rg_header g) ! i)"
  obtain n where n: "ring_log g w n L" "rec i = take (unat ?c) L" "unat ?c \<le> length L" "length L \<le> unat ?c + n"
    using ring_run_inv [OF assms(1)] assms(2,3) by (auto simp: run_inv_def ring_inv_def reader_inv_def)
  have "ring_log g r n L" using n(1) assms(4) by (simp add: ring_log_def)
  moreover have "Suc (unat ?c) < 2 ^ 64" using n(3) ring_log_simps(1,6) [OF n(1)] by linarith
  ultimately show ?thesis using read_log [of g r n L ?c] n by auto
qed

text \<open>
  The condition on joining is needed: a reader that attaches to a ring that is just full, after
  the writer's scan and before its stores, is lapped at its first read.
\<close>

lemma late_reader_lapped:
  assumes "ring_log g w n L" and "length L = n" and "attach_reader sz base_ok count pid lock g = Inr (g', r)"
    and "f \<noteq> []" and "length f \<le> kFrameCap" and "writer_step w expired True g' (Storing f) = (Returned, g'', out)"
  shows "read g'' r 0 (Inr True) = Inr (kLapped, [], 1, g'')"
proof -
  note at = attach_reader_log [OF assms(3,1)]
  obtain k where "k < 32" "n = 2 ^ k" using assms(1) unfolding ring_log_def by blast
  then have "n < 2 ^ 32" by (simp only: power_strict_increasing_iff)
  then have "ring_log g'' w n (L @ [f])"
    using publish_log [OF at(1) assms(4,5)] assms(2,6) by auto
  then have "ring_log g'' r n (L @ [f])" using at(2) by (simp add: ring_log_def)
  from read_log [OF this, of 0] show ?thesis using assms(2) by simp
qed

section \<open>Instances\<close>

text \<open>A ring of one slot, new and with one frame in it.\<close>

definition ring_1 :: "region \<times> ring" where
  "ring_1 = projr (attach_init 640 True 1 0 None (Inr ()))"

lemma ring_1: "attach_init 640 True 1 0 None (Inr ()) = Inr (fst ring_1, snd ring_1)"
  by (simp add: ring_1_def attach_init_def is_power_of_two_def)

lemmas ring_1_facts = attach_init_log [OF ring_1]

lemma ring_1_log: "ring_log (fst ring_1) (snd ring_1) 1 []"
  using ring_1_facts(1) by simp

lemma frame_ok: "[7 :: u8] \<noteq> []" "length [7 :: u8] \<le> kFrameCap"
  by (simp_all add: kFrameCap_def size_consts)

definition ring_1_full :: region where
  "ring_1_full = last (publish_stores (fst ring_1) (snd ring_1) (live_edge (fst ring_1)) [7])"

lemma ring_1_full_log: "ring_log ring_1_full (snd ring_1) 1 [[7]]"
  using publish_log [OF ring_1_log frame_ok] by (simp add: ring_1_full_def)

lemma ring_read_spec_witness:
  "read ring_1_full (snd ring_1) 0 (Inr True) = Inr (kOk, [7], 0, advance_cursor ring_1_full (snd ring_1) 1)"
  using ring_read_spec [OF ring_1_full_log, of 0] by simp

lemma ring_1_publish: "publish (fst ring_1) (snd ring_1) (Some [7]) 0 [] (Inr ()) = Some (Inr ring_1_full)"
proof -
  have "\<not> slot_count (fst ring_1) \<le> live_edge (fst ring_1)"
    using ring_log_simps(3,5) [OF ring_1_log] by (simp add: word_le_nat_alt)
  then show ?thesis
    using frame_ok(2) ring_1_facts(2) by (simp add: publish_def Let_def ring_1_full_def not_less)
qed

lemma ring_publish_refines_witness: "ring_log ring_1_full (snd ring_1) 1 ([] @ [[7]])"
  by (rule ring_publish_refines [OF ring_1_log ring_1_publish]) simp

lemma ring_no_torn_frame_witness:
  "ring_1_full \<in> set (publish_stores (fst ring_1) (snd ring_1) (live_edge (fst ring_1)) [7]) \<and>
   unat (0 :: u64) \<le> length ([] :: bytes list) \<and> [7] = ([] @ [[7 :: u8]]) ! unat (0 :: u64)"
proof
  show m: "ring_1_full \<in> set (publish_stores (fst ring_1) (snd ring_1) (live_edge (fst ring_1)) [7])"
    unfolding ring_1_full_def by (rule last_in_set) (simp add: publish_stores_def Let_def)
  have "read ring_1_full (snd ring_1) 0 (Inr True) = Inr (kOk, [7], 0, advance_cursor ring_1_full (snd ring_1) 1)"
    using read_log [OF ring_1_full_log, of 0] by simp
  then show "unat (0 :: u64) \<le> length ([] :: bytes list) \<and> [7] = ([] @ [[7 :: u8]]) ! unat (0 :: u64)"
    by (intro ring_no_torn_frame [OF ring_1_log frame_ok _ m]) simp_all
qed

lemma ring_1_metadata:
  "rh_magic (rg_header (fst ring_1)) = ring_magic" "rh_layout_version (rg_header (fst ring_1)) = 3"
  "rh_slot_count (rg_header (fst ring_1)) = 1" "rh_slot_size (rg_header (fst ring_1)) = 640"
  by (simp_all add: ring_1_def attach_init_def is_power_of_two_def)

lemma publish_returns_witness:
  "publish (fst ring_1) (snd ring_1) (Some [7]) 5 [([], False, 2000000005)] (Inr ()) \<noteq> None"
  by (rule publish_returns) simp

definition ring_1_reader :: "region \<times> ring" where
  "ring_1_reader = projr (attach_reader 640 True 1 12 (Inr ()) (fst ring_1))"

lemma ring_1_first_free: "first_free 0 (rh_readers (rg_header (fst ring_1))) = Some 0"
proof -
  have m: "kMaxReaders = Suc 63" by (simp add: kMaxReaders_def)
  show ?thesis unfolding ring_1_facts(3) m replicate_Suc by simp
qed

lemma ring_1_reader:
  "attach_reader 640 True 1 12 (Inr ()) (fst ring_1) = Inr (fst ring_1_reader, snd ring_1_reader)"
  "r_reader (snd ring_1_reader) = Some 0" "r_mask (snd ring_1_reader) = r_mask (snd ring_1)"
  "rs_pid (rh_readers (rg_header (fst ring_1_reader)) ! 0) \<noteq> 0"
proof -
  have "is_power_of_two 1" by (simp add: is_power_of_two_def)
  then have r: "attach_reader 640 True 1 12 (Inr ()) (fst ring_1) =
      Inr ((fst ring_1)\<lparr>rg_header := (rg_header (fst ring_1))\<lparr>rh_readers :=
          (rh_readers (rg_header (fst ring_1)))[0 := \<lparr>rs_pid = 12, rs_cursor = 0\<rparr>]\<rparr>\<rparr>,
        \<lparr>r_mask = ucast (1 - 1 :: u32), r_reader = Some 0\<rparr>)"
    by (simp add: attach_reader_def ring_1_metadata ring_1_first_free Let_def)
  have "0 < length (rh_readers (rg_header (fst ring_1)))"
    unfolding ring_1_facts(3) by (simp add: kMaxReaders_def)
  then show "attach_reader 640 True 1 12 (Inr ()) (fst ring_1) = Inr (fst ring_1_reader, snd ring_1_reader)"
    "r_reader (snd ring_1_reader) = Some 0" "r_mask (snd ring_1_reader) = r_mask (snd ring_1)"
    "rs_pid (rh_readers (rg_header (fst ring_1_reader)) ! 0) \<noteq> 0"
    unfolding ring_1_reader_def r ring_1_facts(5) by simp_all
qed

lemma attach_reader_spec_witness:
  "matching 640 True 1 (fst ring_1) \<and> reader_count (fst ring_1_reader) = reader_count (fst ring_1) + 1 \<and>
     reader_count (detach (fst ring_1_reader) (snd ring_1_reader)) = reader_count (fst ring_1)"
  using attach_reader_spec [where pid = 12 and sz = 640 and base_ok = True and count = 1 and lock = "Inr ()" and g = "fst ring_1"] unfolding ring_1_reader(1) by (simp add: split_beta)

text \<open>A reader that attaches after a frame has filled the ring of one slot.\<close>

definition late_reader :: "region \<times> ring" where
  "late_reader = projr (attach_reader 640 True 1 12 (Inr ()) ring_1_full)"

lemma ring_1_full_header:
  "rg_header ring_1_full = (rg_header (fst ring_1))\<lparr>rh_write_index := live_edge (fst ring_1) + 1\<rparr>"
  unfolding ring_1_full_def last_publish_stores by simp

lemma late_reader:
  "attach_reader 640 True 1 12 (Inr ()) ring_1_full = Inr (fst late_reader, snd late_reader)" "r_reader (snd late_reader) = Some 0"
proof -
  have "is_power_of_two 1" by (simp add: is_power_of_two_def)
  then show "attach_reader 640 True 1 12 (Inr ()) ring_1_full = Inr (fst late_reader, snd late_reader)" "r_reader (snd late_reader) = Some 0"
    by (simp_all add: late_reader_def attach_reader_def ring_1_full_header ring_1_metadata ring_1_first_free Let_def)
qed

lemma from_edge_blocks_writer_witness:
  "read (fst late_reader) (snd late_reader) (live_edge (fst late_reader)) (Inr True) = Inr (kEmpty, [], 0, fst late_reader) \<and>
   rs_cursor (rh_readers (rg_header (fst late_reader)) ! 0) = 0 \<and>
   publish (fst late_reader) (snd ring_1) (Some [7]) 0 [([rh_readers (rg_header (fst late_reader)) ! 0], False, 1)] (Inr ()) \<noteq>
     Some (Inr ring_1_full)"
proof (rule from_edge_blocks_writer [OF ring_1_full_log _ _ late_reader(1) _ late_reader(2)])
  show "rh_backpressure (rg_header ring_1_full)" using ring_1_facts(6) by (simp add: ring_1_full_header)
qed simp_all

lemma ring_delivers_in_order_witness:
  "\<exists>g'. ring_run 640 (snd ring_1) g' Returned [[7]] ((\<lambda>_. [])(0 := [])) \<and>
     read g' (snd ring_1_reader) (rs_cursor (rh_readers (rg_header g') ! 0)) (Inr True) =
       Inr (kOk, [7], 0, advance_cursor g' (snd ring_1_reader) (rs_cursor (rh_readers (rg_header g') ! 0) + 1))"
proof -
  let ?g = "fst ring_1_reader" and ?w = "snd ring_1"
  let ?g' = "last (publish_stores ?g ?w (live_edge ?g) [7])"
  have edge: "live_edge (fst ring_1) < slot_count (fst ring_1)"
    using ring_log_simps(3,5) [OF ring_1_log] by (simp add: word_less_nat_alt)
  have g: "live_edge ?g = live_edge (fst ring_1)" "slot_count ?g = slot_count (fst ring_1)"
    using attach_reader_log [OF ring_1_reader(1) ring_1_log] by simp_all
  have "ring_run 640 ?w ?g Returned [] ((\<lambda>_. [])(0 := []))"
    using edge by (intro ring_run.attach [OF ring_run.init [OF ring_1] ring_1_reader(1,2)]) simp_all
  then have "ring_run 640 ?w ?g (writer_begin ?g [7]) [] ((\<lambda>_. [])(0 := []))"
    using frame_ok ring_log_simps(3) [OF ring_1_log] g by (intro ring_run.publish) simp_all
  moreover have "writer_step ?w False True ?g (writer_begin ?g [7]) = (Returned, ?g', [[7]])"
    using edge g by (simp add: writer_begin_def not_le)
  ultimately have "ring_run 640 ?w ?g' Returned ([] @ [[7]]) ((\<lambda>_. [])(0 := []))" by (rule ring_run.writer)
  then have run: "ring_run 640 ?w ?g' Returned [[7]] ((\<lambda>_. [])(0 := []))" by simp
  have "rs_pid (rh_readers (rg_header ?g') ! 0) \<noteq> 0" using ring_1_reader(4) unfolding last_publish_stores by simp
  from ring_delivers_in_order [OF run _ this ring_1_reader(3,2)] run show ?thesis by (auto simp: kMaxReaders_def)
qed

end
