(* ===== verification/Args.thy ===== *)
theory Args
  imports Ring Fec_Encoder Samples
begin

text \<open>
  Command lines: the number parsers of the C++ library the programs use, the option loop they
  share, and \<open>parse_args\<close> of the consumer and the receiver with its range checks. A configuration
  that comes out of it satisfies the bounds the rest of the program relies on.
\<close>

section \<open>Numbers\<close>

definition is_space :: "char \<Rightarrow> bool" where
  "is_space c = (c \<in> set [CHR '' '', CHR 0x09, CHR 0x0A, CHR 0x0B, CHR 0x0C, CHR 0x0D])"

definition is_digit :: "char \<Rightarrow> bool" where
  "is_digit c = (48 \<le> (of_char c :: nat) \<and> (of_char c :: nat) \<le> 57)"

definition digits_value :: "string \<Rightarrow> nat" where
  "digits_value ds = foldl (\<lambda>n d. 10 * n + (of_char d - 48)) 0 ds"

text \<open>
  The prefix \<open>strtoul\<close> and its kin convert: white space, a sign, decimal digits. The result is
  whether there was a minus sign, and the digits.
\<close>

definition scan_number :: "string \<Rightarrow> bool \<times> string" where
  "scan_number s =
     (let s = dropWhile is_space s;
          neg = (s \<noteq> [] \<and> hd s = CHR ''-'');
          s = (if s \<noteq> [] \<and> (hd s = CHR ''-'' \<or> hd s = CHR ''+'') then tl s else s)
      in (neg, takeWhile is_digit s))"

text \<open>\<open>std::stoull\<close>, and \<open>std::stoul\<close> on a 64-bit platform.\<close>

definition stoull :: "string \<Rightarrow> exn + u64" where
  "stoull s =
     (let (neg, ds) = scan_number s
      in if ds = [] then Inl InvalidArgument
         else if digits_value ds \<ge> 2 ^ 64 then Inl OutOfRange
         else Inr (if neg then - of_nat (digits_value ds) else of_nat (digits_value ds)))"

text \<open>\<open>std::stoi\<close>.\<close>

definition stoi :: "string \<Rightarrow> exn + int" where
  "stoi s =
     (let (neg, ds) = scan_number s;
          v = (if neg then - int (digits_value ds) else int (digits_value ds))
      in if ds = [] then Inl InvalidArgument
         else if v < - (2 ^ 31) \<or> v > 2 ^ 31 - 1 then Inl OutOfRange
         else Inr v)"

text \<open>
  Comparing doubles by their bit patterns: a NaN compares false, the others compare like their
  sign and magnitude. The conversion \<open>std::stod\<close> itself is a parameter of the parsers below.
\<close>

definition d_nan :: "u64 \<Rightarrow> bool" where
  "d_nan x \<longleftrightarrow> x AND mask 63 > 0x7ff0000000000000"

definition d_order :: "u64 \<Rightarrow> int" where
  "d_order x = (if bit x 63 then - uint (x AND mask 63) else uint (x AND mask 63))"

definition d_less :: "u64 \<Rightarrow> u64 \<Rightarrow> bool" where
  "d_less x y \<longleftrightarrow> \<not> d_nan x \<and> \<not> d_nan y \<and> d_order x < d_order y"

definition d_eq :: "u64 \<Rightarrow> u64 \<Rightarrow> bool" where
  "d_eq x y \<longleftrightarrow> \<not> d_nan x \<and> \<not> d_nan y \<and> d_order x = d_order y"

section \<open>The option loop\<close>

text \<open>A bad command line ends the program with status 2, by \<open>exit\<close> or by an exception.\<close>

datatype arg_error = Exit2 | Throws exn

definition lift_exn :: "exn + 'a \<Rightarrow> ('a \<Rightarrow> arg_error + 'b) \<Rightarrow> arg_error + 'b" where
  "lift_exn m f = (case m of Inl e \<Rightarrow> Inl (Throws e) | Inr x \<Rightarrow> f x)"

text \<open>
  The loop over \<open>argv\<close>: one step gets the option and the argument after it, if any, and says
  whether it called \<open>next()\<close>.
\<close>

fun arg_loop :: "('c \<Rightarrow> string \<Rightarrow> string option \<Rightarrow> arg_error + 'c \<times> bool) \<Rightarrow> 'c \<Rightarrow> string list \<Rightarrow> arg_error + 'c" where
  "arg_loop opt c [] = Inr c"
| "arg_loop opt c [a] = (case opt c a None of Inl e \<Rightarrow> Inl e | Inr (c, _) \<Rightarrow> Inr c)"
| "arg_loop opt c (a # v # rest) =
     (case opt c a (Some v) of Inl e \<Rightarrow> Inl e
      | Inr (c, used) \<Rightarrow> if used then arg_loop opt c rest else arg_loop opt c (v # rest))"

definition flag :: "'c \<Rightarrow> arg_error + 'c \<times> bool" where
  "flag c = Inr (c, False)"

definition with_value :: "string option \<Rightarrow> (string \<Rightarrow> arg_error + 'c) \<Rightarrow> arg_error + 'c \<times> bool" where
  "with_value nxt f =
     (case nxt of None \<Rightarrow> Inl Exit2
      | Some v \<Rightarrow> (case f v of Inl e \<Rightarrow> Inl e | Inr c \<Rightarrow> Inr (c, True)))"

section \<open>Consumer\<close>

record consumer_config =
  cc_shm_name :: string
  cc_slots :: u32
  cc_count :: u64
  cc_from_edge :: bool
  cc_csv :: string
  cc_idle_ms :: u64
  cc_skip :: u64

definition consumer_defaults :: consumer_config where
  "consumer_defaults = \<lparr>cc_shm_name = ''/fanout_ring'', cc_slots = 1024, cc_count = 0, cc_from_edge = False,
     cc_csv = [], cc_idle_ms = 2000, cc_skip = 0\<rparr>"

definition consumer_option :: "consumer_config \<Rightarrow> string \<Rightarrow> string option \<Rightarrow> arg_error + consumer_config \<times> bool" where
  "consumer_option c a nxt =
     (if a = ''--shm'' then with_value nxt (\<lambda>v. Inr (c\<lparr>cc_shm_name := v\<rparr>))
      else if a = ''--slots'' then with_value nxt (\<lambda>v. lift_exn (stoull v) (\<lambda>n. Inr (c\<lparr>cc_slots := ucast n\<rparr>)))
      else if a = ''--count'' then with_value nxt (\<lambda>v. lift_exn (stoull v) (\<lambda>n. Inr (c\<lparr>cc_count := n\<rparr>)))
      else if a = ''--from-edge'' then flag (c\<lparr>cc_from_edge := True\<rparr>)
      else if a = ''--csv'' then with_value nxt (\<lambda>v. Inr (c\<lparr>cc_csv := v\<rparr>))
      else if a = ''--idle-ms'' then with_value nxt (\<lambda>v. lift_exn (stoull v) (\<lambda>n. Inr (c\<lparr>cc_idle_ms := n\<rparr>)))
      else if a = ''--skip'' then with_value nxt (\<lambda>v. lift_exn (stoull v) (\<lambda>n. Inr (c\<lparr>cc_skip := n\<rparr>)))
      else Inl Exit2)"

definition consumer_parse_args :: "string list \<Rightarrow> arg_error + consumer_config" where
  "consumer_parse_args argv =
     (case arg_loop consumer_option consumer_defaults argv of Inl e \<Rightarrow> Inl e
      | Inr c \<Rightarrow> if \<not> is_power_of_two (ucast (cc_slots c)) then Inl Exit2 else Inr c)"

section \<open>Receiver\<close>

record receiver_config =
  rc_allow_insecure_udp :: bool
  rc_ack_publish :: bool
  rc_stream_reconnect :: bool
  rc_max_streams :: u32
  rc_out_shm :: string
  rc_slots :: u32
  rc_bind_host :: string
  rc_port :: string
  rc_count :: u64
  rc_idle_ms :: u64
  rc_rcvbuf :: int
  rc_batch_size :: u32
  rc_dedupe_window :: u64
  rc_dedupe_enabled :: bool
  rc_fec_gens :: u32
  rc_fec_recovery_csv :: string
  rc_wait_readers :: u32
  rc_echo :: bool
  rc_unix_listen :: string

definition receiver_defaults :: receiver_config where
  "receiver_defaults = \<lparr>rc_allow_insecure_udp = False, rc_ack_publish = False, rc_stream_reconnect = False,
     rc_max_streams = 16, rc_out_shm = ''/fanout_ring_out'', rc_slots = 1024, rc_bind_host = ''0.0.0.0'',
     rc_port = ''9000'', rc_count = 0, rc_idle_ms = 2000, rc_rcvbuf = 4 * 1024 * 1024, rc_batch_size = 32,
     rc_dedupe_window = 65536, rc_dedupe_enabled = True, rc_fec_gens = 64, rc_fec_recovery_csv = [],
     rc_wait_readers = 0, rc_echo = False, rc_unix_listen = []\<rparr>"

definition receiver_option :: "receiver_config \<Rightarrow> string \<Rightarrow> string option \<Rightarrow> arg_error + receiver_config \<times> bool" where
  "receiver_option c a nxt =
     (if a = ''--allow-insecure-udp'' then flag (c\<lparr>rc_allow_insecure_udp := True\<rparr>)
      else if a = ''--ack-publish'' then flag (c\<lparr>rc_ack_publish := True\<rparr>)
      else if a = ''--stream-reconnect'' then flag (c\<lparr>rc_stream_reconnect := True\<rparr>)
      else if a = ''--max-streams'' then with_value nxt (\<lambda>v. lift_exn (stoull v) (\<lambda>n.
        if n = 0 \<or> n > 256 then Inl (Throws InvalidArgument) else Inr (c\<lparr>rc_max_streams := ucast n\<rparr>)))
      else if a = ''--out-shm'' then with_value nxt (\<lambda>v. Inr (c\<lparr>rc_out_shm := v\<rparr>))
      else if a = ''--slots'' then with_value nxt (\<lambda>v. lift_exn (stoull v) (\<lambda>n. Inr (c\<lparr>rc_slots := ucast n\<rparr>)))
      else if a = ''--bind'' then with_value nxt (\<lambda>v. Inr (c\<lparr>rc_bind_host := v\<rparr>))
      else if a = ''--port'' then with_value nxt (\<lambda>v. Inr (c\<lparr>rc_port := v\<rparr>))
      else if a = ''--count'' then with_value nxt (\<lambda>v. lift_exn (stoull v) (\<lambda>n. Inr (c\<lparr>rc_count := n\<rparr>)))
      else if a = ''--idle-ms'' then with_value nxt (\<lambda>v. lift_exn (stoull v) (\<lambda>n. Inr (c\<lparr>rc_idle_ms := n\<rparr>)))
      else if a = ''--rcvbuf'' then with_value nxt (\<lambda>v. lift_exn (stoi v) (\<lambda>n. Inr (c\<lparr>rc_rcvbuf := n\<rparr>)))
      else if a = ''--batch-size'' then with_value nxt (\<lambda>v. lift_exn (stoull v) (\<lambda>n. Inr (c\<lparr>rc_batch_size := ucast n\<rparr>)))
      else if a = ''--dedupe-window'' then with_value nxt (\<lambda>v. lift_exn (stoull v) (\<lambda>n. Inr (c\<lparr>rc_dedupe_window := n\<rparr>)))
      else if a = ''--dedupe-disable'' then flag (c\<lparr>rc_dedupe_enabled := False\<rparr>)
      else if a = ''--fec-gens'' then with_value nxt (\<lambda>v. lift_exn (stoull v) (\<lambda>n. Inr (c\<lparr>rc_fec_gens := ucast n\<rparr>)))
      else if a = ''--fec-recovery-csv'' then with_value nxt (\<lambda>v. Inr (c\<lparr>rc_fec_recovery_csv := v\<rparr>))
      else if a = ''--wait-readers'' then with_value nxt (\<lambda>v. lift_exn (stoull v) (\<lambda>n. Inr (c\<lparr>rc_wait_readers := ucast n\<rparr>)))
      else if a = ''--unix-listen'' then with_value nxt (\<lambda>v. Inr (c\<lparr>rc_unix_listen := v\<rparr>))
      else if a = ''--echo'' then flag (c\<lparr>rc_echo := True\<rparr>)
      else Inl Exit2)"

text \<open>The memory a configuration may need, in bytes.\<close>

definition memory_budget :: "receiver_config \<Rightarrow> u64" where
  "memory_budget c = ucast (rc_max_streams c) *
     (ucast (rc_fec_gens c) * of_nat kMaxGeneration * of_nat (max_frame + 32) +
      rc_dedupe_window c div 8 + 4 * of_nat kSampleLimit * 8)"

definition receiver_check :: "receiver_config \<Rightarrow> arg_error + receiver_config" where
  "receiver_check c =
     (let c = (if rc_batch_size c = 0 then c\<lparr>rc_batch_size := 1\<rparr> else c)
      in if rc_batch_size c > 1024 then Inl Exit2
      else if \<not> is_power_of_two (ucast (rc_slots c)) \<or> \<not> is_power_of_two (rc_dedupe_window c) \<or>
              rc_dedupe_window c < 64 \<or> rc_dedupe_window c > push_bit 26 1 then Inl Exit2
      else let c = (if rc_fec_gens c = 0 then c\<lparr>rc_fec_gens := 1\<rparr> else c)
      in if rc_fec_gens c > 65536 \<or> rc_rcvbuf c \<le> 0 then Inl Exit2
      else if rc_echo c \<and> rc_unix_listen c \<noteq> [] then Inl (Throws InvalidArgument)
      else if memory_budget c > 512 * 1024 * 1024 then Inl (Throws InvalidArgument)
      else if rc_unix_listen c = [] \<and> (rc_ack_publish c \<or> rc_stream_reconnect c) then Inl (Throws InvalidArgument)
      else if rc_unix_listen c = [] \<and> \<not> rc_allow_insecure_udp c then Inl (Throws InvalidArgument)
      else Inr c)"

definition receiver_parse_args :: "string list \<Rightarrow> arg_error + receiver_config" where
  "receiver_parse_args argv =
     (case arg_loop receiver_option receiver_defaults argv of Inl e \<Rightarrow> Inl e | Inr c \<Rightarrow> receiver_check c)"

section \<open>What a parsed command line guarantees\<close>

lemma arg_loop_inv:
  assumes "\<And>c a v c' u. P c \<Longrightarrow> opt c a v = Inr (c', u) \<Longrightarrow> P c'"
  shows "P c \<Longrightarrow> arg_loop opt c argv = Inr c' \<Longrightarrow> P c'"
proof (induction "length argv" arbitrary: c argv rule: less_induct)
  case less
  show ?case
  proof (cases argv)
    case Nil
    then show ?thesis using less.prems by simp
  next
    case (Cons a rest)
    show ?thesis
    proof (cases rest)
      case Nil
      then obtain u where "opt c a None = Inr (c', u)"
        using less.prems(2) Cons by (auto split: sum.splits)
      then show ?thesis by (rule assms [OF less.prems(1)])
    next
      case (Cons v rest')
      note argv = \<open>argv = a # rest\<close> [unfolded Cons]
      obtain c1 used where o: "opt c a (Some v) = Inr (c1, used)"
        using less.prems(2) argv by (auto split: sum.splits)
      have "arg_loop opt c1 (if used then rest' else v # rest') = Inr c'"
        using less.prems(2) argv o by (simp split: if_splits)
      then show ?thesis using assms [OF less.prems(1) o] by (intro less.hyps) (simp_all add: argv)
    qed
  qed
qed

lemma with_value_Inr: "with_value nxt f = Inr (c, u) \<longleftrightarrow> (\<exists>v. nxt = Some v \<and> f v = Inr c) \<and> u"
  by (auto simp: with_value_def split: option.splits sum.splits)

lemma lift_exn_Inr: "lift_exn m f = Inr c \<longleftrightarrow> (\<exists>x. m = Inr x \<and> f x = Inr c)"
  by (auto simp: lift_exn_def split: sum.splits)

lemma unat_mult_small: "unat x * unat y < 2 ^ LENGTH('a) \<Longrightarrow> unat (x * y :: 'a::len word) = unat x * unat y"
  by (simp only: unat_mult_lem)

lemma unat_ucast_u32: "unat (n :: u64) < 2 ^ 32 \<Longrightarrow> unat (ucast n :: u32) = unat n"
  by (simp add: unsigned_ucast_eq take_bit_nat_eq_self)

definition streams_bound :: "receiver_config \<Rightarrow> bool" where
  "streams_bound c \<longleftrightarrow> 1 \<le> unat (rc_max_streams c) \<and> unat (rc_max_streams c) \<le> 256"

lemma streams_bound_option:
  assumes "streams_bound c" and "receiver_option c a v = Inr (c', u)"
  shows "streams_bound c'"
proof (cases "a = ''--max-streams''")
  case True
  then obtain n :: u64 where "n \<noteq> 0" "\<not> n > 256" and c: "c' = c\<lparr>rc_max_streams := ucast n\<rparr>"
    using assms(2) by (auto simp: receiver_option_def with_value_Inr lift_exn_Inr split: if_splits)
  then have "1 \<le> unat n" "unat n \<le> 256" by (auto simp: word_less_nat_alt unat_gt_0 Suc_le_eq)
  then show ?thesis by (simp add: streams_bound_def c unat_ucast_u32)
next
  case False
  then have "rc_max_streams c' = rc_max_streams c"
    using assms(2) unfolding receiver_option_def
    by (auto simp: with_value_Inr lift_exn_Inr flag_def split: if_splits)
  then show ?thesis using assms(1) by (simp add: streams_bound_def)
qed

text \<open>The value of the memory budget: no step of its computation wraps.\<close>

lemma memory_budget_value:
  assumes "unat (rc_max_streams c) \<le> 256" "unat (rc_fec_gens c) \<le> 65536" "unat (rc_dedupe_window c) \<le> 2 ^ 26"
  shows "unat (memory_budget c) = unat (rc_max_streams c) *
    (unat (rc_fec_gens c) * 135168 + unat (rc_dedupe_window c) div 8 + 2097152)"
proof -
  define s g d where "s = (ucast (rc_max_streams c) :: u64)" and "g = (ucast (rc_fec_gens c) :: u64)"
    and "d = rc_dedupe_window c div 8"
  have b: "unat s \<le> 256" "unat g \<le> 65536" "unat d \<le> 2 ^ 23"
    using assms by (simp_all add: s_def g_def d_def unat_ucast_u64 unat_div)
  have k: "of_nat kMaxGeneration * of_nat (max_frame + 32) = (135168 :: u64)" "4 * of_nat kSampleLimit * 8 = (2097152 :: u64)"
    by (simp_all add: kMaxGeneration_def max_frame_def kSampleLimit_def)
  have g: "unat (g * 135168) = unat g * 135168" using b(2) by (subst unat_mult_small) simp_all
  have gd: "unat (g * 135168 + d) = unat g * 135168 + unat d" using b(2,3) g by (subst unat_add_small) simp_all
  have sum: "unat (g * 135168 + d + 2097152) = unat g * 135168 + unat d + 2097152"
    using b(2,3) gd by (subst unat_add_small) simp_all
  have "unat s * unat (g * 135168 + d + 2097152) \<le> 256 * (65536 * 135168 + 2 ^ 23 + 2097152)"
    unfolding sum using b by (intro mult_mono add_mono) simp_all
  then have "unat (s * (g * 135168 + d + 2097152)) = unat s * (unat g * 135168 + unat d + 2097152)"
    using sum by (subst unat_mult_small) simp_all
  moreover have "memory_budget c = s * (g * 135168 + d + 2097152)"
    unfolding memory_budget_def s_def g_def d_def mult.assoc [of _ "of_nat kMaxGeneration"] k by (rule refl)
  ultimately show ?thesis by (simp add: s_def g_def d_def unat_ucast_u64 unat_div)
qed

text \<open>
  C31. A receiver configuration that is accepted is within its bounds: the batch size, the number
  of streams and of FEC generations, a window and a ring whose sizes are powers of two, a
  transport that is either a Unix socket or UDP explicitly allowed, and a memory need, computed
  without wrap-around, of at most 512 MiB.
\<close>

theorem receiver_config_ok:
  assumes "receiver_parse_args argv = Inr c"
  shows "1 \<le> unat (rc_batch_size c) \<and> unat (rc_batch_size c) \<le> 1024 \<and>
    1 \<le> unat (rc_max_streams c) \<and> unat (rc_max_streams c) \<le> 256 \<and>
    1 \<le> unat (rc_fec_gens c) \<and> unat (rc_fec_gens c) \<le> 65536 \<and>
    is_power_of_two (ucast (rc_slots c)) \<and> is_power_of_two (rc_dedupe_window c) \<and>
    64 \<le> unat (rc_dedupe_window c) \<and> unat (rc_dedupe_window c) \<le> 2 ^ 26 \<and>
    (rc_unix_listen c = [] \<longrightarrow> rc_allow_insecure_udp c \<and> \<not> rc_ack_publish c \<and> \<not> rc_stream_reconnect c) \<and>
    (rc_echo c \<longrightarrow> rc_unix_listen c = []) \<and>
    unat (rc_max_streams c) * (unat (rc_fec_gens c) * 135168 + unat (rc_dedupe_window c) div 8 + 2097152) \<le> 512 * 1024 * 1024"
proof -
  obtain c0 where c0: "arg_loop receiver_option receiver_defaults argv = Inr c0" "receiver_check c0 = Inr c"
    using assms by (auto simp: receiver_parse_args_def split: sum.splits)
  have "streams_bound receiver_defaults" by (simp add: streams_bound_def receiver_defaults_def)
  from arg_loop_inv [where P = streams_bound, OF streams_bound_option this c0(1)]
  have sb0: "streams_bound c0" .
  have same: "rc_max_streams c = rc_max_streams c0"
    using c0(2) by (auto simp: receiver_check_def Let_def split: if_splits)
  have w: "is_power_of_two (ucast (rc_slots c))" "is_power_of_two (rc_dedupe_window c)"
    "\<not> rc_dedupe_window c < 64" "\<not> push_bit 26 1 < rc_dedupe_window c"
    using c0(2) by (auto simp: receiver_check_def Let_def split: if_splits)
  have bs: "rc_batch_size c \<noteq> 0" "\<not> 1024 < rc_batch_size c"
    using c0(2) by (auto simp: receiver_check_def Let_def split: if_splits)
  have fg: "rc_fec_gens c \<noteq> 0" "\<not> 65536 < rc_fec_gens c"
    using c0(2) by (auto simp: receiver_check_def Let_def split: if_splits)
  have tr: "rc_unix_listen c = [] \<longrightarrow> rc_allow_insecure_udp c \<and> \<not> rc_ack_publish c \<and> \<not> rc_stream_reconnect c"
    "rc_echo c \<longrightarrow> rc_unix_listen c = []"
    using c0(2) by (auto simp: receiver_check_def Let_def split: if_splits)
  have mb: "\<not> 512 * 1024 * 1024 < memory_budget c"
    using c0(2) by (auto simp: receiver_check_def Let_def split: if_splits)
  have u: "unat (rc_dedupe_window c) \<le> 2 ^ 26" "64 \<le> unat (rc_dedupe_window c)"
    using w(3,4) by (simp_all add: word_less_nat_alt)
  have v: "unat (rc_fec_gens c) \<le> 65536" "1 \<le> unat (rc_fec_gens c)" "unat (rc_batch_size c) \<le> 1024" "1 \<le> unat (rc_batch_size c)"
    using fg bs by (simp_all add: word_less_nat_alt unat_gt_0 Suc_le_eq)
  have sb: "1 \<le> unat (rc_max_streams c)" "unat (rc_max_streams c) \<le> 256"
    using sb0 same by (simp_all add: streams_bound_def)
  have "unat (memory_budget c) \<le> 512 * 1024 * 1024" using mb by (simp add: word_less_nat_alt)
  then show ?thesis
    unfolding memory_budget_value [OF sb(2) v(1) u(1)] using u v sb w(1,2) tr by simp
qed

lemma receiver_config_ok_witness:
  "\<exists>c. receiver_parse_args [''--allow-insecure-udp'', ''--max-streams'', ''8''] = Inr c \<and> unat (rc_max_streams c) \<le> 256"
proof -
  have st: "stoull ''8'' = Inr 8"
    by (simp add: stoull_def scan_number_def is_space_def is_digit_def digits_value_def)
  have "memory_budget (receiver_defaults\<lparr>rc_allow_insecure_udp := True, rc_max_streams := 8\<rparr>) \<le> 512 * 1024 * 1024"
    by (simp add: memory_budget_def receiver_defaults_def kMaxGeneration_def max_frame_def kSampleLimit_def)
  then have p: "receiver_parse_args [''--allow-insecure-udp'', ''--max-streams'', ''8''] =
      Inr (receiver_defaults\<lparr>rc_allow_insecure_udp := True, rc_max_streams := 8\<rparr>)"
    by (simp add: receiver_parse_args_def receiver_option_def flag_def with_value_def lift_exn_def st receiver_check_def
        receiver_defaults_def is_power_of_two_def Let_def not_less)
  show ?thesis using p receiver_config_ok [OF p] by blast
qed

text \<open>Decimal notation.\<close>

fun decimal :: "nat \<Rightarrow> string" where
  "decimal n = (if n < 10 then [char_of (48 + n)] else decimal (n div 10) @ [char_of (48 + n mod 10)])"

declare decimal.simps [simp del]

lemma of_char_digit: "d < 10 \<Longrightarrow> of_char (char_of (48 + d :: nat)) = 48 + d"
  by (simp add: char_of_mod_256)

lemma decimal_digits: "\<forall>c\<in>set (decimal n). is_digit c" "decimal n \<noteq> []" "digits_value (decimal n) = n"
proof -
  have "(\<forall>c\<in>set (decimal n). is_digit c) \<and> decimal n \<noteq> [] \<and> digits_value (decimal n) = n"
  proof (induction n rule: decimal.induct)
    case (1 n)
    show ?case
    proof (cases "n < 10")
      case True
      then have "decimal n = [char_of (48 + n)]" by (subst decimal.simps) simp
      then show ?thesis using True by (simp add: is_digit_def digits_value_def of_char_digit)
    next
      case False
      then have "decimal n = decimal (n div 10) @ [char_of (48 + n mod 10)]" by (subst decimal.simps) simp
      then show ?thesis using 1 False
        by (auto simp: is_digit_def digits_value_def of_char_digit)
    qed
  qed
  then show "\<forall>c\<in>set (decimal n). is_digit c" "decimal n \<noteq> []" "digits_value (decimal n) = n" by auto
qed

lemma stoull_decimal: "stoull (decimal n) = (if n < 2 ^ 64 then Inr (of_nat n) else Inl OutOfRange)"
proof -
  note d = decimal_digits [of n]
  obtain c cs where c: "decimal n = c # cs" using d(2) by (cases "decimal n") auto
  have dig: "is_digit c" using d(1) c by simp
  then have "\<not> is_space c" "c \<noteq> CHR ''-''" "c \<noteq> CHR ''+''" by (auto simp: is_digit_def is_space_def)
  then have "scan_number (decimal n) = (False, takeWhile is_digit (decimal n))"
    by (simp add: scan_number_def c)
  moreover have "takeWhile is_digit (decimal n) = decimal n" using d(1) by (simp add: takeWhile_eq_all_conv)
  ultimately show ?thesis using d(2,3) by (simp add: stoull_def)
qed

text \<open>
  C32. The consumer's \<open>--count\<close>, given as its only option in decimal: a count below \<open>2 ^ 64\<close> is the
  count of the configuration, and a larger one is refused, not wrapped.
\<close>

theorem consumer_count_option:
  "consumer_parse_args [''--count'', decimal n] =
     (if n < 2 ^ 64 then Inr (consumer_defaults\<lparr>cc_count := of_nat n\<rparr>) else Inl (Throws OutOfRange))"
proof -
  have "is_power_of_two (ucast (1024 :: u32))" by (simp add: is_power_of_two_def)
  then show ?thesis
    by (simp add: consumer_parse_args_def consumer_option_def with_value_def lift_exn_def stoull_decimal consumer_defaults_def)
qed

end
