(* ===== verification/Metrics.thy ===== *)
theory Metrics
  imports Samples
begin

text \<open>
  Delivery metrics: the accumulator and report of \<open>metrics.h\<close>, and the latency summaries of
  \<open>fec.h\<close> and \<open>sender.cpp\<close>, which use the same nearest-rank percentile. The doubles involved
  are products and sums of integers with constants, so they are modelled by their exact value
  rounded to 53 significant bits.
\<close>

section \<open>Doubles\<close>

fun nbits :: "nat \<Rightarrow> nat" where
  "nbits n = (if n = 0 then 0 else Suc (nbits (n div 2)))"

declare nbits.simps [simp del]

text \<open>Round to nearest, ties to even, keeping 53 significant bits.\<close>

definition round53 :: "nat \<Rightarrow> nat" where
  "round53 m =
     (let s = nbits m - 53; q = m div 2 ^ s; r = m mod 2 ^ s
      in if s = 0 then m
         else if r > 2 ^ (s - 1) \<or> (r = 2 ^ (s - 1) \<and> odd q) then (q + 1) * 2 ^ s else q * 2 ^ s)"

text \<open>A constant \<open>(m, e)\<close> is the double \<open>m / 2 ^ e\<close>.\<close>

type_synonym double_const = "nat \<times> nat"

definition d_001 :: double_const where "d_001 = (0x147ae147ae147b, 59)"
definition d_050 :: double_const where "d_050 = (1, 1)"
definition d_099 :: double_const where "d_099 = (0xfd70a3d70a3d7, 52)"
definition d_0999 :: double_const where "d_0999 = (0x1ff7ced916872b, 53)"
definition d_09999 :: double_const where "d_09999 = (0xfff972474538f, 52)"

section \<open>Percentiles\<close>

text \<open>
  The rank: the product \<open>p * n\<close>, truncated, plus one when the truncation is below it, forced
  into \<open>1..n\<close>.
\<close>

definition percentile_rank :: "double_const \<Rightarrow> nat \<Rightarrow> nat" where
  "percentile_rank p n =
     (let (m, e) = p;
          product = round53 (m * round53 n);
          rank = product div 2 ^ e;
          rank = (if rank * 2 ^ e < product then rank + 1 else rank);
          rank = (if rank < 1 then 1 else rank)
      in if rank > n then n else rank)"

definition percentile :: "u64 list \<Rightarrow> double_const \<Rightarrow> u64" where
  "percentile xs p = (if xs = [] then 0 else xs ! (percentile_rank p (length xs) - 1))"

record recovery_stats =
  rs_p50 :: u64
  rs_p99 :: u64
  rs_p999 :: u64
  rs_p9999 :: u64
  rs_max :: u64

definition recovery_stats_for :: "u64 list \<Rightarrow> recovery_stats" where
  "recovery_stats_for source =
     (if source = [] then \<lparr>rs_p50 = 0, rs_p99 = 0, rs_p999 = 0, rs_p9999 = 0, rs_max = 0\<rparr>
      else let values = sort source
           in \<lparr>rs_p50 = percentile values d_050, rs_p99 = percentile values d_099, rs_p999 = percentile values d_0999,
               rs_p9999 = percentile values d_09999, rs_max = last values\<rparr>)"

record distribution_stats =
  ds_p50 :: u64
  ds_p99 :: u64
  ds_max :: u64

definition distribution :: "u64 list \<Rightarrow> distribution_stats" where
  "distribution values =
     (if values = [] then \<lparr>ds_p50 = 0, ds_p99 = 0, ds_max = 0\<rparr>
      else let values = sort values
           in \<lparr>ds_p50 = percentile values d_050, ds_p99 = percentile values d_099, ds_max = last values\<rparr>)"

section \<open>Accumulator\<close>

text \<open>\<open>sum_\<close> only ever holds integers, as the double nearest to each partial sum.\<close>

record accumulator =
  ac_min :: u64
  ac_max :: u64
  ac_received :: u64
  ac_first_seq :: u64
  ac_last_seq :: u64
  ac_sum :: nat
  ac_latencies :: "u64 list"

definition accumulator_new :: accumulator where
  "accumulator_new = \<lparr>ac_min = - 1, ac_max = 0, ac_received = 0, ac_first_seq = 0, ac_last_seq = 0,
     ac_sum = 0, ac_latencies = []\<rparr>"

definition acc_record :: "accumulator \<Rightarrow> u64 \<Rightarrow> u64 \<Rightarrow> accumulator" where
  "acc_record a seq latency =
     (let a = (if ac_received a = 0 then a\<lparr>ac_first_seq := seq, ac_last_seq := seq\<rparr>
               else let a = (if seq < ac_first_seq a then a\<lparr>ac_first_seq := seq\<rparr> else a)
                    in if seq > ac_last_seq a then a\<lparr>ac_last_seq := seq\<rparr> else a);
          a = a\<lparr>ac_received := ac_received a + 1\<rparr>;
          a = a\<lparr>ac_latencies := sample (ac_latencies a) latency (ac_received a)\<rparr>;
          a = a\<lparr>ac_min := min (ac_min a) latency, ac_max := max (ac_max a) latency\<rparr>
      in a\<lparr>ac_sum := round53 (ac_sum a + round53 (unat latency))\<rparr>)"

definition retained_samples :: "accumulator \<Rightarrow> nat" where
  "retained_samples a = length (ac_latencies a)"

text \<open>The report, without its two quotients of doubles (\<open>drop_rate\<close>, \<open>lat_mean\<close>).\<close>

record report =
  rp_received :: u64
  rp_expected :: u64
  rp_dropped :: u64
  rp_lat_min :: u64
  rp_lat_max :: u64
  rp_p01 :: u64
  rp_p50 :: u64
  rp_p99 :: u64
  rp_p999 :: u64
  rp_p9999 :: u64

definition acc_report :: "accumulator \<Rightarrow> report" where
  "acc_report a =
     (if ac_received a = 0 then
        \<lparr>rp_received = 0, rp_expected = 0, rp_dropped = 0, rp_lat_min = 0, rp_lat_max = 0,
         rp_p01 = 0, rp_p50 = 0, rp_p99 = 0, rp_p999 = 0, rp_p9999 = 0\<rparr>
      else let expected = ac_last_seq a - ac_first_seq a + 1;
               s = sort (ac_latencies a)
           in \<lparr>rp_received = ac_received a, rp_expected = expected,
               rp_dropped = (if expected > ac_received a then expected - ac_received a else 0),
               rp_lat_min = ac_min a, rp_lat_max = ac_max a,
               rp_p01 = percentile s d_001, rp_p50 = percentile s d_050, rp_p99 = percentile s d_099,
               rp_p999 = percentile s d_0999, rp_p9999 = percentile s d_09999\<rparr>)"

section \<open>Rounding and ranks\<close>

lemma nbits_bounds: "0 < n \<Longrightarrow> 2 ^ (nbits n - 1) \<le> n \<and> n < 2 ^ nbits n"
proof (induction n rule: nbits.induct)
  case (1 n)
  have b: "nbits n = Suc (nbits (n div 2))" using 1(2) by (subst nbits.simps) simp
  show ?case
  proof (cases "n div 2 = 0")
    case True
    then have "n = 1" using 1(2) by simp
    then show ?thesis unfolding b using True by (simp add: nbits.simps [of 0])
  next
    case False
    then have ih: "2 ^ (nbits (n div 2) - 1) \<le> n div 2" "n div 2 < 2 ^ nbits (n div 2)"
      using 1 by simp_all
    have "nbits (n div 2) \<noteq> 0" using False by (subst nbits.simps) simp
    then obtain k where k: "nbits (n div 2) = Suc k" by (cases "nbits (n div 2)") auto
    show ?thesis unfolding b using ih unfolding k by simp linarith
  qed
qed

lemma round53_small: "n < 2 ^ 53 \<Longrightarrow> round53 n = n"
proof (cases "n = 0")
  case False
  assume "n < 2 ^ 53"
  then have "2 ^ (nbits n - 1) < (2 :: nat) ^ 53" using nbits_bounds [of n] False by simp
  then have "nbits n - 1 < 53" by (rule power_less_imp_less_exp [rotated]) simp
  then have "nbits n - 53 = 0" by simp
  then show ?thesis by (simp add: round53_def)
qed (simp add: round53_def nbits.simps [of 0])

text \<open>A rank is in range, and the code's median is the lower median.\<close>

lemma percentile_rank_range: "0 < n \<Longrightarrow> 1 \<le> percentile_rank p n \<and> percentile_rank p n \<le> n"
  by (auto simp: percentile_rank_def Let_def split: prod.splits)

lemma percentile_in:
  assumes "xs \<noteq> []"
  shows "percentile xs p \<in> set xs"
proof -
  have "0 < length xs" using assms by simp
  from percentile_rank_range [OF this, of p] have "percentile_rank p (length xs) - 1 < length xs" by linarith
  then show ?thesis using assms by (simp add: percentile_def)
qed

lemma rank_half: "0 < n \<Longrightarrow> n < 2 ^ 53 \<Longrightarrow> percentile_rank d_050 n = (n + 1) div 2"
proof -
  assume n: "0 < n" "n < 2 ^ 53"
  then have "round53 (1 * round53 n) = n" by (simp add: round53_small)
  then show ?thesis using n by (auto simp: percentile_rank_def d_050_def Let_def)
qed

lemma nbits_eq: "2 ^ k \<le> n \<Longrightarrow> n < 2 ^ Suc k \<Longrightarrow> nbits n = Suc k"
proof -
  assume n: "2 ^ k \<le> n" "n < 2 ^ Suc k"
  then have "0 < n" using less_le_trans [of 0 "2 ^ k" n] by simp
  then have b: "2 ^ (nbits n - 1) \<le> n" "n < 2 ^ nbits n" using nbits_bounds [of n] by simp_all
  have "2 ^ k < (2 :: nat) ^ nbits n" using n(1) b(2) by (rule le_less_trans)
  then have "k < nbits n" by (rule power_less_imp_less_exp [rotated]) simp
  moreover have "2 ^ (nbits n - 1) < (2 :: nat) ^ Suc k" using b(1) n(2) by (rule le_less_trans)
  then have "nbits n - 1 < Suc k" by (rule power_less_imp_less_exp [rotated]) simp
  ultimately show ?thesis by simp
qed

lemma nbits_scale: "0 < m \<Longrightarrow> nbits (m * 2 ^ k) = nbits m + k"
proof -
  assume m: "0 < m"
  obtain j where j: "nbits m = Suc j" using m by (subst (asm) nbits.simps) (cases "nbits m", auto simp: nbits.simps [of m])
  have b: "2 ^ j \<le> m" "m < 2 ^ Suc j" using nbits_bounds [OF m] j by simp_all
  have "nbits (m * 2 ^ k) = Suc (j + k)"
    by (rule nbits_eq) (use b in \<open>simp_all add: power_add\<close>)
  then show ?thesis using j by simp
qed

lemma nbits_mono: "a \<le> b \<Longrightarrow> nbits a \<le> nbits b"
proof (cases "a = 0")
  case False
  assume ab: "a \<le> b"
  have "2 ^ (nbits a - 1) \<le> a" "b < 2 ^ nbits b" using nbits_bounds [of a] nbits_bounds [of b] ab False by simp_all
  then have "2 ^ (nbits a - 1) < (2 :: nat) ^ nbits b" using ab by linarith
  then have "nbits a - 1 < nbits b" by (rule power_less_imp_less_exp [rotated]) simp
  then show ?thesis by simp
qed (simp add: nbits.simps [of 0])

text \<open>Rounding as a quotient with a carry.\<close>

definition carry :: "nat \<Rightarrow> nat \<Rightarrow> nat" where
  "carry s m = of_bool (m mod 2 ^ s > 2 ^ (s - 1) \<or> (m mod 2 ^ s = 2 ^ (s - 1) \<and> odd (m div 2 ^ s)))"

lemma round53_eq: "round53 m = (let s = nbits m - 53 in if s = 0 then m else (m div 2 ^ s + carry s m) * 2 ^ s)"
  by (simp add: round53_def carry_def Let_def)

lemma round53_bounds: "0 < m \<Longrightarrow> 2 ^ (nbits m - 1) \<le> round53 m \<and> round53 m \<le> 2 ^ nbits m"
proof -
  assume m: "0 < m"
  define s where "s = nbits m - 53"
  note b = nbits_bounds [OF m]
  show ?thesis
  proof (cases "s = 0")
    case True
    then show ?thesis using b by (simp add: round53_eq s_def)
  next
    case False
    define t where "t = nbits m - 1 - s"
    have e: "nbits m - 1 = t + s" "nbits m = Suc t + s" using False by (auto simp: s_def t_def)
    have q: "2 ^ t \<le> m div 2 ^ s"
      using b unfolding e(1) by (simp add: power_add less_eq_div_iff_mult_less_eq)
    have "m div 2 ^ s < 2 ^ Suc t" using b unfolding e(2) by (simp add: power_add div_less_iff_less_mult)
    then have u: "m div 2 ^ s + carry s m \<le> 2 ^ Suc t" by (simp add: carry_def)
    have r: "round53 m = (m div 2 ^ s + carry s m) * 2 ^ s" using False by (simp add: round53_eq s_def Let_def)
    have "2 ^ t * 2 ^ s \<le> round53 m" unfolding r using q by (intro mult_right_mono) simp_all
    moreover have "round53 m \<le> 2 ^ Suc t * 2 ^ s" unfolding r using u by (intro mult_right_mono) simp_all
    ultimately show ?thesis unfolding e by (simp add: power_add)
  qed
qed

lemma carry_mono: "a \<le> b \<Longrightarrow> a div 2 ^ s = b div 2 ^ s \<Longrightarrow> carry s a \<le> carry s b"
proof -
  assume ab: "a \<le> b" "a div 2 ^ s = b div 2 ^ s"
  have "a mod 2 ^ s \<le> b mod 2 ^ s"
    using ab div_mult_mod_eq [of a "2 ^ s"] div_mult_mod_eq [of b "2 ^ s"] by (metis add_le_cancel_left)
  then show ?thesis using ab(2) by (auto simp: carry_def)
qed

lemma round53_mono: "a \<le> b \<Longrightarrow> round53 a \<le> round53 b"
proof (cases "a = 0")
  case False
  assume ab: "a \<le> b"
  then have pos: "0 < a" "0 < b" using False by simp_all
  show ?thesis
  proof (cases "nbits a = nbits b")
    case True
    define s where "s = nbits b - 53"
    show ?thesis
    proof (cases "s = 0")
      case True
      then show ?thesis unfolding round53_eq Let_def \<open>nbits a = nbits b\<close> s_def [symmetric] using ab by simp
    next
      case False
      have "a div 2 ^ s \<le> b div 2 ^ s" using ab by (rule div_le_mono)
      then have "a div 2 ^ s + carry s a \<le> b div 2 ^ s + carry s b"
      proof (cases "a div 2 ^ s = b div 2 ^ s")
        case True
        then show ?thesis using carry_mono [OF ab True] by simp
      next
        case False
        moreover have "carry s a \<le> 1" by (simp add: carry_def)
        ultimately show ?thesis using \<open>a div 2 ^ s \<le> b div 2 ^ s\<close> by linarith
      qed
      then have "(a div 2 ^ s + carry s a) * 2 ^ s \<le> (b div 2 ^ s + carry s b) * 2 ^ s" by (rule mult_right_mono) simp
      then show ?thesis unfolding round53_eq Let_def True s_def [symmetric] using False by simp
    qed
  next
    case False
    then have lt: "nbits a < nbits b" using nbits_mono [OF ab] by simp
    have "round53 a \<le> 2 ^ nbits a" using round53_bounds [OF pos(1)] by simp
    also have "\<dots> \<le> 2 ^ (nbits b - 1)" using lt by (intro power_increasing) simp_all
    also have "\<dots> \<le> round53 b" using round53_bounds [OF pos(2)] by simp
    finally show ?thesis .
  qed
qed (simp add: round53_def nbits.simps [of 0])

lemma round53_scale: "round53 (m * 2 ^ k) = round53 m * 2 ^ k"
proof (cases "m = 0")
  case False
  then have b: "nbits (m * 2 ^ k) = nbits m + k" by (simp add: nbits_scale)
  show ?thesis
  proof (cases "nbits m \<le> 53")
    case True
    define t where "t = nbits m + k - 53"
    have "t \<le> k" using True by (simp add: t_def)
    then have "(2 :: nat) ^ k = 2 ^ (k - t) * 2 ^ t" by (simp flip: power_add)
    then have e: "m * 2 ^ k = (m * 2 ^ (k - t)) * 2 ^ t" by (simp only: mult.assoc)
    have "m * 2 ^ k mod 2 ^ t = 0" unfolding e by (rule mod_mult_self2_is_0)
    moreover from this have "m * 2 ^ k div 2 ^ t * 2 ^ t = m * 2 ^ k" using div_mult_mod_eq [of "m * 2 ^ k" "2 ^ t"] by simp
    moreover from calculation have "carry t (m * 2 ^ k) = 0" if "t \<noteq> 0" using that by (simp add: carry_def)
    ultimately show ?thesis using True unfolding round53_eq Let_def b t_def [symmetric] by simp
  next
    case big: False
    define s where "s = nbits m - 53"
    have s: "nbits (m * 2 ^ k) - 53 = s + k" "0 < s" using big by (simp_all add: b s_def)
    have d: "m * 2 ^ k div 2 ^ (s + k) = m div 2 ^ s" by (simp add: power_add)
    have md: "m * 2 ^ k mod 2 ^ (s + k) = m mod 2 ^ s * 2 ^ k" by (simp add: power_add mod_mult_mult2)
    have h: "(2 :: nat) ^ (s + k - 1) = 2 ^ (s - 1) * 2 ^ k" using s(2) by (simp add: power_add [symmetric])
    have "carry (s + k) (m * 2 ^ k) = carry s m" unfolding carry_def d md h by simp
    then show ?thesis using s(2) unfolding round53_eq Let_def s(1) s_def [symmetric] d by (simp add: power_add)
  qed
qed (simp add: round53_def nbits.simps [of 0])

text \<open>Ranks depend on the value of the constant only, and grow with it.\<close>

definition ceil_div :: "nat \<Rightarrow> nat \<Rightarrow> nat" where
  "ceil_div a d = (if a div d * d < a then a div d + 1 else a div d)"

lemma ceil_div_mono: "a \<le> b \<Longrightarrow> ceil_div a d \<le> ceil_div b d"
proof -
  assume ab: "a \<le> b"
  then have "a div d \<le> b div d" by (rule div_le_mono)
  moreover have "b div d * d \<le> b" by simp
  ultimately show ?thesis using ab
    by (cases "a div d = b div d") (auto simp: ceil_div_def)
qed

lemma ceil_div_scale: "0 < k \<Longrightarrow> ceil_div (a * k) (d * k) = ceil_div a d"
  by (simp add: ceil_div_def flip: mult.assoc)

lemma percentile_rank_eq: "percentile_rank (m, e) n = min n (max 1 (ceil_div (round53 (m * round53 n)) (2 ^ e)))"
  by (auto simp: percentile_rank_def ceil_div_def Let_def)

lemma percentile_rank_scale: "percentile_rank (m * 2 ^ k, e + k) n = percentile_rank (m, e) n"
proof -
  have "round53 (m * 2 ^ k * round53 n) = round53 (m * round53 n) * 2 ^ k"
    using round53_scale [of "m * round53 n" k] by (simp add: ac_simps)
  then show ?thesis by (simp add: percentile_rank_eq power_add ceil_div_scale)
qed

lemma percentile_rank_mono:
  assumes "m * 2 ^ e' \<le> m' * 2 ^ e"
  shows "percentile_rank (m, e) n \<le> percentile_rank (m', e') n"
proof -
  have "percentile_rank (m * 2 ^ e', e + e') n \<le> percentile_rank (m' * 2 ^ e, e + e') n"
    unfolding percentile_rank_eq
    by (intro min.mono max.mono order.refl ceil_div_mono round53_mono mult_right_mono) (simp_all add: assms)
  then show ?thesis
    using percentile_rank_scale [of m e' e n] percentile_rank_scale [of m' e e' n] by (simp add: add.commute)
qed

lemma percentile_le:
  assumes "sorted xs" "xs \<noteq> []" "percentile_rank p (length xs) \<le> percentile_rank q (length xs)"
  shows "percentile xs p \<le> percentile xs q"
proof -
  have "percentile_rank q (length xs) - 1 < length xs"
    using percentile_rank_range [of "length xs" q] assms(2) by (cases xs) auto
  then show ?thesis using assms by (simp add: percentile_def sorted_nth_mono diff_le_mono)
qed

lemma ranks_ordered:
  "percentile_rank d_001 n \<le> percentile_rank d_050 n" "percentile_rank d_050 n \<le> percentile_rank d_099 n"
  "percentile_rank d_099 n \<le> percentile_rank d_0999 n" "percentile_rank d_0999 n \<le> percentile_rank d_09999 n"
  unfolding d_001_def d_050_def d_099_def d_0999_def d_09999_def
  by (rule percentile_rank_mono, simp)+

section \<open>The accumulator over a run\<close>

definition acc_all :: "(u64 \<times> u64) list \<Rightarrow> accumulator" where
  "acc_all xs = foldl (\<lambda>a (seq, lat). acc_record a seq lat) accumulator_new xs"

lemma acc_all_snoc: "acc_all (xs @ [(seq, lat)]) = acc_record (acc_all xs) seq lat"
  by (simp add: acc_all_def)

lemma acc_record_simps [simp]:
  "ac_received (acc_record a seq lat) = ac_received a + 1"
  "ac_min (acc_record a seq lat) = min (ac_min a) lat" "ac_max (acc_record a seq lat) = max (ac_max a) lat"
  "ac_latencies (acc_record a seq lat) = sample (ac_latencies a) lat (ac_received a + 1)"
  "ac_first_seq (acc_record a seq lat) = (if ac_received a = 0 then seq else min (ac_first_seq a) seq)"
  "ac_last_seq (acc_record a seq lat) = (if ac_received a = 0 then seq else max (ac_last_seq a) seq)"
  by (auto simp: acc_record_def Let_def min_def max_def)

lemma acc_received: "ac_received (acc_all xs) = of_nat (length xs)"
proof (induction xs rule: rev_induct)
  case Nil
  then show ?case by (simp add: acc_all_def accumulator_new_def)
next
  case (snoc x xs)
  then show ?case by (cases x) (simp add: acc_all_snoc)
qed

lemma acc_inv:
  assumes "length xs < 2 ^ 64" "xs \<noteq> []"
  shows "ac_first_seq (acc_all xs) = Min (fst ` set xs) \<and> ac_last_seq (acc_all xs) = Max (fst ` set xs) \<and>
    ac_min (acc_all xs) = Min (snd ` set xs) \<and> ac_max (acc_all xs) = Max (snd ` set xs) \<and>
    ac_latencies (acc_all xs) \<noteq> [] \<and> set (ac_latencies (acc_all xs)) \<subseteq> snd ` set xs"
  using assms
proof (induction xs rule: rev_induct)
  case (snoc x xs)
  obtain seq lat where x: "x = (seq, lat)" by fastforce
  let ?a = "acc_all xs"
  have ne: "sample (ac_latencies ?a) lat n \<noteq> []" for n
    using length_sample [of "ac_latencies ?a" lat n] by (auto simp: kSampleLimit_def split: if_splits)
  show ?case
  proof (cases "xs = []")
    case True
    have a: "acc_all [] = accumulator_new" by (simp add: acc_all_def)
    have "min (- 1) lat = lat" "max 0 lat = lat" by (simp_all add: min_absorb2 max_absorb2)
    moreover have "set (sample [] lat 1) = {lat}" by (simp add: sample_def kSampleLimit_def)
    ultimately show ?thesis
      using True ne [of 1] unfolding x acc_all_snoc by (simp add: a accumulator_new_def)
  next
    case False
    have len: "length xs < 2 ^ 64" using snoc.prems by simp
    then have r: "ac_received ?a \<noteq> 0"
      using False unat_of_nat_small [of "length xs", where ?'a = 64] by (auto simp: acc_received)
    have ih: "ac_first_seq ?a = Min (fst ` set xs)" "ac_last_seq ?a = Max (fst ` set xs)" "ac_min ?a = Min (snd ` set xs)"
      "ac_max ?a = Max (snd ` set xs)" "set (ac_latencies ?a) \<subseteq> snd ` set xs"
      using snoc.IH len False by simp_all
    have "set (sample (ac_latencies ?a) lat n) \<subseteq> insert lat (snd ` set xs)" for n
      using sample_set [of "ac_latencies ?a" lat n] ih(5) by blast
    then show ?thesis
      using False r ne unfolding x acc_all_snoc by (simp add: ih(1-4) min.commute max.commute)
  qed
qed simp

text \<open>
  C28. The latency figures of a report are consistent: the minimum and maximum are those of all
  recorded latencies, and the percentiles lie between them in order, although they are taken
  from a bounded sample and computed with rounded doubles.
\<close>

theorem report_ordered:
  assumes "xs \<noteq> []" and "length xs < 2 ^ 64"
  shows "let r = acc_report (acc_all xs) in
    rp_lat_min r = Min (snd ` set xs) \<and> rp_lat_max r = Max (snd ` set xs) \<and>
    rp_lat_min r \<le> rp_p01 r \<and> rp_p01 r \<le> rp_p50 r \<and> rp_p50 r \<le> rp_p99 r \<and>
    rp_p99 r \<le> rp_p999 r \<and> rp_p999 r \<le> rp_p9999 r \<and> rp_p9999 r \<le> rp_lat_max r"
proof -
  let ?a = "acc_all xs"
  let ?s = "sort (ac_latencies ?a)"
  have inv: "ac_min ?a = Min (snd ` set xs)" "ac_max ?a = Max (snd ` set xs)" "ac_latencies ?a \<noteq> []"
    "set (ac_latencies ?a) \<subseteq> snd ` set xs"
    using acc_inv [OF assms(2,1)] by simp_all
  have ne: "?s \<noteq> []" using inv(3) by (metis length_0_conv length_sort)
  have pin: "percentile ?s p \<in> snd ` set xs" for p using percentile_in [OF ne, of p] inv(4) by auto
  have "Min (snd ` set xs) \<le> percentile ?s d_001" "percentile ?s d_09999 \<le> Max (snd ` set xs)"
    using pin by simp_all
  moreover note percentile_le [OF sorted_sort ne ranks_ordered(1)] percentile_le [OF sorted_sort ne ranks_ordered(2)]
    percentile_le [OF sorted_sort ne ranks_ordered(3)] percentile_le [OF sorted_sort ne ranks_ordered(4)]
  moreover have "ac_received ?a \<noteq> 0"
    using assms unat_of_nat_small [of "length xs", where ?'a = 64] by (auto simp: acc_received)
  ultimately show ?thesis by (simp add: acc_report_def Let_def inv(1,2))
qed

lemma unat_interval: "unat ` {a..b} = {unat (a :: u64)..unat b}"
proof -
  have "x \<in> unat ` {a..b}" if "unat a \<le> x" "x \<le> unat b" for x
  proof -
    have "unat (of_nat x :: u64) = x" using that u64_less [of b] by (intro unat_of_nat_small) simp
    then show ?thesis using that by (intro image_eqI [of _ _ "of_nat x"]) (simp_all add: word_le_nat_alt)
  qed
  then show ?thesis by (auto simp: word_le_nat_alt)
qed

lemma card_interval: "card {a..b :: u64} = Suc (unat b) - unat a"
proof -
  have "inj_on unat {a..b}" by (auto intro!: inj_onI simp: word_unat_eq_iff)
  then have "card (unat ` {a..b}) = card {a..b}" by (rule card_image)
  then show ?thesis unfolding unat_interval by simp
qed

text \<open>
  C29. The drop count is exact for a stream in which no sequence number was recorded twice: it is
  the number of sequence numbers between the lowest and the highest recorded one that were not
  recorded. The range they span has fewer than \<open>2 ^ 64\<close> numbers.
\<close>

theorem report_dropped:
  assumes "xs \<noteq> []" and "distinct (map fst xs)"
    and "unat (Max (fst ` set xs)) - unat (Min (fst ` set xs)) + 1 < 2 ^ 64"
  shows "unat (rp_dropped (acc_report (acc_all xs))) =
    card ({Min (fst ` set xs)..Max (fst ` set xs)} - fst ` set xs)"
proof -
  let ?A = "fst ` set xs" and ?a = "acc_all xs"
  let ?lo = "Min ?A" and ?hi = "Max ?A"
  have sub: "?A \<subseteq> {?lo..?hi}"
  proof
    fix x assume "x \<in> ?A"
    then have "?lo \<le> x" "x \<le> ?hi" by (rule Min_le [OF finite_imageI [OF finite_set]] Max_ge [OF finite_imageI [OF finite_set]])+
    then show "x \<in> {?lo..?hi}" by simp
  qed
  have le: "?lo \<le> ?hi" using assms(1) by (cases xs) (auto intro: order_trans [OF Min_le Max_ge])
  have c: "card {?lo..?hi} = unat ?hi - unat ?lo + 1"
    using le by (simp add: card_interval Suc_diff_le word_le_nat_alt)
  have "card ?A = length xs" using distinct_card [OF assms(2)] by simp
  moreover have "card ?A \<le> card {?lo..?hi}" by (rule card_mono) (simp_all add: sub)
  ultimately have len: "length xs \<le> card {?lo..?hi}" "length xs < 2 ^ 64" and d: "card ({?lo..?hi} - ?A) = card {?lo..?hi} - length xs"
    using c assms(3) card_Diff_subset [OF _ sub] by simp_all
  have r: "unat (ac_received ?a) = length xs" using len(2) by (simp add: acc_received unat_of_nat_small)
  have "unat (?hi - ?lo) = unat ?hi - unat ?lo" using le by (simp add: unat_sub word_le_nat_alt)
  then have e: "unat (?hi - ?lo + 1) = card {?lo..?hi}" using assms(3) c by (simp add: unat_inc)
  have inv: "ac_first_seq ?a = ?lo" "ac_last_seq ?a = ?hi" using acc_inv [OF len(2) assms(1)] by simp_all
  have nz: "ac_received ?a \<noteq> 0" using r assms(1) by auto
  have "unat (rp_dropped (acc_report ?a)) = card {?lo..?hi} - length xs"
  proof (cases "?hi - ?lo + 1 > ac_received ?a")
    case True
    then show ?thesis using nz e r by (simp add: acc_report_def Let_def inv unat_sub word_less_nat_alt word_le_nat_alt)
  next
    case False
    then have "card {?lo..?hi} \<le> length xs" using e r by (simp add: word_less_nat_alt)
    then show ?thesis using False nz by (simp add: acc_report_def Let_def inv)
  qed
  then show ?thesis by (simp add: d)
qed

text \<open>
  C30. The median of the code is the lower median of the sorted sample, for every sample the
  reservoir can hold.
\<close>

theorem percentile_median:
  assumes "xs \<noteq> []" and "length xs \<le> kSampleLimit"
  shows "percentile xs d_050 = xs ! ((length xs - 1) div 2)"
proof -
  have "percentile_rank d_050 (length xs) = (length xs + 1) div 2"
    using assms by (intro rank_half) (auto simp: kSampleLimit_def)
  moreover have "(length xs + 1) div 2 - 1 = (length xs - 1) div 2" using assms(1) by (cases xs) auto
  ultimately show ?thesis using assms(1) by (simp add: percentile_def)
qed

lemma report_ordered_witness:
  "rp_lat_min (acc_report (acc_all [(5, 40), (6, 20), (9, 30)])) = 20 \<and>
   rp_p50 (acc_report (acc_all [(5, 40), (6, 20), (9, 30)])) \<le> rp_p99 (acc_report (acc_all [(5, 40), (6, 20), (9, 30)]))"
  using report_ordered [of "[(5, 40), (6, 20), (9, 30)]"] by (simp add: Let_def)

lemma report_dropped_witness: "unat (rp_dropped (acc_report (acc_all [(5, 40), (6, 20), (9, 30)]))) = card ({5..9 :: u64} - {5, 6, 9})"
  using report_dropped [of "[(5, 40), (6, 20), (9, 30)]"] by (simp add: insert_commute)

lemma percentile_median_witness: "percentile [10, 20, 30, 40] d_050 = 20"
  using percentile_median [of "[10, 20, 30, 40]"] by (simp add: kSampleLimit_def)

end
