(* ===== verification/Dedupe.thy ===== *)
theory Dedupe
  imports Prelude
begin

text \<open>
  The replay window of \<open>dedupe_window.h\<close>: a ring of bits over the last \<open>size\<close> sequence
  numbers. Its abstract state is the lowest number not yet passed and the set of numbers seen
  at or above it; every operation of the bit ring is shown to implement its counterpart there.
\<close>

section \<open>The window\<close>

datatype observe_result = kAccept | kDuplicate | kTooOld | kAdvanced

record dedupe_counters =
  dc_accepted :: u64
  dc_duplicates :: u64
  dc_too_old :: u64
  dc_lost_confirmed :: u64
  dc_window_slides :: u64
  dc_max_reorder_depth :: u64
  dc_receiver_seq_jump_raw :: u64

record window =
  w_size :: u64
  w_mask :: u64
  w_bits :: "u64 list"
  w_base_seq :: u64
  w_initialized :: bool
  w_counters :: dedupe_counters

text \<open>\<open>None\<close> is the call of \<open>std::abort\<close> in the constructor.\<close>

definition window_new :: "u64 \<Rightarrow> window option" where
  "window_new sz =
     (if sz = 0 \<or> sz AND (sz - 1) \<noteq> 0 \<or> sz < 64 then None
      else Some \<lparr>w_size = sz, w_mask = sz - 1, w_bits = replicate (unat (sz div 64)) 0,
        w_base_seq = 0, w_initialized = False,
        w_counters = \<lparr>dc_accepted = 0, dc_duplicates = 0, dc_too_old = 0, dc_lost_confirmed = 0,
          dc_window_slides = 0, dc_max_reorder_depth = 0, dc_receiver_seq_jump_raw = 0\<rparr>\<rparr>)"

text \<open>
  The word and the bit of a sequence number. An index past the end of \<open>bits_\<close> would be
  undefined behaviour; here it reads as clear, and the invariant below excludes it.
\<close>

definition w_word :: "window \<Rightarrow> u64 \<Rightarrow> nat" where
  "w_word w seq = unat (drop_bit 6 (seq AND w_mask w))"

definition w_bit :: "window \<Rightarrow> u64 \<Rightarrow> u64" where
  "w_bit w seq = push_bit (unat ((seq AND w_mask w) AND 63)) 1"

definition w_test :: "window \<Rightarrow> u64 \<Rightarrow> bool" where
  "w_test w seq = (w_word w seq < length (w_bits w) \<and> (w_bits w ! w_word w seq) AND w_bit w seq \<noteq> 0)"

definition w_set :: "window \<Rightarrow> u64 \<Rightarrow> window" where
  "w_set w seq = w\<lparr>w_bits := (w_bits w)[w_word w seq := (w_bits w ! w_word w seq) OR w_bit w seq]\<rparr>"

definition w_clear :: "window \<Rightarrow> u64 \<Rightarrow> window" where
  "w_clear w seq = w\<lparr>w_bits := (w_bits w)[w_word w seq := (w_bits w ! w_word w seq) AND NOT (w_bit w seq)]\<rparr>"

text \<open>The body of both loops.\<close>

definition w_pass :: "window \<Rightarrow> window" where
  "w_pass w = (w_clear w (w_base_seq w))\<lparr>w_base_seq := w_base_seq w + 1\<rparr>"

definition count_lost :: "window \<Rightarrow> window" where
  "count_lost w = (if w_test w (w_base_seq w) then w
     else w\<lparr>w_counters := (w_counters w)\<lparr>dc_lost_confirmed := dc_lost_confirmed (w_counters w) + 1\<rparr>\<rparr>)"

lemma w_pass_base [simp]: "w_base_seq (w_pass w) = w_base_seq w + 1"
  by (simp add: w_pass_def)

lemma count_lost_base [simp]: "w_base_seq (count_lost w) = w_base_seq w"
  by (simp add: count_lost_def)

function slide_to :: "window \<Rightarrow> u64 \<Rightarrow> window" where
  "slide_to w next_base =
     (if w_base_seq w < next_base then slide_to (w_pass (count_lost w)) next_base else w)"
  by auto
termination
proof (relation "measure (\<lambda>(w, next_base). unat next_base - unat (w_base_seq w))")
  fix w :: window and next_base
  assume "w_base_seq w < next_base"
  then have "unat (w_base_seq w + 1) = Suc (unat (w_base_seq w))" "unat (w_base_seq w) < unat next_base"
    by (simp_all add: unat_inc_less word_less_nat_alt)
  then show "((w_pass (count_lost w), next_base), w, next_base) \<in> measure (\<lambda>(w, next_base). unat next_base - unat (w_base_seq w))"
    by simp
qed simp

declare slide_to.simps [simp del]

text \<open>Every pass of the second loop clears a bit that was set.\<close>

definition set_bits :: "window \<Rightarrow> (nat \<times> nat) set" where
  "set_bits w = {(i, j). i < length (w_bits w) \<and> bit (w_bits w ! i) j}"

lemma finite_set_bits: "finite (set_bits w)"
proof (rule finite_subset)
  show "set_bits w \<subseteq> {..<length (w_bits w)} \<times> {..<64}"
    by (auto simp: set_bits_def dest: bit_imp_le_length)
qed simp

lemma bit_and_push: "(a AND push_bit n (1 :: u64) \<noteq> 0) \<longleftrightarrow> bit a n"
proof -
  have "a AND push_bit n 1 = (if bit a n then push_bit n 1 else 0)"
    by (rule bit_word_eqI) (auto simp: bit_simps)
  moreover have "bit a n \<Longrightarrow> push_bit n (1 :: u64) \<noteq> 0"
    using bit_imp_le_length [of a n] by (auto simp: bit_eq_iff bit_simps intro!: exI [of _ n])
  ultimately show ?thesis by auto
qed

lemma bit_and_not_push: "bit (a AND NOT (push_bit m (1 :: u64))) n \<longleftrightarrow> bit a n \<and> n \<noteq> m"
  using bit_imp_le_length [of a n] by (auto simp: bit_simps)

lemma bit_or_push: "m < 64 \<Longrightarrow> bit (a OR push_bit m (1 :: u64)) n \<longleftrightarrow> bit a n \<or> n = m"
  by (auto simp: bit_simps)

lemma bits_clear_one:
  assumes "i < length xs" and "\<And>n. bit v n \<longleftrightarrow> bit (xs ! i :: u64) n \<and> n \<noteq> j"
  shows "{(k, n). k < length (xs[i := v]) \<and> bit (xs[i := v] ! k) n} = {(k, n). k < length xs \<and> bit (xs ! k) n} - {(i, j)}"
proof (rule set_eqI)
  fix p show "p \<in> {(k, n). k < length (xs[i := v]) \<and> bit (xs[i := v] ! k) n} \<longleftrightarrow>
    p \<in> {(k, n). k < length xs \<and> bit (xs ! k) n} - {(i, j)}"
  proof (cases p)
    case (Pair k n)
    show ?thesis
    proof (cases "k = i")
      case True
      have "bit (xs[i := v] ! i) n \<longleftrightarrow> bit v n" using assms(1) by simp
      then show ?thesis unfolding Pair True using assms(1) assms(2) [of n] by simp
    next
      case False
      then show ?thesis by (simp add: Pair)
    qed
  qed
qed

lemma set_bits_clear:
  assumes "w_test w seq"
  shows "set_bits (w_clear w seq) \<subset> set_bits w"
proof -
  define i j where "i = w_word w seq" and "j = unat ((seq AND w_mask w) AND 63)"
  have "w_test w seq \<longleftrightarrow> i < length (w_bits w) \<and> bit (w_bits w ! i) j"
    unfolding w_test_def w_bit_def bit_and_push i_def j_def by (rule refl)
  with assms have t: "i < length (w_bits w)" "bit (w_bits w ! i) j" by simp_all
  have "w_bits (w_clear w seq) = (w_bits w)[i := (w_bits w ! i) AND NOT (push_bit j 1)]"
    by (cases w) (simp only: w_clear_def i_def j_def w_bit_def window.select_convs window.update_convs)
  then have "set_bits (w_clear w seq) = set_bits w - {(i, j)}"
    unfolding set_bits_def by (simp only: bits_clear_one [OF t(1) bit_and_not_push])
  moreover have "(i, j) \<in> set_bits w" using t by (simp add: set_bits_def)
  ultimately show ?thesis by blast
qed

lemma set_bits_pass: "w_test w (w_base_seq w) \<Longrightarrow> card (set_bits (w_pass w)) < card (set_bits w)"
  using psubset_card_mono [OF finite_set_bits set_bits_clear, of w "w_base_seq w"]
  by (simp add: w_pass_def set_bits_def)

function advance_contiguous :: "window \<Rightarrow> window" where
  "advance_contiguous w = (if w_test w (w_base_seq w) then advance_contiguous (w_pass w) else w)"
  by auto
termination by (relation "measure (\<lambda>w. card (set_bits w))") (simp_all add: set_bits_pass)

declare advance_contiguous.simps [simp del]

definition bump :: "(dedupe_counters \<Rightarrow> dedupe_counters) \<Rightarrow> window \<Rightarrow> window" where
  "bump f w = w\<lparr>w_counters := f (w_counters w)\<rparr>"

definition observe :: "window \<Rightarrow> u64 \<Rightarrow> observe_result \<times> window" where
  "observe w seq =
     (let w = (if \<not> w_initialized w then w\<lparr>w_initialized := True, w_base_seq := seq\<rparr> else w);
          w = (if seq \<ge> w_base_seq w \<and> seq - w_base_seq w > dc_receiver_seq_jump_raw (w_counters w)
               then bump (\<lambda>c. c\<lparr>dc_receiver_seq_jump_raw := seq - w_base_seq w\<rparr>) w else w)
      in if seq < w_base_seq w then (kTooOld, bump (\<lambda>c. c\<lparr>dc_too_old := dc_too_old c + 1\<rparr>) w)
         else let (result, w) =
                (if seq \<ge> w_base_seq w + w_size w
                 then (kAdvanced, bump (\<lambda>c. c\<lparr>dc_window_slides := dc_window_slides c + 1\<rparr>)
                                    (slide_to w (seq - w_size w + 1)))
                 else (kAccept, w));
              depth = seq - w_base_seq w;
              w = (if depth > dc_max_reorder_depth (w_counters w)
                   then bump (\<lambda>c. c\<lparr>dc_max_reorder_depth := depth\<rparr>) w else w)
         in if w_test w seq then (kDuplicate, bump (\<lambda>c. c\<lparr>dc_duplicates := dc_duplicates c + 1\<rparr>) w)
            else (result, advance_contiguous
                   (bump (\<lambda>c. c\<lparr>dc_accepted := dc_accepted c + 1\<rparr>) (w_set w seq))))"

section \<open>Bits and sequence numbers\<close>

definition window_wf :: "window \<Rightarrow> bool" where
  "window_wf w \<longleftrightarrow> (\<exists>k. 6 \<le> k \<and> k < 64 \<and> w_size w = 2 ^ k \<and> w_mask w = mask k \<and> length (w_bits w) = 2 ^ (k - 6))"

abbreviation N :: "window \<Rightarrow> nat" where
  "N w \<equiv> unat (w_size w)"

definition bit_at :: "window \<Rightarrow> nat \<Rightarrow> bool" where
  "bit_at w p \<longleftrightarrow> p div 64 < length (w_bits w) \<and> bit (w_bits w ! (p div 64)) (p mod 64)"

lemma window_wf_N:
  assumes "window_wf w"
  shows "0 < N w" and "w_word w seq = (unat seq mod N w) div 64"
    and "unat ((seq AND w_mask w) AND 63) = (unat seq mod N w) mod 64"
    and "(unat seq mod N w) div 64 < length (w_bits w)"
proof -
  from assms obtain k where k: "6 \<le> k" "k < 64" "w_size w = 2 ^ k" "w_mask w = mask k" "length (w_bits w) = 2 ^ (k - 6)"
    by (auto simp: window_wf_def)
  have n: "N w = 2 ^ k" using k(2,3) by (simp add: unat_pow2)
  then show "0 < N w" by simp
  have pos: "unat (seq AND w_mask w) = unat seq mod N w" by (simp only: k(4) unat_and_mask n)
  have "drop_bit 6 x = x div 64" for x :: u64 by (simp add: drop_bit_eq_div)
  then have "w_word w seq = unat ((seq AND w_mask w) div 64)" by (simp only: w_word_def)
  then show "w_word w seq = (unat seq mod N w) div 64" unfolding unat_div pos by simp
  have "(63 :: u64) = mask 6" by (simp add: mask_eq_exp_minus_1)
  then show "unat ((seq AND w_mask w) AND 63) = (unat seq mod N w) mod 64"
    using unat_and_mask [of "seq AND w_mask w" 6] by (simp add: pos)
  have "(2 :: nat) ^ k = 2 ^ (k - 6) * 64" using power_add [of "2 :: nat" "k - 6" 6] k(1) by simp
  then show "(unat seq mod N w) div 64 < length (w_bits w)" by (simp add: k(5) n div_less_iff_less_mult)
qed

lemma bits_in_range: "window_wf w \<Longrightarrow> w_word w seq < length (w_bits w)"
  by (simp add: window_wf_N)

lemma test_bit_at: "window_wf w \<Longrightarrow> w_test w seq = bit_at w (unat seq mod N w)"
  unfolding w_test_def w_bit_def bit_and_push by (simp add: bit_at_def window_wf_N)

lemma bit_at_set:
  assumes "window_wf w"
  shows "bit_at (w_set w seq) q \<longleftrightarrow> bit_at w q \<or> q = unat seq mod N w"
proof -
  let ?p = "unat seq mod N w"
  note n = window_wf_N(2-4) [OF assms, of seq]
  have same: "q div 64 = ?p div 64 \<Longrightarrow> q mod 64 = ?p mod 64 \<longleftrightarrow> q = ?p"
    by (metis div_mult_mod_eq)
  have "bit ((w_bits w ! (?p div 64)) OR w_bit w seq) j \<longleftrightarrow> bit (w_bits w ! (?p div 64)) j \<or> j = ?p mod 64" for j
    unfolding w_bit_def n(2) by (rule bit_or_push) simp
  then show ?thesis
    using n(1,3) same by (cases "q div 64 = ?p div 64") (auto simp: bit_at_def w_set_def)
qed

lemma bit_at_clear:
  assumes "window_wf w"
  shows "bit_at (w_clear w seq) q \<longleftrightarrow> bit_at w q \<and> q \<noteq> unat seq mod N w"
proof -
  let ?p = "unat seq mod N w"
  note n = window_wf_N(2-4) [OF assms, of seq]
  have same: "q div 64 = ?p div 64 \<Longrightarrow> q mod 64 = ?p mod 64 \<longleftrightarrow> q = ?p"
    by (metis div_mult_mod_eq)
  have "bit ((w_bits w ! (?p div 64)) AND NOT (w_bit w seq)) j \<longleftrightarrow> bit (w_bits w ! (?p div 64)) j \<and> j \<noteq> ?p mod 64" for j
    unfolding w_bit_def n(2) by (rule bit_and_not_push)
  then show ?thesis
    using n(1,3) same by (cases "q div 64 = ?p div 64") (auto simp: bit_at_def w_clear_def)
qed

text \<open>Nothing but the bits, the base, the flag and the counters ever changes.\<close>

lemma wf_simps [simp]:
  "window_wf (w_set w seq) = window_wf w" "w_size (w_set w seq) = w_size w" "w_base_seq (w_set w seq) = w_base_seq w"
  "window_wf (w_clear w seq) = window_wf w" "w_size (w_clear w seq) = w_size w"
  "window_wf (w_pass w) = window_wf w" "w_size (w_pass w) = w_size w"
  "window_wf (bump f w) = window_wf w" "w_size (bump f w) = w_size w" "w_base_seq (bump f w) = w_base_seq w"
  "bit_at (bump f w) p = bit_at w p" "w_initialized (bump f w) = w_initialized w"
  "window_wf (count_lost w) = window_wf w" "w_size (count_lost w) = w_size w" "bit_at (count_lost w) p = bit_at w p"
  "w_initialized (count_lost w) = w_initialized w" "w_initialized (w_pass w) = w_initialized w"
  "w_initialized (w_set w seq) = w_initialized w"
  by (simp_all add: window_wf_def w_set_def w_clear_def w_pass_def bump_def count_lost_def bit_at_def)

lemma bit_at_pass:
  assumes "window_wf w"
  shows "bit_at (w_pass w) q \<longleftrightarrow> bit_at w q \<and> q \<noteq> unat (w_base_seq w) mod N w"
  using bit_at_clear [OF assms, of "w_base_seq w" q] by (simp add: w_pass_def bit_at_def)

section \<open>The abstract window\<close>

text \<open>
  \<open>repr w b S\<close>: the window stands at sequence number \<open>b\<close> and remembers the set \<open>S\<close>. The
  arithmetic of the code is modulo \<open>2 ^ 64\<close>, so the numbers in use stay \<open>N\<close> below that.
\<close>

definition repr :: "window \<Rightarrow> nat \<Rightarrow> nat set \<Rightarrow> bool" where
  "repr w b S \<longleftrightarrow> window_wf w \<and> unat (w_base_seq w) = b \<and> b + N w \<le> 2 ^ 64 \<and>
     S \<subseteq> {b..<b + N w} \<and> (\<forall>s\<in>S. s + N w < 2 ^ 64) \<and>
     (\<forall>s\<in>{b..<b + N w}. bit_at w (s mod N w) \<longleftrightarrow> s \<in> S)"

lemma reprI:
  assumes "window_wf w" "unat (w_base_seq w) = b" "b + N w \<le> 2 ^ 64" "S \<subseteq> {b..<b + N w}"
    "\<And>s. s \<in> S \<Longrightarrow> s + N w < 2 ^ 64"
    "\<And>s. b \<le> s \<Longrightarrow> s < b + N w \<Longrightarrow> bit_at w (s mod N w) \<longleftrightarrow> s \<in> S"
  shows "repr w b S"
  unfolding repr_def
  by (intro conjI ballI; (rule assms(1-4) | (rule assms(5), assumption) | (rule assms(6), simp, simp)))

lemma reprD:
  assumes "repr w b S"
  shows "window_wf w" "unat (w_base_seq w) = b" "b + N w \<le> 2 ^ 64" "S \<subseteq> {b..<b + N w}"
    "s \<in> S \<Longrightarrow> s + N w < 2 ^ 64"
    "b \<le> s \<Longrightarrow> s < b + N w \<Longrightarrow> bit_at w (s mod N w) \<longleftrightarrow> s \<in> S"
proof -
  note d = assms [unfolded repr_def] note d1 = d [THEN conjunct2] note d2 = d1 [THEN conjunct2] note d3 = d2 [THEN conjunct2]
  show "window_wf w" "unat (w_base_seq w) = b" "b + N w \<le> 2 ^ 64" "S \<subseteq> {b..<b + N w}"
    by (rule d [THEN conjunct1] d1 [THEN conjunct1] d2 [THEN conjunct1] d3 [THEN conjunct1])+
  show "s \<in> S \<Longrightarrow> s + N w < 2 ^ 64" by (rule bspec [OF d3 [THEN conjunct2, THEN conjunct1]])
  show "b \<le> s \<Longrightarrow> s < b + N w \<Longrightarrow> bit_at w (s mod N w) \<longleftrightarrow> s \<in> S"
    by (rule bspec [OF d3 [THEN conjunct2, THEN conjunct2]]) simp
qed

lemma repr_pass:
  assumes r: "repr w b S" and lt: "b + N w < 2 ^ 64"
  shows "repr (w_pass w) (Suc b) (S - {b})"
proof (rule reprI)
  note wf = reprD(1) [OF r] and b = reprD(2) [OF r]
  have n0: "0 < N w" by (rule window_wf_N(1) [OF wf])
  show "window_wf (w_pass w)" using wf by simp
  have "Suc (unat (w_base_seq w)) < 2 ^ LENGTH(64)" using lt n0 b by simp
  then show "unat (w_base_seq (w_pass w)) = Suc b" by (simp add: unat_inc b)
  show "Suc b + N (w_pass w) \<le> 2 ^ 64" using lt by simp
  show "S - {b} \<subseteq> {Suc b..<Suc b + N (w_pass w)}" using reprD(4) [OF r] by force
  show "s + N (w_pass w) < 2 ^ 64" if "s \<in> S - {b}" for s using reprD(5) [OF r] that by simp
  show "bit_at (w_pass w) (s mod N (w_pass w)) \<longleftrightarrow> s \<in> S - {b}"
    if s: "Suc b \<le> s" "s < Suc b + N (w_pass w)" for s
  proof (cases "s = b + N w")
    case True
    then have "s mod N w = b mod N w" by simp
    moreover have "s \<notin> S" using reprD(4) [OF r] True by auto
    ultimately show ?thesis using bit_at_pass [OF wf] b by simp
  next
    case False
    then have s': "b \<le> s" "s < b + N w" using s by auto
    have "s mod N w \<noteq> b mod N w" using residue_eq [OF s', of b] s(1) n0 by auto
    then show ?thesis using bit_at_pass [OF wf] b reprD(6) [OF r s'] s(1) by simp
  qed
qed

lemma repr_bump [simp]: "repr (bump f w) b S = repr w b S" "repr (count_lost w) b S = repr w b S"
  by (simp_all add: repr_def)

lemma repr_test: "repr w b S \<Longrightarrow> b \<le> unat s \<Longrightarrow> unat s < b + N w \<Longrightarrow> w_test w s \<longleftrightarrow> unat s \<in> S"
  by (simp add: reprD(1,6) test_bit_at)

lemma repr_base: "repr w b S \<Longrightarrow> unat (w_base_seq w) = b \<and> window_wf w \<and> 0 < N w \<and> b + N w \<le> 2 ^ 64"
  by (simp only: reprD(1-3) window_wf_N(1) simp_thms)

lemma repr_finite: "repr w b S \<Longrightarrow> finite S \<and> S \<subseteq> {b..<b + N w} \<and> (\<forall>s\<in>S. s + N w < 2 ^ 64)"
  by (intro conjI ballI) (rule finite_subset [OF reprD(4) finite_atLeastLessThan] reprD(4,5); assumption)+

lemma repr_set:
  assumes r: "repr w b S" and s: "b \<le> unat s" "unat s < b + N w" "unat s + N w < 2 ^ 64"
  shows "repr (w_set w s) b (insert (unat s) S)"
proof (rule reprI)
  note wf = reprD(1) [OF r]
  show "window_wf (w_set w s)" "unat (w_base_seq (w_set w s)) = b" "b + N (w_set w s) \<le> 2 ^ 64"
    using reprD(1-3) [OF r] by simp_all
  show "insert (unat s) S \<subseteq> {b..<b + N (w_set w s)}" using reprD(4) [OF r] s by simp
  show "t + N (w_set w s) < 2 ^ 64" if "t \<in> insert (unat s) S" for t
    using that s(3) reprD(5) [OF r] by auto
  show "bit_at (w_set w s) (t mod N (w_set w s)) \<longleftrightarrow> t \<in> insert (unat s) S"
    if "b \<le> t" "t < b + N (w_set w s)" for t
  proof -
    from that have t: "b \<le> t" "t < b + N w" by simp_all
    have "t mod N w = unat s mod N w \<longleftrightarrow> t = unat s" using residue_eq [OF t s(1,2)] by blast
    then show ?thesis using bit_at_set [OF wf, of s "t mod N w"] reprD(6) [OF r t] by auto
  qed
qed

lemma slide_step: "w_base_seq w < n \<Longrightarrow> slide_to w n = slide_to (w_pass (count_lost w)) n"
  and slide_done: "\<not> w_base_seq w < n \<Longrightarrow> slide_to w n = w"
  by (simp_all add: slide_to.simps [of w n])

abbreviation lost :: "window \<Rightarrow> u64" where
  "lost w \<equiv> dc_lost_confirmed (w_counters w)"

lemma lost_pass: "lost (w_pass (count_lost w)) = lost w + (if w_test w (w_base_seq w) then 0 else 1)"
  by (simp add: w_pass_def w_clear_def count_lost_def)

lemma card_lost_step:
  assumes "b < n"
  shows "card ({b..<n} - S) = card ({Suc b..<n} - (S - {b})) + (if b \<in> S then 0 else (1 :: nat))"
proof (cases "b \<in> S")
  case True
  then have "{b..<n} - S = {Suc b..<n} - (S - {b})" by (auto simp: le_eq_less_or_eq)
  then show ?thesis using True by simp
next
  case False
  then have "{b..<n} - S = insert b ({Suc b..<n} - (S - {b}))" using assms by auto
  then show ?thesis using False by simp
qed

lemma slide_repr:
  "repr w b S \<Longrightarrow> unat n + N w \<le> 2 ^ 64 \<Longrightarrow>
     repr (slide_to w n) (max b (unat n)) {s \<in> S. unat n \<le> s} \<and> N (slide_to w n) = N w \<and>
     w_initialized (slide_to w n) = w_initialized w \<and>
     lost (slide_to w n) = lost w + of_nat (card ({b..<unat n} - S))"
proof (induction w n arbitrary: b S rule: slide_to.induct)
  case (1 w n)
  note b = repr_base [OF 1(2)]
  show ?case
  proof (cases "w_base_seq w < n")
    case True
    then have lt: "b < unat n" using b by (simp add: word_less_nat_alt)
    let ?w = "w_pass (count_lost w)"
    have "repr ?w (Suc b) (S - {b})" using 1(2,3) lt by (intro repr_pass) simp_all
    note ih = 1(1) [OF True this]
    have "w_test w (w_base_seq w) \<longleftrightarrow> b \<in> S" using repr_test [OF 1(2), of "w_base_seq w"] b by simp
    then have "lost ?w + of_nat (card ({Suc b..<unat n} - (S - {b}))) = lost w + of_nat (card ({b..<unat n} - S))"
      unfolding card_lost_step [OF lt] lost_pass by simp
    moreover have "{s \<in> S - {b}. unat n \<le> s} = {s \<in> S. unat n \<le> s}" using lt by auto
    moreover have "max (Suc b) (unat n) = max b (unat n)" using lt by simp
    ultimately show ?thesis using ih 1(3) by (simp add: slide_step [OF True])
  next
    case False
    then have "unat n \<le> b" using b by (simp add: word_less_nat_alt)
    moreover from this have "{s \<in> S. unat n \<le> s} = S" using repr_finite [OF 1(2)] by auto
    ultimately show ?thesis using 1(2) by (simp add: slide_done [OF False] max_absorb1)
  qed
qed

text \<open>The first number from \<open>b\<close> on that is missing from \<open>S\<close>.\<close>

definition first_gap :: "nat \<Rightarrow> nat set \<Rightarrow> nat" where
  "first_gap b S = (LEAST n. b \<le> n \<and> n \<notin> S)"

lemma first_gap_unfold:
  assumes "finite S"
  shows "first_gap b S = (if b \<in> S then first_gap (Suc b) (S - {b}) else b)"
proof (cases "b \<in> S")
  case True
  have "b \<le> n \<and> n \<notin> S \<longleftrightarrow> Suc b \<le> n \<and> n \<notin> S - {b}" for n using True by (cases "n = b") auto
  then show ?thesis using True by (simp add: first_gap_def)
next
  case False
  then show ?thesis by (auto simp: first_gap_def intro!: Least_equality)
qed

lemma first_gap:
  assumes "finite S"
  shows "b \<le> first_gap b S" and "first_gap b S \<notin> S" and "{b..<first_gap b S} \<subseteq> S"
proof -
  obtain n where "b \<le> n" "n \<notin> S"
    using ex_new_if_finite [OF infinite_UNIV_nat, of "{..<b} \<union> S"] assms by (auto simp: not_less)
  then have ex: "\<exists>n. b \<le> n \<and> n \<notin> S" by blast
  show "b \<le> first_gap b S" "first_gap b S \<notin> S" using LeastI_ex [OF ex] by (simp_all add: first_gap_def)
  show "{b..<first_gap b S} \<subseteq> S" by (auto simp: first_gap_def dest: not_less_Least)
qed

lemma advance_repr:
  "repr w b S \<Longrightarrow> repr (advance_contiguous w) (first_gap b S) {s \<in> S. first_gap b S \<le> s} \<and>
     N (advance_contiguous w) = N w \<and> w_counters (advance_contiguous w) = w_counters w \<and>
     w_initialized (advance_contiguous w) = w_initialized w"
proof (induction w arbitrary: b S rule: advance_contiguous.induct)
  case (1 w)
  note b = repr_base [OF 1(2)] and fin = repr_finite [OF 1(2)]
  have t: "w_test w (w_base_seq w) \<longleftrightarrow> b \<in> S" using repr_test [OF 1(2), of "w_base_seq w"] b by simp
  show ?case
  proof (cases "b \<in> S")
    case True
    then have "b + N w < 2 ^ 64" using fin by blast
    from 1(1) [OF _ repr_pass [OF 1(2) this]] True t
    have ih: "repr (advance_contiguous (w_pass w)) (first_gap (Suc b) (S - {b})) {s \<in> S - {b}. first_gap (Suc b) (S - {b}) \<le> s}"
      "N (advance_contiguous (w_pass w)) = N w" "w_counters (advance_contiguous (w_pass w)) = w_counters w"
      "w_initialized (advance_contiguous (w_pass w)) = w_initialized w"
      by (simp_all add: w_pass_def w_clear_def)
    have g: "first_gap b S = first_gap (Suc b) (S - {b})" using first_gap_unfold [of S b] fin True by simp
    moreover have "Suc b \<le> first_gap (Suc b) (S - {b})" by (rule first_gap) (simp add: fin)
    then have "{s \<in> S - {b}. first_gap (Suc b) (S - {b}) \<le> s} = {s \<in> S. first_gap b S \<le> s}" unfolding g by auto
    moreover have "advance_contiguous w = advance_contiguous (w_pass w)"
      using True t by (simp add: advance_contiguous.simps [of w])
    ultimately show ?thesis using ih by simp
  next
    case False
    then have "first_gap b S = b" using first_gap_unfold [of S b] fin by simp
    moreover have "{s \<in> S. b \<le> s} = S" using fin by auto
    moreover have "advance_contiguous w = w" using False t by (simp add: advance_contiguous.simps [of w])
    ultimately show ?thesis using 1(2) by simp
  qed
qed

section \<open>Observing refines the abstract window\<close>

text \<open>
  The abstract window is empty until the first number arrives; then it is a position and the
  numbers seen at or above it. \<open>settle\<close> moves the position over the numbers already seen.
\<close>

type_synonym abs_window = "(nat \<times> nat set) option"

definition settle :: "nat \<Rightarrow> nat set \<Rightarrow> nat \<times> nat set" where
  "settle b S = (first_gap b S, {s \<in> S. first_gap b S \<le> s})"

definition opened :: "abs_window \<Rightarrow> nat \<Rightarrow> nat \<times> nat set" where
  "opened a s = (case a of None \<Rightarrow> (s, {}) | Some p \<Rightarrow> p)"

definition abs_observe :: "nat \<Rightarrow> abs_window \<Rightarrow> nat \<Rightarrow> observe_result \<times> abs_window" where
  "abs_observe n a s =
     (let (b, S) = opened a s
      in if s < b then (kTooOld, Some (b, S))
         else if b + n \<le> s then (kAdvanced, Some (settle (s - n + 1) (insert s {t \<in> S. s - n + 1 \<le> t})))
         else if s \<in> S then (kDuplicate, Some (b, S))
         else (kAccept, Some (settle b (insert s S))))"

definition refines :: "window \<Rightarrow> abs_window \<Rightarrow> bool" where
  "refines w a \<longleftrightarrow> (case a of None \<Rightarrow> \<not> w_initialized w \<and> repr w 0 {}
     | Some (b, S) \<Rightarrow> w_initialized w \<and> repr w b S)"

text \<open>The three stages of \<open>observe\<close>.\<close>

definition w_open :: "window \<Rightarrow> u64 \<Rightarrow> window" where
  "w_open w seq = (if \<not> w_initialized w then w\<lparr>w_initialized := True, w_base_seq := seq\<rparr> else w)"

definition w_jump :: "window \<Rightarrow> u64 \<Rightarrow> window" where
  "w_jump w seq = (if seq \<ge> w_base_seq w \<and> seq - w_base_seq w > dc_receiver_seq_jump_raw (w_counters w)
     then bump (\<lambda>c. c\<lparr>dc_receiver_seq_jump_raw := seq - w_base_seq w\<rparr>) w else w)"

definition w_depth :: "window \<Rightarrow> u64 \<Rightarrow> window" where
  "w_depth w seq = (if seq - w_base_seq w > dc_max_reorder_depth (w_counters w)
     then bump (\<lambda>c. c\<lparr>dc_max_reorder_depth := seq - w_base_seq w\<rparr>) w else w)"

definition w_accept :: "window \<Rightarrow> u64 \<Rightarrow> window" where
  "w_accept w seq = advance_contiguous (bump (\<lambda>c. c\<lparr>dc_accepted := dc_accepted c + 1\<rparr>) (w_set w seq))"

definition w_slid :: "window \<Rightarrow> u64 \<Rightarrow> window" where
  "w_slid w seq = bump (\<lambda>c. c\<lparr>dc_window_slides := dc_window_slides c + 1\<rparr>) (slide_to w (seq - w_size w + 1))"

lemma observe_stages:
  "observe w seq =
     (let w = w_jump (w_open w seq) seq
      in if seq < w_base_seq w then (kTooOld, bump (\<lambda>c. c\<lparr>dc_too_old := dc_too_old c + 1\<rparr>) w)
         else let adv = (seq \<ge> w_base_seq w + w_size w);
                  w = w_depth (if adv then w_slid w seq else w) seq
         in if w_test w seq then (kDuplicate, bump (\<lambda>c. c\<lparr>dc_duplicates := dc_duplicates c + 1\<rparr>) w)
            else (if adv then kAdvanced else kAccept, w_accept w seq))"
  by (simp add: observe_def w_open_def w_jump_def w_depth_def w_accept_def w_slid_def Let_def)

lemma w_jump_simps [simp]:
  "repr (w_jump w s) b S = repr w b S" "w_size (w_jump w s) = w_size w" "w_base_seq (w_jump w s) = w_base_seq w"
  "w_initialized (w_jump w s) = w_initialized w" "lost (w_jump w s) = lost w"
  by (simp_all add: w_jump_def bump_def) (simp_all add: repr_def window_wf_def bit_at_def)

lemma w_depth_simps [simp]:
  "repr (w_depth w s) b S = repr w b S" "w_size (w_depth w s) = w_size w" "w_base_seq (w_depth w s) = w_base_seq w"
  "w_initialized (w_depth w s) = w_initialized w" "lost (w_depth w s) = lost w"
  by (simp_all add: w_depth_def bump_def) (simp_all add: repr_def window_wf_def bit_at_def)

lemma repr_empty_at:
  assumes "repr w 0 {}" and "unat s + N w \<le> 2 ^ 64"
  shows "repr (w\<lparr>w_initialized := True, w_base_seq := s\<rparr>) (unat s) {}"
proof (rule reprI)
  let ?w = "w\<lparr>w_initialized := True, w_base_seq := s\<rparr>"
  have wf: "window_wf w" by (rule reprD(1) [OF assms(1)])
  then show "window_wf ?w" by (simp add: window_wf_def)
  show "unat (w_base_seq ?w) = unat s" "unat s + N ?w \<le> 2 ^ 64" "{} \<subseteq> {unat s..<unat s + N ?w}"
    using assms(2) by simp_all
  have "bit_at ?w p = bit_at w p" for p by (simp add: bit_at_def)
  then show "bit_at ?w (t mod N ?w) \<longleftrightarrow> t \<in> {}" for t
    using reprD(6) [OF assms(1), of "t mod N w"] window_wf_N(1) [OF wf] by simp
qed simp

lemma repr_open:
  assumes "refines w a" and "unat s + N w < 2 ^ 64" and "opened a (unat s) = (b, S)"
  shows "repr (w_open w s) b S" and "w_initialized (w_open w s)" and "w_size (w_open w s) = w_size w"
    and "w_counters (w_open w s) = w_counters w"
  using assms repr_empty_at [of w s]
  by (auto simp: refines_def opened_def w_open_def split: option.splits prod.splits)

lemma repr_accept:
  assumes "repr w b S" "b \<le> unat s" "unat s < b + N w" "unat s + N w < 2 ^ 64"
  shows "repr (w_accept w s) (fst (settle b (insert (unat s) S))) (snd (settle b (insert (unat s) S)))"
    and "N (w_accept w s) = N w" and "lost (w_accept w s) = lost w"
    and "w_initialized (w_accept w s) = w_initialized w"
  using advance_repr [of "bump (\<lambda>c. c\<lparr>dc_accepted := dc_accepted c + 1\<rparr>) (w_set w s)" b "insert (unat s) S"]
    repr_set [OF assms]
  by (simp_all add: w_accept_def settle_def) (simp_all add: bump_def w_set_def)

lemma repr_slid:
  assumes r: "repr w b S" and s: "b + N w \<le> unat s"
  shows "repr (w_slid w s) (unat s - N w + 1) {t \<in> S. unat s - N w + 1 \<le> t}" and "N (w_slid w s) = N w"
    and "lost (w_slid w s) = lost w + of_nat (card ({b..<unat s - N w + 1} - S))"
    and "w_initialized (w_slid w s) = w_initialized w"
proof -
  have n: "unat (s - w_size w + 1) = unat s - N w + 1"
  proof -
    have d: "unat (s - w_size w) = unat s - N w" using s by (simp add: unat_sub word_le_nat_alt)
    have "0 < N w" using repr_base [OF r] by simp
    then have "Suc (unat (s - w_size w)) < 2 ^ 64" using u64_less [of s] s unfolding d by linarith
    then show ?thesis by (simp add: unat_inc d)
  qed
  have "unat s - N w + 1 + N w \<le> 2 ^ 64" using s u64_less [of s] by simp
  from slide_repr [OF r, of "s - w_size w + 1", unfolded n, OF this] s
  show "repr (w_slid w s) (unat s - N w + 1) {t \<in> S. unat s - N w + 1 \<le> t}" "N (w_slid w s) = N w"
    "lost (w_slid w s) = lost w + of_nat (card ({b..<unat s - N w + 1} - S))"
    "w_initialized (w_slid w s) = w_initialized w"
    by (simp_all add: w_slid_def max_absorb2) (simp_all add: bump_def)
qed

text \<open>The numbers an observation gives up on: those skipped by a slide and never seen.\<close>

definition abs_lost :: "nat \<Rightarrow> abs_window \<Rightarrow> nat \<Rightarrow> nat" where
  "abs_lost n a s = (let (b, S) = opened a s in if b + n \<le> s then card ({b..<s - n + 1} - S) else 0)"

lemma observe_step:
  assumes r: "refines w a" and s: "unat s + N w < 2 ^ 64"
  shows "fst (observe w s) = fst (abs_observe (N w) a (unat s)) \<and>
    refines (snd (observe w s)) (snd (abs_observe (N w) a (unat s))) \<and> N (snd (observe w s)) = N w \<and>
    lost (snd (observe w s)) = lost w + of_nat (abs_lost (N w) a (unat s))"
proof -
  obtain b S where o: "opened a (unat s) = (b, S)" by fastforce
  define v where "v = w_jump (w_open w s) s"
  note open_ = repr_open [OF r s o]
  have v: "repr v b S" "w_initialized v" "w_size v = w_size w" "lost v = lost w" using open_ by (simp_all add: v_def)
  note b = repr_base [OF v(1)] and fin = repr_finite [OF v(1)]
  have n0: "0 < N w" using b v(3) by simp
  have low: "s < w_base_seq v \<longleftrightarrow> unat s < b" using b by (simp add: word_less_nat_alt)
  note obs = observe_stages [of w s, folded v_def]
  show ?thesis
  proof (cases "unat s < b")
    case True
    then show ?thesis using v by (simp add: obs low abs_observe_def abs_lost_def o refines_def) (simp add: bump_def)
  next
    case ge: False
    then have "b + N w < 2 ^ 64" using s by simp
    then have "unat (w_base_seq v + w_size v) = b + N w"
      using unat_add_small [of "w_base_seq v" "w_size v"] b v(3) by simp
    then have adv: "w_base_seq v + w_size v \<le> s \<longleftrightarrow> b + N w \<le> unat s" by (simp add: word_le_nat_alt)
    show ?thesis
    proof (cases "b + N w \<le> unat s")
      case True
      let ?b = "unat s - N w + 1" and ?S = "{t \<in> S. unat s - N w + 1 \<le> t}" and ?u = "w_depth (w_slid v s) s"
      have "b + N v \<le> unat s" using True v(3) by simp
      note sl = repr_slid [OF v(1) this, unfolded v(3)]
      have u: "repr ?u ?b ?S" "N ?u = N w" "w_initialized ?u" using sl v(2) by simp_all
      have in_: "?b \<le> unat s" "unat s < ?b + N ?u" using True n0 unfolding u(2) by linarith+
      have "unat s \<notin> ?S" using fin True v(3) by auto
      then have t: "\<not> w_test ?u s" using repr_test [OF u(1) in_] by simp
      note ac = repr_accept [OF u(1) in_, unfolded u(2), OF s]
      have "observe w s = (kAdvanced, w_accept ?u s)"
        using ge True t by (simp add: obs low adv Let_def)
      then show ?thesis
        using ge True ac u sl v by (simp add: abs_observe_def abs_lost_def o refines_def case_prod_beta)
    next
      case False
      let ?u = "w_depth v s"
      have u: "repr ?u b S" "N ?u = N w" "w_initialized ?u" using v by simp_all
      have in_: "b \<le> unat s" "unat s < b + N ?u" using ge False u(2) by simp_all
      have t: "w_test ?u s \<longleftrightarrow> unat s \<in> S" by (rule repr_test [OF u(1) in_])
      note ac = repr_accept [OF u(1) in_, unfolded u(2), OF s]
      have "observe w s = (if unat s \<in> S then (kDuplicate, bump (\<lambda>c. c\<lparr>dc_duplicates := dc_duplicates c + 1\<rparr>) ?u)
          else (kAccept, w_accept ?u s))"
        using ge False t by (simp add: obs low adv Let_def)
      then show ?thesis
        using ge False ac u v
        by (simp add: abs_observe_def abs_lost_def o refines_def case_prod_beta) (simp add: bump_def)
    qed
  qed
qed

section \<open>Runs of observations\<close>

definition accepted :: "observe_result \<Rightarrow> bool" where
  "accepted r \<longleftrightarrow> r = kAccept \<or> r = kAdvanced"

fun observe_all :: "window \<Rightarrow> u64 list \<Rightarrow> window" where
  "observe_all w [] = w"
| "observe_all w (s # ss) = observe_all (snd (observe w s)) ss"

fun accepted_seqs :: "window \<Rightarrow> u64 list \<Rightarrow> u64 list" where
  "accepted_seqs w [] = []"
| "accepted_seqs w (s # ss) =
     (if accepted (fst (observe w s)) then [s] else []) @ accepted_seqs (snd (observe w s)) ss"

text \<open>A number is covered when the abstract window has passed it or remembers it.\<close>

definition covered :: "abs_window \<Rightarrow> nat \<Rightarrow> bool" where
  "covered a x \<longleftrightarrow> (case a of None \<Rightarrow> False | Some (b, S) \<Rightarrow> x < b \<or> x \<in> S)"

definition abs_ok :: "nat \<Rightarrow> abs_window \<Rightarrow> bool" where
  "abs_ok n a \<longleftrightarrow> 0 < n \<and> (case a of None \<Rightarrow> True | Some (b, S) \<Rightarrow> S \<subseteq> {b..<b + n})"

lemma refines_ok: "refines w a \<Longrightarrow> abs_ok (N w) a"
  using repr_base reprD(4) by (fastforce simp: refines_def abs_ok_def split: option.splits)

lemma covered_settle: "finite S \<Longrightarrow> covered (Some (settle b S)) x \<longleftrightarrow> x < b \<or> x \<in> S"
  using first_gap [of S b] by (fastforce simp: covered_def settle_def not_le)

lemma covered_Some: "covered (Some (b, S)) x \<longleftrightarrow> x < b \<or> x \<in> S"
  by (simp add: covered_def)

lemma covered_opened: "covered (Some (opened a s)) x \<longleftrightarrow> (if a = None then x < s else covered a x)"
  by (auto simp: covered_def opened_def split: option.splits)

text \<open>
  What one observation does to the covered numbers: it accepts exactly the uncovered ones; it
  covers the number itself, what was covered, and what the window can no longer reach.
\<close>

lemma abs_observe_covered:
  assumes "abs_ok n a"
  shows "accepted (fst (abs_observe n a s)) \<longleftrightarrow> \<not> covered a s"
    and "covered (snd (abs_observe n a s)) x \<longleftrightarrow> covered (Some (opened a s)) x \<or> x = s \<or> x + n \<le> s"
proof -
  obtain b S where o: "opened a s = (b, S)" by fastforce
  have S: "S \<subseteq> {b..<b + n}" "0 < n" using assms o by (auto simp: abs_ok_def opened_def split: option.splits)
  have fin: "finite S" by (rule finite_subset [OF S(1)]) simp
  have cov: "covered a s \<longleftrightarrow> s < b \<or> s \<in> S"
    using o by (auto simp: covered_def opened_def split: option.splits)
  show "accepted (fst (abs_observe n a s)) \<longleftrightarrow> \<not> covered a s"
    using cov S by (auto simp: abs_observe_def o accepted_def)
  show "covered (snd (abs_observe n a s)) x \<longleftrightarrow> covered (Some (opened a s)) x \<or> x = s \<or> x + n \<le> s"
    using fin S by (auto simp: abs_observe_def o covered_settle covered_Some)
qed

lemma window_new_refines:
  assumes "window_new sz = Some w"
  shows "refines w None" and "w_size w = sz" and "lost w = 0"
proof -
  have sz: "sz \<noteq> 0" "sz AND (sz - 1) = 0" "64 \<le> sz"
    and w: "w_size w = sz" "w_mask w = sz - 1" "w_bits w = replicate (unat (sz div 64)) 0" "w_base_seq w = 0"
      "\<not> w_initialized w" "lost w = 0"
    using assms by (auto simp: window_new_def split: if_splits)
  obtain k where k: "k < 64" "sz = 2 ^ k" using pow2_if_and_dec [OF sz(1,2)] by auto
  then have u: "unat sz = 2 ^ k" by (simp add: unat_pow2)
  then have "(2 :: nat) ^ 6 \<le> 2 ^ k" using sz(3) by (simp add: word_le_nat_alt)
  then have k6: "6 \<le> k" by (rule power_le_imp_le_exp [rotated]) simp
  have "(2 :: nat) ^ k = 2 ^ (k - 6) * 64" using power_add [of "2 :: nat" "k - 6" 6] k6 by simp
  then have "unat (sz div 64) = 2 ^ (k - 6)" by (simp add: unat_div u)
  then have wf: "window_wf w"
    using k k6 w by (auto simp: window_wf_def mask_eq_exp_minus_1 intro!: exI [of _ k])
  have "repr w 0 {}"
  proof (rule reprI [OF wf])
    show "0 + N w \<le> 2 ^ 64" using u64_less [of "w_size w"] by simp
    show "bit_at w (s mod N w) \<longleftrightarrow> s \<in> {}" for s by (simp add: bit_at_def w(3))
  qed (simp_all add: w)
  then show "refines w None" "w_size w = sz" "lost w = 0" using w by (simp_all add: refines_def)
qed

lemma covered_mono: "abs_ok n a \<Longrightarrow> covered a x \<Longrightarrow> covered (snd (abs_observe n a s)) x"
  by (auto simp: abs_observe_covered covered_opened) (simp add: covered_def)

lemma accepted_fresh:
  assumes "refines w a" and "\<forall>s\<in>set ss. unat s + N w < 2 ^ 64"
  shows "distinct (accepted_seqs w ss) \<and> (\<forall>s\<in>set (accepted_seqs w ss). \<not> covered a (unat s))"
  using assms
proof (induction ss arbitrary: w a)
  case (Cons s ss)
  let ?w = "snd (observe w s)" and ?a = "snd (abs_observe (N w) a (unat s))"
  have st: "fst (observe w s) = fst (abs_observe (N w) a (unat s))" "refines ?w ?a" "N ?w = N w"
    using observe_step [OF Cons.prems(1), of s] Cons.prems(2) by simp_all
  note ok = refines_ok [OF Cons.prems(1)]
  have ih: "distinct (accepted_seqs ?w ss)" "\<forall>t\<in>set (accepted_seqs ?w ss). \<not> covered ?a (unat t)"
    using Cons.IH [OF st(2)] Cons.prems(2) st(3) by simp_all
  have "covered ?a (unat s)" by (simp add: abs_observe_covered [OF ok])
  then have "s \<notin> set (accepted_seqs ?w ss)" using ih(2) by blast
  moreover have "\<forall>t\<in>set (accepted_seqs ?w ss). \<not> covered a (unat t)" using ih(2) covered_mono [OF ok] by blast
  moreover have "accepted (fst (observe w s)) \<Longrightarrow> \<not> covered a (unat s)"
    using st(1) abs_observe_covered(1) [OF ok] by simp
  ultimately show ?case using ih(1) by auto
qed simp

text \<open>
  What can be covered after a run: a number observed, a number below the window's start, and a
  number that some observed one has left more than a window behind.
\<close>

lemma covered_run:
  assumes "refines w a" and "\<forall>s\<in>set ss. unat s + N w < 2 ^ 64"
  shows "\<exists>a'. refines (observe_all w ss) a' \<and> N (observe_all w ss) = N w \<and>
    (\<forall>x. covered a' x \<longrightarrow> covered a x \<or> (\<exists>s\<in>set ss. x = unat s \<or> x + N w \<le> unat s) \<or>
       (a = None \<and> ss \<noteq> [] \<and> x < unat (hd ss)))"
  using assms
proof (induction ss arbitrary: w a)
  case (Cons s ss)
  let ?w = "snd (observe w s)" and ?a = "snd (abs_observe (N w) a (unat s))"
  have st: "refines ?w ?a" "N ?w = N w"
    using observe_step [OF Cons.prems(1), of s] Cons.prems(2) by simp_all
  note ok = refines_ok [OF Cons.prems(1)]
  have "\<forall>s\<in>set ss. unat s + N ?w < 2 ^ 64" using Cons.prems(2) st(2) by simp
  from Cons.IH [OF st(1) this, unfolded st(2)] obtain a' where
    a': "refines (observe_all ?w ss) a'" "N (observe_all ?w ss) = N w"
    and cov: "\<And>x. covered a' x \<Longrightarrow> covered ?a x \<or> (\<exists>s\<in>set ss. x = unat s \<or> x + N w \<le> unat s) \<or> ?a = None"
    by blast
  have "?a \<noteq> None" by (auto simp: abs_observe_def split: prod.splits)
  then have "covered a x \<or> (\<exists>t\<in>set (s # ss). x = unat t \<or> x + N w \<le> unat t) \<or> (a = None \<and> x < unat s)"
    if "covered a' x" for x
    using cov [OF that] by (auto simp: abs_observe_covered(2) [OF ok] covered_opened split: if_splits)
  then show ?case using a' by auto
qed auto

text \<open>
  The lost counter: with \<open>h\<close> the first number, \<open>A\<close> the numbers accepted so far, it counts the
  numbers between \<open>h\<close> and the window's position that were not accepted.
\<close>

definition lost_inv :: "nat \<Rightarrow> nat set \<Rightarrow> nat \<Rightarrow> nat set \<Rightarrow> bool" where
  "lost_inv h A b S \<longleftrightarrow> h \<le> b \<and> A \<inter> {b..} = S"

lemma lost_settle:
  assumes "finite S" "h \<le> b" "A \<inter> {b..} = S"
  shows "lost_inv h A (fst (settle b S)) (snd (settle b S))"
    and "{h..<fst (settle b S)} - A = {h..<b} - A"
proof -
  note g = first_gap [OF assms(1), of b]
  show "lost_inv h A (fst (settle b S)) (snd (settle b S))"
    using assms g(1) by (auto simp: lost_inv_def settle_def)
  have "x \<in> A" if "b \<le> x" "x < first_gap b S" for x using g(3) that assms(3) by auto
  then show "{h..<fst (settle b S)} - A = {h..<b} - A"
    using g(1) assms(2) by (auto simp: settle_def) (meson not_le)
qed

lemma abs_lost_step:
  assumes inv: "lost_inv h A b S" and n: "0 < n" and fin: "finite S" and o: "opened a s = (b, S)"
  shows "\<exists>b' S'. snd (abs_observe n a s) = Some (b', S') \<and>
    lost_inv h (if accepted (fst (abs_observe n a s)) then insert s A else A) b' S' \<and>
    card ({h..<b'} - (if accepted (fst (abs_observe n a s)) then insert s A else A)) =
      card ({h..<b} - A) + abs_lost n a s"
proof -
  have h: "h \<le> b" and A: "A \<inter> {b..} = S" using inv by (simp_all add: lost_inv_def)
  consider "s < b \<or> s \<in> S \<and> \<not> b + n \<le> s" | "b \<le> s" "b + n \<le> s" | "b \<le> s" "\<not> b + n \<le> s" "s \<notin> S"
    by (cases "s < b"; cases "b + n \<le> s"; cases "s \<in> S") simp_all
  then show ?thesis
  proof cases
    case 1
    then have "snd (abs_observe n a s) = Some (b, S)" "\<not> accepted (fst (abs_observe n a s))" "abs_lost n a s = 0"
      by (auto simp: abs_observe_def o accepted_def abs_lost_def)
    then show ?thesis using inv by simp
  next
    case 2
    let ?m = "s - n + 1" and ?A = "insert s A"
    let ?S = "insert s {t \<in> S. ?m \<le> t}"
    have m: "h \<le> ?m" "b \<le> ?m" "?m \<le> s" using 2 n h by linarith+
    have "?A \<inter> {?m..} = ?S" unfolding A [symmetric] using m by fastforce
    note st = lost_settle [OF _ m(1) this]
    have fin': "finite ?S" using fin by simp
    have "x \<in> {h..<?m} - ?A \<longleftrightarrow> x \<in> ({h..<b} - A) \<union> ({b..<?m} - S)" for x
      unfolding A [symmetric] using m h by (cases "x < b") auto
    then have "{h..<?m} - ?A = ({h..<b} - A) \<union> ({b..<?m} - S)" by blast
    then have "card ({h..<?m} - ?A) = card (({h..<b} - A) \<union> ({b..<?m} - S))" by (rule arg_cong)
    also have "\<dots> = card ({h..<b} - A) + card ({b..<?m} - S)"
    proof (rule card_Un_disjoint)
      show "({h..<b} - A) \<inter> ({b..<?m} - S) = {}" by fastforce
    qed simp_all
    finally have "card ({h..<?m} - ?A) = card ({h..<b} - A) + card ({b..<?m} - S)" .
    moreover have "abs_observe n a s = (kAdvanced, Some (settle ?m ?S))" "abs_lost n a s = card ({b..<?m} - S)"
      using 2 by (simp_all add: abs_observe_def o abs_lost_def)
    ultimately show ?thesis using st [OF fin']
      by (intro exI [of _ "fst (settle ?m ?S)"] exI [of _ "snd (settle ?m ?S)"]) (simp add: accepted_def)
  next
    case 3
    let ?A = "insert s A"
    have "?A \<inter> {b..} = insert s S" unfolding A [symmetric] using 3(1) by auto
    note st = lost_settle [OF _ h this]
    have "{h..<b} - ?A = {h..<b} - A" using 3(1) by auto
    moreover have "abs_observe n a s = (kAccept, Some (settle b (insert s S)))" "abs_lost n a s = 0"
      using 3 by (simp_all add: abs_observe_def o abs_lost_def)
    moreover have "finite (insert s S)" using fin by simp
    ultimately show ?thesis using st
      by (intro exI [of _ "fst (settle b (insert s S))"] exI [of _ "snd (settle b (insert s S))"]) (simp add: accepted_def)
  qed
qed

lemma lost_run:
  assumes "refines w (Some (b, S))" and "\<forall>s\<in>set ss. unat s + N w < 2 ^ 64" and "lost_inv h A b S"
    and "lost w = of_nat (card ({h..<b} - A))"
  shows "lost (observe_all w ss) =
    of_nat (card ({h..<unat (w_base_seq (observe_all w ss))} - (A \<union> unat ` set (accepted_seqs w ss))))"
  using assms
proof (induction ss arbitrary: w b S A)
  case Nil
  then show ?case using repr_base by (auto simp: refines_def)
next
  case (Cons s ss)
  let ?w = "snd (observe w s)"
  let ?A = "if accepted (fst (observe w s)) then insert (unat s) A else A"
  have st: "fst (observe w s) = fst (abs_observe (N w) (Some (b, S)) (unat s))"
      "refines ?w (snd (abs_observe (N w) (Some (b, S)) (unat s)))" "N ?w = N w"
      "lost ?w = lost w + of_nat (abs_lost (N w) (Some (b, S)) (unat s))"
    using observe_step [OF Cons.prems(1), of s] Cons.prems(2) by simp_all
  have r: "repr w b S" using Cons.prems(1) by (simp add: refines_def)
  obtain b' S' where n: "snd (abs_observe (N w) (Some (b, S)) (unat s)) = Some (b', S')" "lost_inv h ?A b' S'"
    "card ({h..<b'} - ?A) = card ({h..<b} - A) + abs_lost (N w) (Some (b, S)) (unat s)"
    using abs_lost_step [OF Cons.prems(3), of "N w" "Some (b, S)" "unat s"] repr_base [OF r] repr_finite [OF r]
    unfolding st(1) by (auto simp: opened_def)
  have "lost ?w = of_nat (card ({h..<b'} - ?A))" by (simp add: st(4) n(3) Cons.prems(4))
  from Cons.IH [OF st(2) [unfolded n(1)] _ n(2) this] Cons.prems(2) st(3)
  have "lost (observe_all ?w ss) =
    of_nat (card ({h..<unat (w_base_seq (observe_all ?w ss))} - (?A \<union> unat ` set (accepted_seqs ?w ss))))" by simp
  moreover have "A \<union> unat ` set (accepted_seqs w (s # ss)) = ?A \<union> unat ` set (accepted_seqs ?w ss)" by auto
  ultimately show ?case by simp
qed

text \<open>
  A number within a window size of \<open>2 ^ 64\<close> is outside the refinement; arriving at a window that
  only saw smaller ones, it is accepted.
\<close>

lemma window_wf_half:
  assumes "window_wf w"
  shows "N w \<le> 2 ^ 63"
proof -
  obtain k where k: "k < 64" "w_size w = 2 ^ k" using assms by (auto simp: window_wf_def)
  then have "N w = 2 ^ k" by (simp add: unat_pow2)
  also have "\<dots> \<le> 2 ^ 63" using k(1) by (intro power_increasing) simp_all
  finally show ?thesis .
qed

lemma observe_big:
  assumes r: "refines w a" and big: "2 ^ 64 \<le> unat s + N w"
  shows "accepted (fst (observe w s))"
proof -
  define v where "v = w_jump (w_open w s) s"
  define u where "u = w_depth (if w_base_seq v + w_size v \<le> s then w_slid v s else v) s"
  have obs: "observe w s = (if s < w_base_seq v then (kTooOld, bump (\<lambda>c. c\<lparr>dc_too_old := dc_too_old c + 1\<rparr>) v)
     else if w_test u s then (kDuplicate, bump (\<lambda>c. c\<lparr>dc_duplicates := dc_duplicates c + 1\<rparr>) u)
     else (if w_base_seq v + w_size v \<le> s then kAdvanced else kAccept, w_accept u s))"
    unfolding observe_stages [of w s] Let_def v_def [symmetric] u_def by (rule refl)
  have test_depth: "w_test (w_depth x s) t = w_test x t" for x t
    by (simp add: w_test_def w_depth_def bump_def w_word_def w_bit_def)
  have test_bump: "w_test (bump f x) t = w_test x t" for f x t
    by (simp add: w_test_def bump_def w_word_def w_bit_def)
  have "\<not> s < w_base_seq v \<and> \<not> w_test u s"
  proof (cases a)
    case None
    then have i: "\<not> w_initialized w" "repr w 0 {}" using r by (simp_all add: refines_def)
    have b: "w_base_seq v = s" "w_size v = w_size w" using i(1) by (simp_all add: v_def w_open_def)
    have "w_test v s = w_test w s"
      using i(1) by (simp add: v_def w_open_def w_jump_def bump_def w_test_def w_word_def w_bit_def)
    moreover have "\<not> w_test w s"
      using reprD(6) [OF i(2), of "unat s mod N w"] repr_base [OF i(2)] by (simp add: test_bit_at)
    moreover have "slide_to v (s - w_size v + 1) = v"
    proof (rule slide_done)
      have "0 < N w" using repr_base [OF i(2)] by simp
      then have "1 \<le> w_size w" by (simp add: word_le_nat_alt Suc_le_eq)
      then have "s - w_size w + 1 \<le> s" if "w_size w \<le> s"
        using that unat_inc [of "s - w_size w"] u64_less [of s]
        by (simp add: word_le_nat_alt unat_sub)
      moreover have "s - w_size w + 1 \<le> s" if "\<not> w_size w \<le> s"
      proof -
        have "unat s < N w" using that by (simp add: word_le_nat_alt)
        moreover have "N w \<le> 2 ^ 63" using window_wf_half repr_base [OF i(2)] by blast
        ultimately show ?thesis using big by simp
      qed
      ultimately show "\<not> w_base_seq v < s - w_size v + 1" by (auto simp: b not_less)
    qed
    ultimately show ?thesis by (simp add: u_def test_depth w_slid_def test_bump b)
  next
    case (Some p)
    obtain b S where p: "p = (b, S)" by fastforce
    have i: "w_initialized w" "repr w b S" using r Some p by (simp_all add: refines_def)
    have v: "repr v b S" "w_size v = w_size w" using i by (simp_all add: v_def w_open_def)
    note vb = repr_base [OF v(1)]
    have n0: "0 < N w" using vb v(2) by simp
    have ge: "b \<le> unat s" using vb v(2) big by simp
    have notS: "unat s \<notin> S" using repr_finite [OF v(1)] v(2) big by auto
    show ?thesis
    proof (cases "b + N w \<le> unat s")
      case True
      have "b + N v \<le> unat s" using True v(2) by simp
      note sl = repr_slid [OF v(1) this, unfolded v(2)]
      have "unat (w_base_seq v + w_size v) = b + N w"
        using unat_add_small [of "w_base_seq v" "w_size v"] vb v(2) True u64_less [of s] by simp
      then have adv: "w_base_seq v + w_size v \<le> s" using True by (simp add: word_le_nat_alt)
      have "unat s < unat s - N w + 1 + N (w_slid v s)" "unat s - N w + 1 \<le> unat s" using sl(2) n0 True by linarith+
      then have "\<not> w_test (w_slid v s) s" using repr_test [OF sl(1)] notS by simp
      then show ?thesis using adv ge vb by (simp add: u_def test_depth word_less_nat_alt)
    next
      case False
      then have s: "unat s < b + N v" using v(2) by simp
      have nt: "\<not> w_test v s" using repr_test [OF v(1) ge s] notS by simp
      have "slide_to v (s - w_size v + 1) = v" if "w_base_seq v + w_size v \<le> s"
      proof (rule slide_done)
        have "b + N w = 2 ^ 64"
        proof (rule ccontr)
          assume "b + N w \<noteq> 2 ^ 64"
          then have "unat (w_base_seq v + w_size v) = b + N w"
            using unat_add_small [of "w_base_seq v" "w_size v"] vb v(2) by simp
          then show False using that False by (simp add: word_le_nat_alt)
        qed
        moreover have "N w \<le> 2 ^ 63" using window_wf_half [of v] vb v(2) by simp
        ultimately have le: "N w \<le> unat s" using ge by simp
        then have "unat (s - w_size v) = unat s - N w" using v(2) by (simp add: unat_sub word_le_nat_alt)
        moreover have "Suc (unat s - N w) \<le> b" using False le by linarith
        ultimately have "unat (s - w_size v + 1) \<le> b" using unat_inc [of "s - w_size v"] u64_less [of "w_base_seq v"] vb by simp
        then show "\<not> w_base_seq v < s - w_size v + 1" using vb by (simp add: word_less_nat_alt)
      qed
      then show ?thesis using nt ge vb by (simp add: u_def test_depth w_slid_def test_bump word_less_nat_alt)
    qed
  qed
  then show ?thesis by (simp add: obs accepted_def)
qed

text \<open>The counters of a verdict; a slide touches only the lost counter.\<close>

definition verdicts :: "window \<Rightarrow> u64" where
  "verdicts w = dc_accepted (w_counters w) + dc_duplicates (w_counters w) + dc_too_old (w_counters w)"

lemma verdicts_pass: "verdicts (w_pass w) = verdicts w" "verdicts (count_lost w) = verdicts w"
  by (simp_all add: verdicts_def w_pass_def w_clear_def count_lost_def)

lemma verdicts_slide: "verdicts (slide_to w n) = verdicts w"
  by (induction w n rule: slide_to.induct) (subst slide_to.simps, simp add: verdicts_pass)

lemma verdicts_advance: "verdicts (advance_contiguous w) = verdicts w"
  by (induction w rule: advance_contiguous.induct) (subst advance_contiguous.simps, simp add: verdicts_pass)

lemma verdicts_stages:
  "verdicts (w_open w s) = verdicts w" "verdicts (w_jump w s) = verdicts w" "verdicts (w_depth w s) = verdicts w"
  "verdicts (w_slid w s) = verdicts w" "verdicts (w_accept w s) = verdicts w + 1"
proof -
  show "verdicts (w_open w s) = verdicts w" "verdicts (w_jump w s) = verdicts w" "verdicts (w_depth w s) = verdicts w"
    by (simp_all add: verdicts_def w_open_def w_jump_def w_depth_def bump_def)
  have "verdicts (w_slid w s) = verdicts (slide_to w (s - w_size w + 1))"
    by (simp add: verdicts_def w_slid_def bump_def)
  then show "verdicts (w_slid w s) = verdicts w" by (simp add: verdicts_slide)
  show "verdicts (w_accept w s) = verdicts w + 1"
    unfolding w_accept_def verdicts_advance by (simp add: verdicts_def bump_def w_set_def)
qed

lemma verdicts_observe: "verdicts (snd (observe w s)) = verdicts w + 1"
proof -
  have "verdicts (bump (\<lambda>c. c\<lparr>dc_too_old := dc_too_old c + 1\<rparr>) v) = verdicts v + 1"
    "verdicts (bump (\<lambda>c. c\<lparr>dc_duplicates := dc_duplicates c + 1\<rparr>) v) = verdicts v + 1" for v
    by (simp_all add: verdicts_def bump_def)
  then show ?thesis by (simp add: observe_stages Let_def verdicts_stages)
qed

section \<open>What the window promises\<close>

text \<open>
  C16. \<open>observe\<close> on the ring of bits implements \<open>observe\<close> on the abstract window: with sequence
  numbers at least a window size below \<open>2 ^ 64\<close>, it gives the same verdict and the new bits
  represent the new abstract state.
\<close>

theorem observe_refines:
  assumes "refines w a" and "unat s + N w < 2 ^ 64"
  shows "fst (observe w s) = fst (abs_observe (N w) a (unat s)) \<and>
    refines (snd (observe w s)) (snd (abs_observe (N w) a (unat s)))"
  using observe_step [OF assms] by blast

text \<open>
  C8. No number is accepted twice: whatever numbers arrive at a new window, in whatever order,
  the accepted ones are pairwise distinct, provided that all of them are at least a window size
  below \<open>2 ^ 64\<close>. Without that bound it is not so: after \<open>2 ^ 64 - 1\<close> the position wraps to zero,
  and the same number counts as new again.
\<close>

theorem dedupe_at_most_once:
  assumes "window_new sz = Some w" and "\<forall>s\<in>set ss. unat s + unat sz < 2 ^ 64"
  shows "distinct (accepted_seqs w ss)"
  using accepted_fresh [OF window_new_refines(1) [OF assms(1)]] window_new_refines(2) [OF assms(1)] assms(2)
  by simp

text \<open>
  C17. Nothing is thrown away needlessly: a number that has not been observed yet, is not below
  the first one and is less than a window behind every observed one is accepted, for numbers at
  least a window size below \<open>2 ^ 64\<close>.
\<close>

theorem dedupe_accepts_fresh:
  assumes "window_new sz = Some w" and "\<forall>t\<in>set (ss @ [s]). unat t + unat sz < 2 ^ 64"
    and "s \<notin> set ss" and "\<forall>t\<in>set ss. hd ss \<le> s \<and> unat t < unat s + unat sz"
  shows "accepted (fst (observe (observe_all w ss) s))"
proof -
  note w = window_new_refines [OF assms(1)]
  have "\<forall>t\<in>set ss. unat t + N w < 2 ^ 64" using assms(2) w(2) by simp
  from covered_run [OF w(1) this] obtain a where a: "refines (observe_all w ss) a" "N (observe_all w ss) = N w"
    and cov: "covered a (unat s) \<Longrightarrow>
      (\<exists>t\<in>set ss. unat s = unat t \<or> unat s + N w \<le> unat t) \<or> (ss \<noteq> [] \<and> unat s < unat (hd ss))"
    by (auto simp: covered_def)
  have "\<not> covered a (unat s)"
  proof
    assume "covered a (unat s)"
    from cov [OF this] show False
    proof
      assume "\<exists>t\<in>set ss. unat s = unat t \<or> unat s + N w \<le> unat t"
      then show False using assms(3,4) w(2) by (auto dest!: word_unat_eq_iff [THEN iffD2])
    next
      assume "ss \<noteq> [] \<and> unat s < unat (hd ss)"
      then show False using assms(4) by (cases ss) (auto simp: word_le_nat_alt)
    qed
  qed
  then show ?thesis
    using observe_step [OF a(1), of s] assms(2) a(2) w(2) abs_observe_covered(1) [OF refines_ok [OF a(1)]]
    by simp
qed

text \<open>
  C18. The loss counter is exact: after any run it is the number of sequence numbers from the
  first one up to the window's position that were never accepted, for numbers at least a window
  size below \<open>2 ^ 64\<close>.
\<close>

theorem dedupe_lost_exact:
  assumes "window_new sz = Some w" and "\<forall>t\<in>set (s # ss). unat t + unat sz < 2 ^ 64"
  shows "dc_lost_confirmed (w_counters (observe_all w (s # ss))) =
    of_nat (card ({unat s..<unat (w_base_seq (observe_all w (s # ss)))} - unat ` set (accepted_seqs w (s # ss))))"
proof -
  note w = window_new_refines [OF assms(1)]
  have lt: "unat s + N w < 2 ^ 64" using assms(2) w(2) by simp
  note ok = refines_ok [OF w(1)]
  note st = observe_step [OF w(1) lt]
  have acc: "accepted (fst (observe w s))"
    using st abs_observe_covered(1) [OF ok, of "unat s"] by (simp add: covered_def)
  have pos: "0 < N w" using ok by (simp add: abs_ok_def)
  have "lost_inv (unat s) {} (unat s) {}" by (simp add: lost_inv_def)
  from abs_lost_step [OF this pos _, of None "unat s"] st acc obtain b S where
    b: "refines (snd (observe w s)) (Some (b, S))" "lost_inv (unat s) {unat s} b S"
      "lost (snd (observe w s)) = of_nat (card ({unat s..<b} - {unat s}))"
    using w(3) by (auto simp: opened_def)
  show ?thesis
    using lost_run [OF b(1) _ b(2,3), of ss] assms(2) st w(2) acc by simp
qed

text \<open>
  C19. Every observation is counted once, as accepted, as a duplicate or as too old.
\<close>

theorem dedupe_counts_all: "verdicts (observe_all w ss) = verdicts w + of_nat (length ss)"
  by (induction ss arbitrary: w) (simp_all add: verdicts_observe)

text \<open>Instances on a window of 64 numbers.\<close>

definition window_64 :: window where
  "window_64 = the (window_new 64)"

lemma window_64: "window_new 64 = Some window_64"
  by (simp add: window_64_def window_new_def)

lemma observe_refines_witness:
  "refines window_64 None \<and> fst (observe window_64 7) = fst (abs_observe (N window_64) None 7)"
  using observe_refines [of window_64 None 7] window_new_refines(1,2) [OF window_64] by simp

lemma dedupe_at_most_once_witness: "distinct (accepted_seqs window_64 [5, 7, 6, 7, 100, 5])"
  by (rule dedupe_at_most_once [OF window_64]) simp

lemma dedupe_accepts_fresh_witness: "accepted (fst (observe (observe_all window_64 [5, 9, 60]) 8))"
  by (rule dedupe_accepts_fresh [OF window_64]) simp_all

lemma dedupe_lost_exact_witness:
  "dc_lost_confirmed (w_counters (observe_all window_64 [5, 9, 200])) =
    of_nat (card ({5..<unat (w_base_seq (observe_all window_64 [5, 9, 200]))} - unat ` set (accepted_seqs window_64 [5, 9, 200])))"
  using dedupe_lost_exact [OF window_64, of 5 "[9, 200]"] by simp

end
