(* ===== verification/Multiplex.thy ===== *)
theory Multiplex
  imports Fec_Decoder Dedupe
begin

text \<open>
  Stream identities of \<open>multiplex.h\<close>: the header that tags every datagram with its stream
  and epoch, the per-stream state of the receiver (a decoder and a replay window) and the
  bounded table \<open>Streams\<close> that never evicts an identity.
\<close>

section \<open>Keys and the stream header\<close>

definition mux_magic :: u32 where "mux_magic = 0x50465333"
definition mux_header_size :: nat where "mux_header_size = 20"

datatype key = Key (k_stream: u64) (k_epoch: u64)

text \<open>\<open>Key::operator<\<close> is the lexicographic order.\<close>

instantiation key :: linorder
begin

definition less_key :: "key \<Rightarrow> key \<Rightarrow> bool" where
  "less_key a b \<longleftrightarrow> k_stream a < k_stream b \<or> (k_stream a = k_stream b \<and> k_epoch a < k_epoch b)"

definition less_eq_key :: "key \<Rightarrow> key \<Rightarrow> bool" where
  "less_eq_key a b \<longleftrightarrow> a < b \<or> a = b"

instance
  by standard (auto simp: less_key_def less_eq_key_def intro: key.expand)

end

definition wrap :: "key \<Rightarrow> bytes \<Rightarrow> bytes" where
  "wrap k data = put_u32 BE mux_magic @ put_u64 BE (k_stream k) @ put_u64 BE (k_epoch k) @ data"

definition get_mux :: "reader \<Rightarrow> exn + (u32 \<times> key) \<times> reader" where
  "get_mux = rd_bind (get_u32 BE) (\<lambda>tag. rd_bind (get_u64 BE) (\<lambda>s. rd_bind (get_u64 BE) (\<lambda>e.
     rd_ret (tag, Key s e))))"

text \<open>
  \<open>unwrap\<close> returns its verdict, the remaining bytes and the key, which is an in-out argument:
  it keeps its old value only when the datagram is too short to be read.
\<close>

definition unwrap :: "bytes \<Rightarrow> key \<Rightarrow> exn + bool \<times> bytes \<times> key" where
  "unwrap data k =
     (if length data < mux_header_size then Inr (False, data, k)
      else bind_exn (get_mux \<lparr>rd_data = data, rd_size = length data, rd_pos = 0\<rparr>) (\<lambda>((tag, k), _).
        if tag \<noteq> mux_magic \<or> k_stream k = 0 \<or> k_epoch k = 0 then Inr (False, data, k)
        else Inr (True, drop mux_header_size data, k)))"

definition put_mux :: "u32 \<times> key \<Rightarrow> bytes" where
  "put_mux x = put_u32 BE (fst x) @ put_u64 BE (k_stream (snd x)) @ put_u64 BE (k_epoch (snd x))"

lemma mux_codec: "codec put_mux get_mux (\<lambda>_. True) 20"
proof
  show "reads get_mux (\<lambda>x bs. True \<and> put_mux x = bs) 20"
    unfolding get_mux_def
    by (rule reads_width, (rule field_reads reads_ret)+) (simp_all add: put_mux_def)
qed (auto simp: put_mux_def field_eq intro: key.expand)

interpretation cmux: codec put_mux get_mux "\<lambda>_. True" 20
  by (rule mux_codec)

lemma wrap_eq: "wrap k data = put_mux (mux_magic, k) @ data"
  by (simp add: wrap_def put_mux_def)

lemma length_put_mux [simp]: "length (put_mux x) = 20"
  using cmux.wr_length by simp

lemma get_mux_total:
  assumes "20 \<le> length d"
  obtains x where "get_mux \<lparr>rd_data = d, rd_size = length d, rd_pos = 0\<rparr> = Inr (x, rd_adv 20 \<lparr>rd_data = d, rd_size = length d, rd_pos = 0\<rparr>)"
    and "d = put_mux x @ drop 20 d"
proof -
  let ?r = "\<lparr>rd_data = d, rd_size = length d, rd_pos = 0\<rparr>"
  have "rd_wf ?r" "rd_pos ?r + 20 \<le> rd_size ?r" using assms by (simp_all add: rd_wf_def)
  then obtain x where "get_mux ?r = Inr (x, rd_adv 20 ?r)" "put_mux x = rd_chunk 20 ?r"
    by (rule cmux.rd_total)
  then show thesis using that [of x] append_take_drop_id [of 20 d] by (simp add: rd_chunk_def)
qed

lemma get_mux_put:
  "get_mux \<lparr>rd_data = put_mux x @ data, rd_size = length (put_mux x @ data), rd_pos = 0\<rparr> =
     Inr (x, rd_adv 20 \<lparr>rd_data = put_mux x @ data, rd_size = length (put_mux x @ data), rd_pos = 0\<rparr>)"
  by (rule cmux.rd_wr) (simp_all add: rd_wf_def rd_chunk_def)

lemma unwrap_put:
  "unwrap (put_mux (tag, k) @ data) k0 =
     (if tag \<noteq> mux_magic \<or> k_stream k = 0 \<or> k_epoch k = 0 then Inr (False, put_mux (tag, k) @ data, k)
      else Inr (True, data, k))"
  using get_mux_put [of "(tag, k)" data] by (simp add: unwrap_def mux_header_size_def)

text \<open>
  C20. \<open>unwrap\<close> accepts exactly the datagrams that \<open>wrap\<close> builds for a non-zero identity, and
  returns the payload and the identity that were wrapped.
\<close>

theorem mux_unwrap_iff:
  "unwrap d k0 = Inr (True, data, k) \<longleftrightarrow> d = wrap k data \<and> k_stream k \<noteq> 0 \<and> k_epoch k \<noteq> 0"
proof (cases "20 \<le> length d")
  case True
  then obtain tag k' where d: "d = put_mux (tag, k') @ drop 20 d"
    by (metis get_mux_total prod.exhaust)
  define p where "p = drop 20 d"
  have d': "d = put_mux (tag, k') @ p" using d by (simp add: p_def)
  have inj: "put_mux (tag, k') @ p = put_mux (mux_magic, k) @ data \<longleftrightarrow> tag = mux_magic \<and> k' = k \<and> p = data"
  proof
    assume e: "put_mux (tag, k') @ p = put_mux (mux_magic, k) @ data"
    then have "put_mux (tag, k') = put_mux (mux_magic, k)" "p = data" by (auto simp: append_eq_append_conv)
    then show "tag = mux_magic \<and> k' = k \<and> p = data"
      by (auto simp: put_mux_def field_eq intro: key.expand)
  qed simp
  show ?thesis unfolding d' unwrap_put wrap_eq inj by auto
next
  case False
  then show ?thesis by (auto simp: unwrap_def mux_header_size_def wrap_eq)
qed

section \<open>Streams\<close>

record stream =
  st_decoder :: decoder
  st_dedupe :: window
  st_last_seq :: u64

text \<open>\<open>None\<close> is the abort of the window's constructor.\<close>

definition stream_new :: "u32 \<Rightarrow> u64 \<Rightarrow> stream option" where
  "stream_new generations sz =
     map_option (\<lambda>w. \<lparr>st_decoder = decoder_new generations, st_dedupe = w, st_last_seq = 0\<rparr>) (window_new sz)"

text \<open>The \<open>std::map\<close> is the list of its entries in key order.\<close>

record streams =
  ss_values :: "(key \<times> stream) list"
  ss_limit :: nat
  ss_generations :: u32
  ss_window :: u64

definition streams_new :: "nat \<Rightarrow> u32 \<Rightarrow> u64 \<Rightarrow> streams" where
  "streams_new limit generations window_size =
     \<lparr>ss_values = [], ss_limit = limit, ss_generations = generations, ss_window = window_size\<rparr>"

fun map_emplace :: "'k::linorder \<Rightarrow> 'v \<Rightarrow> ('k \<times> 'v) list \<Rightarrow> ('k \<times> 'v) list" where
  "map_emplace k v [] = [(k, v)]"
| "map_emplace k v ((k', v') # kvs) =
     (if k < k' then (k, v) # (k', v') # kvs
      else if k = k' then (k', v') # kvs
      else (k', v') # map_emplace k v kvs)"

text \<open>
  \<open>Streams::get\<close>: whether the returned pointer is non-null, and the table. The pointer stands
  for the entry under the key.
\<close>

definition streams_get :: "streams \<Rightarrow> key \<Rightarrow> (bool \<times> streams) option" where
  "streams_get ss k =
     (case map_of (ss_values ss) k of
        Some _ \<Rightarrow> Some (True, ss)
      | None \<Rightarrow>
          if length (ss_values ss) \<ge> ss_limit ss then Some (False, ss)
          else map_option (\<lambda>st. (True, ss\<lparr>ss_values := map_emplace k st (ss_values ss)\<rparr>))
                 (stream_new (ss_generations ss) (ss_window ss)))"

text \<open>Writing through the pointer.\<close>

definition streams_put :: "streams \<Rightarrow> key \<Rightarrow> stream \<Rightarrow> streams" where
  "streams_put ss k st = ss\<lparr>ss_values := map (\<lambda>(k', v). (k', if k' = k then st else v)) (ss_values ss)\<rparr>"

abbreviation find_stream :: "streams \<Rightarrow> key \<Rightarrow> stream option" where
  "find_stream ss k \<equiv> map_of (ss_values ss) k"

definition streams_wf :: "streams \<Rightarrow> bool" where
  "streams_wf ss \<longleftrightarrow> sorted_wrt (<) (map fst (ss_values ss)) \<and> length (ss_values ss) \<le> ss_limit ss"

lemma streams_wf_new: "streams_wf (streams_new limit g w)"
  by (simp add: streams_wf_def streams_new_def)

lemma set_map_emplace: "fst ` set (map_emplace k v kvs) = insert k (fst ` set kvs)"
  by (induction k v kvs rule: map_emplace.induct) auto

lemma sorted_map_emplace: "sorted_wrt (<) (map fst kvs) \<Longrightarrow> sorted_wrt (<) (map fst (map_emplace k v kvs))"
proof (induction k v kvs rule: map_emplace.induct)
  case (2 k v k' v' kvs)
  have "\<forall>x\<in>set (map fst (map_emplace k v kvs)). k' < x" if "k' < k"
    using 2(2) set_map_emplace [of k v kvs] that by auto
  then show ?case using 2 by (auto dest: less_trans)
qed simp

lemma map_of_emplace: "sorted_wrt (<) (map fst kvs) \<Longrightarrow> map_of kvs k = None \<Longrightarrow>
    map_of (map_emplace k v kvs) = (map_of kvs)(k \<mapsto> v)"
  by (induction k v kvs rule: map_emplace.induct) (auto split: if_splits)

lemma length_map_emplace: "map_of kvs k = None \<Longrightarrow> length (map_emplace k v kvs) = Suc (length kvs)"
  by (induction k v kvs rule: map_emplace.induct) (auto split: if_splits)

lemma streams_put_simps [simp]:
  "find_stream (streams_put ss k st) k' = (if k' = k then map_option (\<lambda>_. st) (find_stream ss k) else find_stream ss k')"
  "streams_wf (streams_put ss k st) = streams_wf ss"
  "ss_limit (streams_put ss k st) = ss_limit ss" "ss_window (streams_put ss k st) = ss_window ss"
  "ss_generations (streams_put ss k st) = ss_generations ss"
proof -
  have "map_of (map (\<lambda>(k', v). (k', if k' = k then st else v)) kvs) k' =
      (if k' = k then map_option (\<lambda>_. st) (map_of kvs k) else map_of kvs k')" for kvs
    by (induction kvs) auto
  then show "find_stream (streams_put ss k st) k' = (if k' = k then map_option (\<lambda>_. st) (find_stream ss k) else find_stream ss k')"
    by (simp add: streams_put_def)
  have "fst \<circ> (\<lambda>(k', v). (k', if k' = k then st else v)) = fst" by (rule ext) auto
  then show "streams_wf (streams_put ss k st) = streams_wf ss"
    by (simp add: streams_wf_def streams_put_def)
qed (simp_all add: streams_put_def)

lemma streams_get_cases:
  assumes "streams_get ss k = Some (ok, ss')"
  obtains "ss' = ss" "ok \<longleftrightarrow> find_stream ss k \<noteq> None"
    "\<not> ok \<Longrightarrow> ss_limit ss \<le> length (ss_values ss)"
  | st where "ok" "find_stream ss k = None" "length (ss_values ss) < ss_limit ss"
    "stream_new (ss_generations ss) (ss_window ss) = Some st"
    "ss' = ss\<lparr>ss_values := map_emplace k st (ss_values ss)\<rparr>"
  using assms by (auto simp: streams_get_def split: option.splits if_splits)

lemma streams_emplace:
  assumes "streams_wf ss" and "find_stream ss k = None" and "length (ss_values ss) < ss_limit ss"
  shows "streams_wf (ss\<lparr>ss_values := map_emplace k st (ss_values ss)\<rparr>)"
    and "map_of (map_emplace k st (ss_values ss)) = (find_stream ss)(k \<mapsto> st)"
  using assms map_of_emplace [of "ss_values ss" k st] sorted_map_emplace [of "ss_values ss" k st]
  by (auto simp: streams_wf_def length_map_emplace)

text \<open>
  C21. The stream table is bounded and never evicts: in a well-formed table \<open>get\<close> leaves every
  identity it holds untouched, keeps at most \<open>limit\<close> of them in key order, returns null exactly
  when the identity is unknown and the table is full, and gives a new identity a fresh stream.
\<close>

theorem streams_get_spec:
  assumes "streams_wf ss" and "streams_get ss k = Some (ok, ss')"
  shows "streams_wf ss' \<and> (\<forall>k'. find_stream ss k' \<noteq> None \<longrightarrow> find_stream ss' k' = find_stream ss k') \<and>
    (ok \<longleftrightarrow> find_stream ss' k \<noteq> None) \<and>
    (\<not> ok \<longleftrightarrow> find_stream ss k = None \<and> length (ss_values ss) = ss_limit ss) \<and>
    (find_stream ss k = None \<and> ok \<longrightarrow> find_stream ss' k = stream_new (ss_generations ss) (ss_window ss))"
  using assms(2)
proof (cases rule: streams_get_cases)
  case 1
  then show ?thesis using assms(1) by (auto simp: streams_wf_def)
next
  case (2 st)
  then show ?thesis using streams_emplace [OF assms(1) 2(2,3)] by auto
qed

lemma streams_get_spec_witness:
  "find_stream (snd (the (streams_get (streams_new 1 4 64) (Key 3 9)))) (Key 3 9) = stream_new 4 64"
proof -
  obtain st where "stream_new 4 64 = Some st" by (simp add: stream_new_def window_new_def)
  then have "streams_get (streams_new 1 4 64) (Key 3 9) = Some (True, snd (the (streams_get (streams_new 1 4 64) (Key 3 9))))"
    by (simp add: streams_get_def streams_new_def)
  from streams_get_spec [OF streams_wf_new this] show ?thesis by (simp add: streams_new_def)
qed

end
