(* ===== verification/Consumer.thy ===== *)
theory Consumer
  imports Args Metrics Multiplex
begin

text \<open>
  The consumer program, \<open>consumer.cpp\<close>: the loop that follows the ring, validates every frame,
  keeps metrics per stream and writes one record per frame. What the ring, the clocks and the
  record file answer in one pass of the loop is the argument \<open>env\<close> of its step.
\<close>

section \<open>State and inputs\<close>

record csv_record =
  cr_seq_id :: u64
  cr_send_ts_ns :: u64
  cr_recv_ts_ns :: u64
  cr_stream_id :: u64
  cr_stream_epoch :: u64

record consumer =
  cs_acc :: accumulator
  cs_stream_metrics :: "(key \<times> accumulator) list"
  cs_records :: "csv_record list"
  cs_read_index :: u64
  cs_received :: u64
  cs_skipped :: u64
  cs_lapped_events :: u64
  cs_last_progress :: u64

record consumer_env =
  ce_region :: region
  ce_lock :: "exn + bool"
  ce_recv_ts :: u64
  ce_now :: u64
  ce_write_ok :: bool

text \<open>How a pass of a loop ends: go on, leave the loop, return from the program, or throw.\<close>

datatype 's pass = Continue 's | Break 's | Return int | Raise exn

definition consumer_start :: "consumer_config \<Rightarrow> region \<Rightarrow> u64 \<Rightarrow> consumer" where
  "consumer_start cfg g now = \<lparr>cs_acc = accumulator_new, cs_stream_metrics = [], cs_records = [],
     cs_read_index = (if cc_from_edge cfg then live_edge g else 0), cs_received = 0, cs_skipped = 0,
     cs_lapped_events = 0, cs_last_progress = now\<rparr>"

section \<open>The loop\<close>

text \<open>\<open>stream_metrics[identity].record(seq, latency)\<close>, creating the entry when it is missing.\<close>

definition stream_record :: "(key \<times> accumulator) list \<Rightarrow> key \<Rightarrow> u64 \<Rightarrow> u64 \<Rightarrow> (key \<times> accumulator) list" where
  "stream_record ms k seq latency =
     (let ms = (if map_of ms k = None then map_emplace k accumulator_new ms else ms)
      in map (\<lambda>(k', a). (k', if k' = k then acc_record a seq latency else a)) ms)"

definition consumer_frame :: "consumer_config \<Rightarrow> consumer_env \<Rightarrow> consumer \<Rightarrow> bytes \<Rightarrow> consumer pass" where
  "consumer_frame cfg env s frame =
     (if \<not> validate_frame (Some frame) then Return 1
      else case load (get_header LE) frame of Inl e \<Rightarrow> Raise e
      | Inr hdr \<Rightarrow>
          if cs_skipped s < cc_skip cfg then
            Continue (s\<lparr>cs_skipped := cs_skipped s + 1, cs_read_index := cs_read_index s + 1, cs_last_progress := ce_now env\<rparr>)
          else let latency = (if ce_recv_ts env > send_ts_ns hdr then ce_recv_ts env - send_ts_ns hdr else 0);
                   identity = Key (stream_id hdr) (stream_epoch hdr)
          in if map_of (cs_stream_metrics s) identity = None \<and> length (cs_stream_metrics s) \<ge> 256 then Return 1
             else let s = s\<lparr>cs_stream_metrics := stream_record (cs_stream_metrics s) identity (seq_id hdr) latency,
                            cs_acc := acc_record (cs_acc s) (cs_received s + 1) latency\<rparr>
             in if cc_csv cfg \<noteq> [] \<and> \<not> ce_write_ok env then Return 1
                else let s = (if cc_csv cfg \<noteq> []
                       then s\<lparr>cs_records := cs_records s @ [\<lparr>cr_seq_id = seq_id hdr, cr_send_ts_ns = send_ts_ns hdr,
                              cr_recv_ts_ns = ce_recv_ts env, cr_stream_id = stream_id hdr,
                              cr_stream_epoch = stream_epoch hdr\<rparr>]\<rparr> else s)
                in Continue (s\<lparr>cs_received := cs_received s + 1, cs_read_index := cs_read_index s + 1,
                               cs_last_progress := ce_now env\<rparr>))"

definition consumer_pass :: "consumer_config \<Rightarrow> ring \<Rightarrow> consumer_env \<Rightarrow> consumer \<Rightarrow> consumer pass" where
  "consumer_pass cfg r env s =
     (case read (ce_region env) r (cs_read_index s) (ce_lock env) of Inl e \<Rightarrow> Raise e
      | Inr (st, frame, resume, _) \<Rightarrow>
          (case st of
             kOk \<Rightarrow> consumer_frame cfg env s frame
           | kLapped \<Rightarrow> Continue (s\<lparr>cs_lapped_events := cs_lapped_events s + 1, cs_read_index := resume\<rparr>)
           | kCorrupt \<Rightarrow> Return 1
           | kEmpty \<Rightarrow>
               if ce_now env - cs_last_progress s > cc_idle_ms cfg * 1000000 then Break s else Continue s))"

text \<open>
  The loop on the trace of what its passes see, the stop flag first. \<open>None\<close>: still running at
  the end of the trace.
\<close>

fun consumer_loop :: "consumer_config \<Rightarrow> ring \<Rightarrow> consumer \<Rightarrow> (bool \<times> consumer_env) list \<Rightarrow> consumer pass option" where
  "consumer_loop cfg r s [] = None"
| "consumer_loop cfg r s ((stop, env) # es) =
     (if stop \<or> \<not> (cc_count cfg = 0 \<or> cs_received s < cc_count cfg) then Some (Break s)
      else case consumer_pass cfg r env s of
        Continue s \<Rightarrow> consumer_loop cfg r s es
      | other \<Rightarrow> Some other)"

text \<open>The summary after the loop: the totals over the streams replace those of the overall
  accumulator; the exit status is 1 for an incomplete counted run.\<close>

definition consumer_report :: "consumer \<Rightarrow> report" where
  "consumer_report s = (acc_report (cs_acc s))
     \<lparr>rp_expected := sum_list (map (\<lambda>(_, a). rp_expected (acc_report a)) (cs_stream_metrics s)),
      rp_dropped := sum_list (map (\<lambda>(_, a). rp_dropped (acc_report a)) (cs_stream_metrics s))\<rparr>"

definition consumer_finish :: "consumer_config \<Rightarrow> consumer \<Rightarrow> bool \<Rightarrow> int" where
  "consumer_finish cfg s close_ok =
     (if cc_csv cfg \<noteq> [] \<and> \<not> close_ok then 1
      else if cc_count cfg \<noteq> 0 \<and> cs_received s < cc_count cfg then 1 else 0)"

section \<open>Reachable states\<close>

inductive consumer_run :: "consumer_config \<Rightarrow> ring \<Rightarrow> consumer \<Rightarrow> consumer_env list \<Rightarrow> consumer \<Rightarrow> bool" for cfg r where
  start: "consumer_run cfg r s [] s"
| pass: "consumer_run cfg r s es s' \<Longrightarrow> consumer_pass cfg r env s' = Continue s'' \<Longrightarrow> consumer_run cfg r s (es @ [env]) s''"

text \<open>Every state the loop goes through is reached by such a run.\<close>

lemma consumer_run_trans:
  "consumer_run cfg r s1 es2 s2 \<Longrightarrow> consumer_run cfg r s0 es1 s1 \<Longrightarrow> consumer_run cfg r s0 (es1 @ es2) s2"
  by (induction rule: consumer_run.induct) (auto intro: consumer_run.intros simp flip: append_assoc)

lemma consumer_loop_run:
  assumes "consumer_loop cfg r s es = Some (Break s')"
  shows "\<exists>n. consumer_run cfg r s (map snd (take n es)) s'"
  using assms
proof (induction cfg r s es rule: consumer_loop.induct)
  case (2 cfg r s stop env es)
  show ?case
  proof (cases "stop \<or> \<not> (cc_count cfg = 0 \<or> cs_received s < cc_count cfg)")
    case True
    then have "s' = s" using 2 by simp
    then show ?thesis by (intro exI [of _ 0]) (simp add: consumer_run.start)
  next
    case False
    show ?thesis
    proof (cases "consumer_pass cfg r env s")
      case (Continue s1)
      then obtain n where n: "consumer_run cfg r s1 (map snd (take n es)) s'" using 2 False by auto
      have "consumer_run cfg r s [env] s1"
        using consumer_run.pass [OF consumer_run.start Continue] by simp
      from consumer_run_trans [OF n this] show ?thesis by (intro exI [of _ "Suc n"]) simp
    next
      case (Break s1)
      then have s': "s' = s1" using 2(2) False by (auto split: if_splits)
      have "s1 = s" using Break
        by (auto simp: consumer_pass_def consumer_frame_def Let_def split: sum.splits prod.splits frame_status.splits if_splits)
      then show ?thesis unfolding s' by (intro exI [of _ 0]) (simp add: consumer_run.start)
    qed (use 2 False in auto)
  qed
qed simp

section \<open>Metrics of a run\<close>

definition total_received :: "(key \<times> accumulator) list \<Rightarrow> u64" where
  "total_received ms = sum_list (map (ac_received \<circ> snd) ms)"

lemma total_update:
  assumes "distinct (map fst ms)" "k \<in> fst ` set ms"
  shows "total_received (map (\<lambda>(k', a). (k', if k' = k then acc_record a seq lat else a)) ms) = total_received ms + 1"
  using assms
proof (induction ms)
  case (Cons m ms)
  obtain k' a where m: "m = (k', a)" by fastforce
  show ?case
  proof (cases "k' = k")
    case True
    then have "map (\<lambda>(k', a). (k', if k' = k then acc_record a seq lat else a)) ms = ms"
      using Cons.prems(1) m by (intro map_idI) (force split: prod.splits)
    then show ?thesis using True m by (simp add: total_received_def)
  next
    case False
    then have "k \<in> fst ` set ms" using Cons.prems(2) m by auto
    then show ?thesis using Cons False m by (simp add: total_received_def)
  qed
qed simp

lemma total_emplace: "map_of ms k = None \<Longrightarrow> total_received (map_emplace k accumulator_new ms) = total_received ms"
  by (induction k accumulator_new ms rule: map_emplace.induct)
    (auto simp: total_received_def accumulator_new_def split: if_splits)

lemma map_fst_update: "map fst (map (\<lambda>(k', a). (k', if k' = k then f a else a)) ms) = map fst ms"
  by (induction ms) auto

lemma strict_sorted_distinct: "sorted_wrt (<) (xs :: 'a::linorder list) \<Longrightarrow> distinct xs"
  by (induction xs) auto

lemma stream_record_ok:
  assumes "sorted_wrt (<) (map fst ms)"
  shows "sorted_wrt (<) (map fst (stream_record ms k seq lat))"
    and "total_received (stream_record ms k seq lat) = total_received ms + 1"
    and "length (stream_record ms k seq lat) = (if map_of ms k = None then Suc (length ms) else length ms)"
proof -
  define ms' where "ms' = (if map_of ms k = None then map_emplace k accumulator_new ms else ms)"
  have eq: "stream_record ms k seq lat = map (\<lambda>(k', a). (k', if k' = k then acc_record a seq lat else a)) ms'"
    by (simp add: stream_record_def ms'_def)
  have s: "sorted_wrt (<) (map fst ms')" using assms sorted_map_emplace by (auto simp: ms'_def)
  then show "sorted_wrt (<) (map fst (stream_record ms k seq lat))" unfolding eq map_fst_update .
  have k: "k \<in> fst ` set ms'"
    using set_map_emplace [of k accumulator_new ms] by (auto simp: ms'_def map_of_eq_None_iff)
  have "total_received ms' = total_received ms" by (simp add: ms'_def total_emplace)
  then show "total_received (stream_record ms k seq lat) = total_received ms + 1"
    unfolding eq total_update [OF strict_sorted_distinct [OF s] k] by simp
  show "length (stream_record ms k seq lat) = (if map_of ms k = None then Suc (length ms) else length ms)"
    unfolding eq by (simp add: ms'_def length_map_emplace)
qed

definition metrics_ok :: "consumer \<Rightarrow> bool" where
  "metrics_ok s \<longleftrightarrow> sorted_wrt (<) (map fst (cs_stream_metrics s)) \<and> length (cs_stream_metrics s) \<le> 256 \<and>
     total_received (cs_stream_metrics s) = cs_received s \<and> ac_received (cs_acc s) = cs_received s"

lemma metrics_ok_pass:
  assumes "metrics_ok s" and "consumer_pass cfg r env s = Continue s'"
  shows "metrics_ok s'"
proof (cases "read (ce_region env) r (cs_read_index s) (ce_lock env)")
  case (Inr x)
  obtain st frame resume g where x: "x = (st, frame, resume, g)" by (cases x)
  show ?thesis
  proof (cases st)
    case kOk
    then have f: "consumer_frame cfg env s frame = Continue s'" using assms(2) Inr x by (simp add: consumer_pass_def)
    then obtain hdr where hdr: "load (get_header LE) frame = Inr hdr"
      by (auto simp: consumer_frame_def split: sum.splits if_splits)
    define k lat where "k = Key (stream_id hdr) (stream_epoch hdr)"
      and "lat = (if ce_recv_ts env > send_ts_ns hdr then ce_recv_ts env - send_ts_ns hdr else 0)"
    note sr = stream_record_ok [of "cs_stream_metrics s" k "seq_id hdr" lat]
    show ?thesis
    proof (cases "cs_skipped s < cc_skip cfg")
      case True
      then have "s' = s\<lparr>cs_skipped := cs_skipped s + 1, cs_read_index := cs_read_index s + 1, cs_last_progress := ce_now env\<rparr>"
        using f hdr by (simp add: consumer_frame_def split: if_splits)
      then show ?thesis using assms(1) by (simp add: metrics_ok_def)
    next
      case False
      then have m: "cs_stream_metrics s' = stream_record (cs_stream_metrics s) k (seq_id hdr) lat"
        "ac_received (cs_acc s') = ac_received (cs_acc s) + 1" "cs_received s' = cs_received s + 1"
        "\<not> (map_of (cs_stream_metrics s) k = None \<and> length (cs_stream_metrics s) \<ge> 256)"
        using f hdr by (auto simp: consumer_frame_def Let_def k_def lat_def split: if_splits)
      then show ?thesis using assms(1) sr by (auto simp: metrics_ok_def)
    qed
  qed (use assms Inr x in \<open>auto simp: consumer_pass_def metrics_ok_def split: if_splits\<close>)
qed (use assms in \<open>simp add: consumer_pass_def\<close>)

lemma metrics_ok_run: "consumer_run cfg r s es s' \<Longrightarrow> metrics_ok s \<Longrightarrow> metrics_ok s'"
  by (induction rule: consumer_run.induct) (auto intro: metrics_ok_pass)

text \<open>
  C33. The consumer's books balance: whenever its loop ends normally, it keeps at most 256
  streams, and the frames counted over all streams and by the overall accumulator are the
  frames received.
\<close>

theorem consumer_metrics_balance:
  assumes "consumer_loop cfg r (consumer_start cfg g now) es = Some (Break s)"
  shows "length (cs_stream_metrics s) \<le> 256 \<and>
    sum_list (map (ac_received \<circ> snd) (cs_stream_metrics s)) = cs_received s \<and> ac_received (cs_acc s) = cs_received s"
proof -
  obtain n where "consumer_run cfg r (consumer_start cfg g now) (map snd (take n es)) s"
    using consumer_loop_run [OF assms] by blast
  from metrics_ok_run [OF this] have "metrics_ok s"
    by (simp add: metrics_ok_def consumer_start_def total_received_def accumulator_new_def)
  then show ?thesis by (simp add: metrics_ok_def total_received_def)
qed

section \<open>Order of the records\<close>

text \<open>A record that was written for a frame.\<close>

definition record_for :: "bytes \<Rightarrow> csv_record \<Rightarrow> bool" where
  "record_for f c \<longleftrightarrow> (\<exists>h. load (get_header LE) f = Inr h \<and> cr_seq_id c = seq_id h \<and> cr_send_ts_ns c = send_ts_ns h \<and>
     cr_stream_id c = stream_id h \<and> cr_stream_epoch c = stream_epoch h)"

definition records_ok :: "bytes list \<Rightarrow> consumer \<Rightarrow> bool" where
  "records_ok L s \<longleftrightarrow> unat (cs_read_index s) \<le> length L \<and>
     (\<exists>is. sorted_wrt (<) is \<and> (\<forall>i\<in>set is. i < unat (cs_read_index s)) \<and>
       list_all2 (\<lambda>i c. record_for (L ! i) c) is (cs_records s))"

lemma records_ok_move:
  assumes "records_ok L s" and "unat (cs_read_index s) \<le> unat (cs_read_index s')" "unat (cs_read_index s') \<le> length L"
    and "cs_records s' = cs_records s"
  shows "records_ok L s'"
proof -
  obtain xs where "sorted_wrt (<) xs" "\<forall>i\<in>set xs. i < unat (cs_read_index s)"
    "list_all2 (\<lambda>i c. record_for (L ! i) c) xs (cs_records s)"
    using assms(1) by (auto simp: records_ok_def)
  moreover from this(2) have "\<forall>i\<in>set xs. i < unat (cs_read_index s')" using assms(2) by auto
  ultimately show ?thesis unfolding records_ok_def using assms(3,4) by auto
qed

lemma records_ok_add:
  assumes "records_ok L s" and "unat (cs_read_index s') = Suc (unat (cs_read_index s))" "unat (cs_read_index s) < length L"
    and "cs_records s' = cs_records s @ [c]" and "record_for (L ! unat (cs_read_index s)) c"
  shows "records_ok L s'"
proof -
  obtain xs where xs: "sorted_wrt (<) xs" "\<forall>i\<in>set xs. i < unat (cs_read_index s)"
    "list_all2 (\<lambda>i c. record_for (L ! i) c) xs (cs_records s)"
    using assms(1) by (auto simp: records_ok_def)
  let ?is = "xs @ [unat (cs_read_index s)]"
  have "sorted_wrt (<) ?is" using xs(1,2) by (simp add: sorted_wrt_append)
  moreover have "\<forall>i\<in>set ?is. i < unat (cs_read_index s')" using xs(2) assms(2) by auto
  moreover have "list_all2 (\<lambda>i c. record_for (L ! i) c) ?is (cs_records s')"
    using xs(3) assms(4,5) by (auto intro: list_all2_appendI)
  ultimately show ?thesis unfolding records_ok_def using assms(2,3) by (auto intro!: exI [of _ ?is])
qed

lemma records_ok_pass:
  assumes ok: "records_ok L s" and pass: "consumer_pass cfg r env s = Continue s'"
    and log: "ring_log (ce_region env) r n (take m L)" and len: "Suc (length L) < 2 ^ 64" and csv: "cc_csv cfg \<noteq> []"
  shows "records_ok L s'"
proof -
  let ?i = "unat (cs_read_index s)"
  have i: "?i \<le> length L" using ok by (simp add: records_ok_def)
  have sm: "Suc ?i < 2 ^ 64" using i len by simp
  then have inc: "unat (cs_read_index s + 1) = Suc ?i" by (simp add: unat_inc)
  define P where "P = take m L"
  have P: "length P \<le> length L" "j < length P \<Longrightarrow> P ! j = L ! j" for j by (simp_all add: P_def)
  note log' = log [folded P_def]
  note s = ring_log_simps [OF log']
  show ?thesis
  proof (cases "ce_lock env = Inr True")
    case True
    note rd = read_log [OF log' sm, folded True]
    consider "length P \<le> ?i" | "?i < length P" "length P \<le> ?i + n" | "?i + n < length P"
      by linarith
    then show ?thesis
    proof cases
      case 1
      then have "s' = s" using pass rd by (simp add: consumer_pass_def split: if_splits)
      then show ?thesis using ok by simp
    next
      case 2
      then have il: "?i < length L" "P ! ?i = L ! ?i" using P by simp_all
      have f: "consumer_frame cfg env s (L ! ?i) = Continue s'" using 2 pass rd il by (simp add: consumer_pass_def)
      then obtain h where h: "load (get_header LE) (L ! ?i) = Inr h"
        by (auto simp: consumer_frame_def split: sum.splits if_splits)
      show ?thesis
      proof (cases "cs_skipped s < cc_skip cfg")
        case True
        then have "cs_read_index s' = cs_read_index s + 1" "cs_records s' = cs_records s"
          using f h by (auto simp: consumer_frame_def split: if_splits)
        then show ?thesis using inc il(1) by (intro records_ok_move [OF ok]) simp_all
      next
        case False
        then obtain c where c: "cs_read_index s' = cs_read_index s + 1" "cs_records s' = cs_records s @ [c]"
          "record_for (L ! ?i) c"
          using f h csv by (auto simp: consumer_frame_def Let_def record_for_def split: if_splits)
        then show ?thesis using inc il(1) by (intro records_ok_add [OF ok _ il(1) c(2,3)]) simp
      qed
    next
      case 3
      then have s': "s' = s\<lparr>cs_lapped_events := cs_lapped_events s + 1, cs_read_index := of_nat (length P - n)\<rparr>"
        using pass rd by (simp add: consumer_pass_def)
      have "unat (of_nat (length P - n) :: u64) = length P - n"
        using s(6) by (intro unat_of_nat_small) simp
      then show ?thesis using 3 P(1) by (intro records_ok_move [OF ok]) (simp_all add: s')
    qed
  next
    case False
    then have "s' = s" using pass
      by (cases "ce_lock env") (auto simp: consumer_pass_def read_def split: if_splits)
    then show ?thesis using ok by simp
  qed
qed

lemma records_ok_run:
  assumes "consumer_run cfg r s es s'" and "records_ok L s" and "\<forall>env\<in>set es. \<exists>m. ring_log (ce_region env) r n (take m L)"
    and "Suc (length L) < 2 ^ 64" and "cc_csv cfg \<noteq> []"
  shows "records_ok L s'"
  using assms(1-3)
proof (induction rule: consumer_run.induct)
  case (pass s es s' env s'')
  then obtain m where "ring_log (ce_region env) r n (take m L)" by auto
  then show ?case using records_ok_pass pass assms(4,5) by simp
qed

text \<open>
  C34. The consumer neither repeats nor reorders frames: while the ring it reads holds ever longer
  parts of one log, the records it has written when its loop ends belong to strictly increasing
  positions of that log, however often it was lapped or found the ring empty or locked.
\<close>

theorem consumer_records_in_order:
  assumes "consumer_loop cfg r (consumer_start cfg g now) es = Some (Break s)"
    and "\<forall>e\<in>set es. \<exists>m. ring_log (ce_region (snd e)) r n (take m L)" and "ring_log g r n (take m0 L)"
    and "Suc (length L) < 2 ^ 64" and "cc_csv cfg \<noteq> []"
  shows "\<exists>is. sorted_wrt (<) is \<and> set is \<subseteq> {..<length L} \<and> list_all2 (\<lambda>i c. record_for (L ! i) c) is (cs_records s)"
proof -
  obtain k where run: "consumer_run cfg r (consumer_start cfg g now) (map snd (take k es)) s"
    using consumer_loop_run [OF assms(1)] by blast
  have "records_ok L (consumer_start cfg g now)"
    using ring_log_simps(5) [OF assms(3)] by (simp add: records_ok_def consumer_start_def)
  moreover have "\<forall>env\<in>set (map snd (take k es)). \<exists>m. ring_log (ce_region env) r n (take m L)"
    using assms(2) by (auto dest: in_set_takeD)
  ultimately have "records_ok L s" using records_ok_run [OF run] assms(4,5) by blast
  then show ?thesis unfolding records_ok_def by force
qed

section \<open>Instances\<close>

text \<open>A pass over a ring that holds one frame, then the stop flag.\<close>

definition example_cfg :: consumer_config where
  "example_cfg = consumer_defaults\<lparr>cc_csv := ''out.csv''\<rparr>"

definition example_region :: region where
  "example_region = last (publish_stores (fst ring_1) (snd ring_1) (live_edge (fst ring_1)) example_native)"

definition example_env :: consumer_env where
  "example_env = \<lparr>ce_region = example_region, ce_lock = Inr True, ce_recv_ts = 9, ce_now = 3, ce_write_ok = True\<rparr>"

lemma example_log: "ring_log example_region (snd ring_1) 1 [example_native]"
proof -
  have "example_native \<noteq> []" "length example_native \<le> kFrameCap"
    using example_frame(2) by (auto simp: kFrameCap_def size_consts)
  from publish_log [OF ring_1_log this] show ?thesis by (simp add: example_region_def)
qed

lemma example_pass:
  "\<exists>s. consumer_loop example_cfg (snd ring_1) (consumer_start example_cfg (fst ring_1) 0)
     [(False, example_env), (True, example_env)] = Some (Break s) \<and> length (cs_records s) = 1"
proof -
  have "read example_region (snd ring_1) 0 (Inr True) = Inr (kOk, example_native, 0, advance_cursor example_region (snd ring_1) 1)"
    using read_log [OF example_log, of 0] by simp
  then show ?thesis
    using example_frame
    by (simp add: example_cfg_def consumer_defaults_def consumer_start_def example_env_def consumer_pass_def consumer_frame_def Let_def)
qed

lemma consumer_metrics_balance_witness:
  "\<exists>s. consumer_loop example_cfg (snd ring_1) (consumer_start example_cfg (fst ring_1) 0)
     [(False, example_env), (True, example_env)] = Some (Break s) \<and> ac_received (cs_acc s) = cs_received s"
  using example_pass consumer_metrics_balance by blast

lemma consumer_records_in_order_witness:
  "\<exists>s is. consumer_loop example_cfg (snd ring_1) (consumer_start example_cfg (fst ring_1) 0)
     [(False, example_env), (True, example_env)] = Some (Break s) \<and>
   sorted_wrt (<) is \<and> list_all2 (\<lambda>i c. record_for ([example_native] ! i) c) is (cs_records s)"
proof -
  obtain s where s: "consumer_loop example_cfg (snd ring_1) (consumer_start example_cfg (fst ring_1) 0)
     [(False, example_env), (True, example_env)] = Some (Break s)" using example_pass by blast
  have "ring_log (fst ring_1) (snd ring_1) 1 (take 0 [example_native])"
    "\<forall>e\<in>set [(False, example_env), (True, example_env)]. \<exists>m. ring_log (ce_region (snd e)) (snd ring_1) 1 (take m [example_native])"
    using ring_1_log example_log by (auto simp: example_env_def intro!: exI [of _ 1])
  from consumer_records_in_order [OF s this(2,1)] s show ?thesis by (auto simp: example_cfg_def)
qed

end
