(* ===== verification/Sink.thy ===== *)
theory Sink
  imports Ring
begin

text \<open>
  What the programs that publish into a ring rely on: the interface, and the ring of
  \<open>shm_ring.h\<close> as its provider.
\<close>

text \<open>
  What a region holds, as a list of frames, and that a publish which returns appends its frame
  to it.
\<close>

locale frame_sink =
  fixes pub :: "region \<Rightarrow> bytes \<Rightarrow> exn + region" and contents :: "region \<Rightarrow> bytes list \<Rightarrow> bool"
  assumes append: "contents g L \<Longrightarrow> pub g f = Inr g' \<Longrightarrow> contents g' (L @ [f])"

text \<open>
  The ring as the output: \<open>publish\<close> on the clock readings, the registries it polls and the answer
  of the lock that the environment gives it. A wait that the environment never ends counts as
  failed.
\<close>

definition ring_pub :: "ring \<Rightarrow> (region \<Rightarrow> bytes \<Rightarrow> u64 \<times> (reader_state list \<times> bool \<times> u64) list \<times> (exn + unit)) \<Rightarrow>
    region \<Rightarrow> bytes \<Rightarrow> exn + region" where
  "ring_pub w env g f = (case env g f of (now, polls, lock) \<Rightarrow>
     (case publish g w (Some f) now polls lock of None \<Rightarrow> Inl RuntimeError | Some r \<Rightarrow> r))"

definition ring_contents :: "ring \<Rightarrow> nat \<Rightarrow> region \<Rightarrow> bytes list \<Rightarrow> bool" where
  "ring_contents w n g L \<longleftrightarrow> (length L + n < 2 ^ 64 \<longrightarrow> ring_log g w n L)"

interpretation ring_sink: frame_sink "ring_pub w env" "ring_contents w n" for w env n
proof
  fix g L f g'
  assume L: "ring_contents w n g L" and p: "ring_pub w env g f = Inr g'"
  obtain now polls lock where e: "env g f = (now, polls, lock)" by (cases "env g f")
  have "publish g w (Some f) now polls lock = Some (Inr g')" using p e by (auto simp: ring_pub_def split: option.splits)
  then obtain readers where f: "f \<noteq> []" "length f \<le> kFrameCap"
    and g': "g' = last (publish_stores (g\<lparr>rg_header := (rg_header g)\<lparr>rh_readers := readers\<rparr>\<rparr>) w (live_edge g) f)"
    by (rule publish_ok) blast
  show "ring_contents w n g' (L @ [f])"
    unfolding ring_contents_def
  proof
    assume room: "length (L @ [f]) + n < 2 ^ 64"
    then have "ring_log (g\<lparr>rg_header := (rg_header g)\<lparr>rh_readers := readers\<rparr>\<rparr>) w n L"
      using L by (simp add: ring_contents_def ring_log_readers)
    from publish_log [OF this f] room show "ring_log g' w n (L @ [f])" by (simp add: g' live_edge_def)
  qed
qed

end
