(* ===== verification/Receiver.thy ===== *)
theory Receiver
  imports Args Metrics Multiplex Fec_Total Sink
begin

text \<open>
  The receiver program, \<open>receiver.cpp\<close>: the callback that takes a frame from the FEC decoder
  through the wire decoder, the identity check and the replay window into the output ring, the
  handling of one datagram and of one pass of the main loop, and the totals of the summary.
\<close>

section \<open>The publishing callback\<close>

text \<open>
  What the callback changes: the replay window and the last number of the current stream, the
  output ring and the counters.
\<close>

record rx =
  rx_dedupe :: window
  rx_last_seq :: u64
  rx_ring :: region
  rx_published :: u64
  rx_old_duplicates :: u64
  rx_late :: u64

text \<open>
  \<open>pub\<close> is \<open>ring.publish\<close> with its waits resolved: the new region or the exception.
\<close>

definition publish_frame :: "(region \<Rightarrow> bytes \<Rightarrow> exn + region) \<Rightarrow> receiver_config \<Rightarrow> key \<Rightarrow>
    rx \<Rightarrow> bytes \<Rightarrow> bool \<Rightarrow> u8 \<Rightarrow> exn + bool \<times> rx" where
  "publish_frame pub cfg k s frame recovered reason =
     (case decode (Some frame) True of None \<Rightarrow> Inr (False, s)
      | Some native \<Rightarrow> bind_exn (load (get_header LE) native) (\<lambda>hdr.
          if stream_id hdr \<noteq> k_stream k \<or> stream_epoch hdr \<noteq> k_epoch k then Inr (False, s)
          else if \<not> rc_dedupe_enabled cfg then
            if seq_id hdr > rx_last_seq s then
              bind_exn (pub (rx_ring s) native) (\<lambda>g.
                Inr (True, s\<lparr>rx_ring := g, rx_last_seq := seq_id hdr, rx_published := rx_published s + 1\<rparr>))
            else Inr (True, s\<lparr>rx_old_duplicates := rx_old_duplicates s + 1\<rparr>)
          else let (result, w) = observe (rx_dedupe s) (seq_id hdr);
                   s = s\<lparr>rx_dedupe := w, rx_late := rx_late s + (if recovered \<and> result = kTooOld then 1 else 0)\<rparr>
          in if result = kAccept \<or> result = kAdvanced then
               bind_exn (pub (rx_ring s) native) (\<lambda>g.
                 Inr (True, s\<lparr>rx_ring := g, rx_published := rx_published s + 1\<rparr>))
             else Inr (True, s)))"

section \<open>One datagram\<close>

record receiver =
  rv_streams :: streams
  rv_current_key :: key
  rv_ring :: region
  rv_received :: u64
  rv_published :: u64
  rv_echoed :: u64
  rv_old_duplicates :: u64
  rv_rejected :: u64
  rv_late :: u64
  rv_last_progress :: u64

definition receiver_new :: "receiver_config \<Rightarrow> region \<Rightarrow> u64 \<Rightarrow> receiver" where
  "receiver_new cfg g now =
     \<lparr>rv_streams = streams_new (unat (rc_max_streams cfg)) (rc_fec_gens cfg) (rc_dedupe_window cfg),
      rv_current_key = Key 0 0, rv_ring = g, rv_received = 0, rv_published = 0, rv_echoed = 0,
      rv_old_duplicates = 0, rv_rejected = 0, rv_late = 0, rv_last_progress = now\<rparr>"

definition rx_of :: "receiver \<Rightarrow> stream \<Rightarrow> rx" where
  "rx_of s st = \<lparr>rx_dedupe = st_dedupe st, rx_last_seq = st_last_seq st, rx_ring = rv_ring s,
     rx_published = rv_published s, rx_old_duplicates = rv_old_duplicates s, rx_late = rv_late s\<rparr>"

definition store_rx :: "receiver \<Rightarrow> decoder \<Rightarrow> rx \<Rightarrow> receiver" where
  "store_rx s d x = s\<lparr>rv_streams := streams_put (rv_streams s) (rv_current_key s)
       \<lparr>st_decoder = d, st_dedupe = rx_dedupe x, st_last_seq = rx_last_seq x\<rparr>,
     rv_ring := rx_ring x, rv_published := rx_published x, rv_old_duplicates := rx_old_duplicates x,
     rv_late := rx_late x\<rparr>"

definition reject :: "receiver \<Rightarrow> receiver" where
  "reject s = s\<lparr>rv_rejected := rv_rejected s + 1\<rparr>"

text \<open>
  The body of the loop over the messages of a batch: the acknowledgement to send, if the
  datagram got as far as the decoder, and the new state. The outer \<open>None\<close> is an abort.
\<close>

definition receiver_datagram :: "(region \<Rightarrow> bytes \<Rightarrow> exn + region) \<Rightarrow> receiver_config \<Rightarrow> bool \<Rightarrow> bytes \<Rightarrow> u64 \<Rightarrow>
    receiver \<Rightarrow> (exn + bool option \<times> receiver) option" where
  "receiver_datagram pub cfg truncated data now s =
     (let s = s\<lparr>rv_received := rv_received s + 1\<rparr>
      in if truncated then Some (Inr (None, reject s))
      else case unwrap data (rv_current_key s) of Inl e \<Rightarrow> Some (Inl e)
      | Inr (ok, payload, k) \<Rightarrow>
          let s = s\<lparr>rv_current_key := k\<rparr>
          in if \<not> ok then Some (Inr (None, reject s))
             else case streams_get (rv_streams s) k of None \<Rightarrow> None
             | Some (found, ss) \<Rightarrow>
                 let s = s\<lparr>rv_streams := ss\<rparr>
                 in (case map_of (ss_values ss) k of
                       None \<Rightarrow> Some (Inr (None, reject s))
                     | Some st \<Rightarrow>
                         if \<not> found then Some (Inr (None, reject s))
                         else Some (bind_exn (receive (publish_frame pub cfg k) (st_decoder st) payload now (rx_of s st))
                           (\<lambda>(accepted, d, x).
                             let s = store_rx s d x
                             in Inr (Some accepted, if accepted then s else reject s)))))"

section \<open>The main loop\<close>

text \<open>
  The loop over a batch: each message with its truncation flag, the clock and whether sending
  its acknowledgement succeeds. \<open>Return 1\<close> when an acknowledgement fails and the stream may not
  reconnect.
\<close>

datatype 's step = Go 's | Leave 's | Exit int | Throw exn | Abort

fun receiver_batch :: "(region \<Rightarrow> bytes \<Rightarrow> exn + region) \<Rightarrow> receiver_config \<Rightarrow> receiver \<Rightarrow>
    (bool \<times> bytes \<times> u64 \<times> bool) list \<Rightarrow> receiver step" where
  "receiver_batch pub cfg s [] = Go s"
| "receiver_batch pub cfg s ((truncated, data, now, ack_ok) # msgs) =
     (case receiver_datagram pub cfg truncated data now s of
        None \<Rightarrow> Abort
      | Some (Inl e) \<Rightarrow> Throw e
      | Some (Inr (ack, s)) \<Rightarrow>
          if rc_ack_publish cfg \<and> ack \<noteq> None \<and> \<not> ack_ok \<and> \<not> rc_stream_reconnect cfg then Exit 1
          else receiver_batch pub cfg s msgs)"

text \<open>The echo loop: \<open>sendmmsg\<close> until all \<open>n\<close> messages are out, on the values it returns.\<close>

fun echo_send :: "nat \<Rightarrow> int list \<Rightarrow> bool option" where
  "echo_send todo rs =
     (if todo = 0 then Some True
      else case rs of [] \<Rightarrow> None
      | r # rs \<Rightarrow> if r \<le> 0 then Some False else echo_send (todo - nat r) rs)"

declare echo_send.simps [simp del]

text \<open>What one receive call gives: messages (with the answers of the echo sends), nothing yet, an
  error, or a broken stream with the stop flag and whether a new connection was accepted.\<close>

datatype rx_input = Messages "(bool \<times> bytes \<times> u64 \<times> bool) list" "int list" | WouldBlock | RecvError
  | StreamFailed bool bool

record receiver_env =
  re_expire :: "key \<Rightarrow> u64"
  re_input :: rx_input
  re_now :: u64

definition expire_streams :: "(key \<Rightarrow> u64) \<Rightarrow> streams \<Rightarrow> streams" where
  "expire_streams now ss = ss\<lparr>ss_values :=
     map (\<lambda>(k, st). (k, st\<lparr>st_decoder := expire (st_decoder st) (now k) 1000000000\<rparr>)) (ss_values ss)\<rparr>"

definition receiver_pass :: "(region \<Rightarrow> bytes \<Rightarrow> exn + region) \<Rightarrow> receiver_config \<Rightarrow> receiver_env \<Rightarrow> receiver \<Rightarrow> receiver step" where
  "receiver_pass pub cfg env s =
     (let s = s\<lparr>rv_streams := expire_streams (re_expire env) (rv_streams s)\<rparr>
      in case re_input env of
        StreamFailed stop reconnected \<Rightarrow>
          if rc_stream_reconnect cfg \<and> \<not> stop \<and> reconnected then Go s
          else if rc_count cfg \<noteq> 0 \<and> rv_published s < rc_count cfg then Exit 1
          else Leave s
      | Messages msgs sends \<Rightarrow>
          if msgs = [] then Go s
          else if rc_echo cfg then
            (case echo_send (length msgs) sends of
               Some True \<Rightarrow> Go (s\<lparr>rv_received := rv_received s + of_nat (length msgs),
                                 rv_echoed := rv_echoed s + of_nat (length msgs), rv_last_progress := re_now env\<rparr>)
             | _ \<Rightarrow> Exit 1)
          else (case receiver_batch pub cfg s msgs of
                  Go s \<Rightarrow> Go (s\<lparr>rv_last_progress := re_now env\<rparr>)
                | other \<Rightarrow> other)
      | WouldBlock \<Rightarrow>
          if re_now env - rv_last_progress s > rc_idle_ms cfg * 1000000 then Leave s else Go s
      | RecvError \<Rightarrow> Exit 1)"

definition receiver_guard :: "receiver_config \<Rightarrow> receiver \<Rightarrow> bool" where
  "receiver_guard cfg s \<longleftrightarrow>
     rc_count cfg = 0 \<or> (if rc_echo cfg then rv_echoed s else rv_published s) < rc_count cfg"

fun receiver_loop :: "(region \<Rightarrow> bytes \<Rightarrow> exn + region) \<Rightarrow> receiver_config \<Rightarrow> receiver \<Rightarrow>
    (bool \<times> receiver_env) list \<Rightarrow> receiver step option" where
  "receiver_loop pub cfg s [] = None"
| "receiver_loop pub cfg s ((stop, env) # es) =
     (if stop \<or> \<not> receiver_guard cfg s then Some (Leave s)
      else case receiver_pass pub cfg env s of
        Go s \<Rightarrow> receiver_loop pub cfg s es
      | other \<Rightarrow> Some other)"

section \<open>Totals\<close>

text \<open>The counters of all streams; the depth is a maximum, the others are sums.\<close>

definition add_dedupe :: "dedupe_counters \<Rightarrow> dedupe_counters \<Rightarrow> dedupe_counters" where
  "add_dedupe dc d = \<lparr>dc_accepted = dc_accepted dc + dc_accepted d, dc_duplicates = dc_duplicates dc + dc_duplicates d,
     dc_too_old = dc_too_old dc + dc_too_old d, dc_lost_confirmed = dc_lost_confirmed dc + dc_lost_confirmed d,
     dc_window_slides = dc_window_slides dc + dc_window_slides d,
     dc_max_reorder_depth = max (dc_max_reorder_depth dc) (dc_max_reorder_depth d),
     dc_receiver_seq_jump_raw = dc_receiver_seq_jump_raw dc + dc_receiver_seq_jump_raw d\<rparr>"

definition add_fec :: "fec_counters \<Rightarrow> fec_counters \<Rightarrow> fec_counters" where
  "add_fec fc f = \<lparr>fc_parity_received = fc_parity_received fc + fc_parity_received f,
     fc_recovered = fc_recovered fc + fc_recovered f, fc_unrecoverable_gens = fc_unrecoverable_gens fc + fc_unrecoverable_gens f,
     fc_recovered_by_k = fc_recovered_by_k fc + fc_recovered_by_k f,
     fc_recovered_by_timeout = fc_recovered_by_timeout fc + fc_recovered_by_timeout f,
     fc_recovered_by_flush = fc_recovered_by_flush fc + fc_recovered_by_flush f\<rparr>"

fun sample_all :: "u64 list \<times> u64 \<Rightarrow> u64 list \<Rightarrow> u64 list \<times> u64" where
  "sample_all (samples, count) [] = (samples, count)"
| "sample_all (samples, count) (x # xs) = sample_all (sample samples x (count + 1), count + 1) xs"

record totals =
  tt_dedupe :: dedupe_counters
  tt_fec :: fec_counters
  tt_samples :: "u64 list \<times> u64"
  tt_split :: "(u64 list \<times> u64) list"

definition totals_init :: totals where
  "totals_init = \<lparr>tt_dedupe = \<lparr>dc_accepted = 0, dc_duplicates = 0, dc_too_old = 0, dc_lost_confirmed = 0,
       dc_window_slides = 0, dc_max_reorder_depth = 0, dc_receiver_seq_jump_raw = 0\<rparr>,
     tt_fec = \<lparr>fc_parity_received = 0, fc_recovered = 0, fc_unrecoverable_gens = 0, fc_recovered_by_k = 0,
       fc_recovered_by_timeout = 0, fc_recovered_by_flush = 0\<rparr>,
     tt_samples = ([], 0), tt_split = [([], 0), ([], 0), ([], 0)]\<rparr>"

definition add_stream :: "totals \<Rightarrow> stream \<Rightarrow> totals" where
  "add_stream t st =
     (let d = retire_all (st_decoder st)
      in \<lparr>tt_dedupe = add_dedupe (tt_dedupe t) (w_counters (st_dedupe st)),
          tt_fec = add_fec (tt_fec t) (d_counters d),
          tt_samples = sample_all (tt_samples t) (d_recovery_latencies d),
          tt_split = map (\<lambda>reason. sample_all (tt_split t ! reason) (samples_for d (of_nat reason))) [0..<3]\<rparr>)"

definition receiver_totals :: "receiver \<Rightarrow> totals" where
  "receiver_totals s = foldl add_stream totals_init (map snd (ss_values (rv_streams s)))"

definition receiver_exit :: "receiver_config \<Rightarrow> receiver \<Rightarrow> int" where
  "receiver_exit cfg s = (if receiver_guard cfg s \<and> rc_count cfg \<noteq> 0 then 1 else 0)"

section \<open>What the decoder does to the callback's state\<close>

text \<open>An invariant of the callback is an invariant of \<open>receive\<close>.\<close>

definition keeps :: "('s \<Rightarrow> bool) \<Rightarrow> 's publish \<Rightarrow> bool" where
  "keeps I cb \<longleftrightarrow> (\<forall>s f rc reason b s'. I s \<longrightarrow> cb s f rc reason = Inr (b, s') \<longrightarrow> I s')"

lemma publish_rows_inv:
  assumes "keeps I cb"
  shows "I s \<Longrightarrow> publish_rows cb rows g c s = Inr (b, g', c', s') \<Longrightarrow> I s'"
proof (induction rows arbitrary: g c s)
  case (Cons row rows)
  obtain i r where row: "row = (i, r)" by fastforce
  obtain ok s1 where o: "cb s (take (unat (fec_get_u16 r)) (drop 2 r)) True (g_close_reason g) = Inr (ok, s1)"
    using Cons.prems(2) row by (auto simp: bind_exn_Inr_iff)
  have "I s1" using assms Cons.prems(1) o unfolding keeps_def by blast
  then show ?case using Cons o row by (cases ok) auto
qed simp

lemma try_recover_inv:
  assumes cb: "keeps I cb"
    and "I s" and "try_recover cb d gid now s = Inr (b, d', s')"
  shows "I s'"
proof -
  consider "s' = s" | rows g c ok g' c' where "publish_rows cb rows g c s = Inr (ok, g', c', s')"
    using assms(3) unfolding try_recover_def Let_def bind_exn_def
    by (auto split: if_split_asm option.split_asm prod.split_asm sum.split_asm)
  then show ?thesis
  proof cases
    case 2
    from publish_rows_inv [OF cb assms(2) this] show ?thesis .
  qed (use assms(2) in simp)
qed

lemma receive_inv:
  assumes cb: "keeps I cb"
    and I: "I s" and rcv: "receive cb d data now s = Inr (b, d', s')"
  shows "I s'"
proof -
  consider "s' = s" | f rc cr ok where "cb s f rc cr = Inr (ok, s')"
    | d0 gid b0 where "try_recover cb d0 gid now s = Inr (b0, d', s')"
    | f rc cr s1 d0 gid b0 where "cb s f rc cr = Inr (True, s1)" "try_recover cb d0 gid now s1 = Inr (b0, d', s')"
    using rcv unfolding receive_def receive_data_def receive_parity_def pass_through_def Let_def
    by (auto simp: bind_exn_Inr_iff split: if_splits prod.splits)
  then show ?thesis
  proof cases
    case 2
    with cb I show ?thesis unfolding keeps_def by blast
  next
    case 3
    from try_recover_inv [OF cb I this] show ?thesis .
  next
    case 4
    have "I s1" using cb I 4(1) unfolding keeps_def by blast
    from try_recover_inv [OF cb this 4(2)] show ?thesis .
  qed (use I in simp)
qed

section \<open>The log of the output ring\<close>

definition frame_key :: "bytes \<Rightarrow> key" where
  "frame_key f = Key (stream_id (frame_header f)) (stream_epoch (frame_header f))"

text \<open>What the callback may do to the ring: append a frame that is valid, of the stream, and
  accepted by the window.\<close>

lemma publish_frame_cases:
  assumes "publish_frame pub cfg k s frame rc reason = Inr (b, s')" and "rc_dedupe_enabled cfg"
  obtains "s' = s"
  | f where "validate_frame (Some f)" "frame_key f = k" "\<not> accepted (fst (observe (rx_dedupe s) (frame_seq f)))"
      "rx_dedupe s' = snd (observe (rx_dedupe s) (frame_seq f))" "rx_ring s' = rx_ring s" "rx_published s' = rx_published s"
  | f g where "validate_frame (Some f)" "frame_key f = k" "accepted (fst (observe (rx_dedupe s) (frame_seq f)))"
      "rx_dedupe s' = snd (observe (rx_dedupe s) (frame_seq f))" "pub (rx_ring s) f = Inr g" "rx_ring s' = g"
      "rx_published s' = rx_published s + 1"
proof (cases "decode (Some frame) True")
  case None
  then show thesis using assms(1) that(1) by (simp add: publish_frame_def)
next
  case (Some f)
  have v: "validate_frame (Some f)" using decode_canonical [OF Some] by blast
  note h = validate_header [OF v]
  show thesis
  proof (cases "frame_key f = k")
    case True
    then have k: "stream_id (frame_header f) = k_stream k" "stream_epoch (frame_header f) = k_epoch k"
      by (auto simp: frame_key_def)
    obtain res w where o: "observe (rx_dedupe s) (frame_seq f) = (res, w)" by fastforce
    note o' = o [unfolded frame_seq_def]
    show thesis
    proof (cases "accepted res")
      case acc: True
      then obtain g where "pub (rx_ring s) f = Inr g" "rx_ring s' = g" "rx_published s' = rx_published s + 1" "rx_dedupe s' = w"
        using assms Some h k o' by (auto simp: publish_frame_def accepted_def bind_exn_Inr_iff)
      then show thesis using that(3) [OF v True] acc o by simp
    next
      case False
      then show thesis using assms Some h k o' that(2) [OF v True] o
        by (auto simp: publish_frame_def accepted_def)
    qed
  next
    case False
    then have "stream_id (frame_header f) \<noteq> k_stream k \<or> stream_epoch (frame_header f) \<noteq> k_epoch k"
      by (auto simp: frame_key_def key.expand)
    then show thesis using assms(1) Some h that(1) by (simp add: publish_frame_def)
  qed
qed

section \<open>Every number once\<close>

text \<open>The last numbers below \<open>2\<close>\<open>64\<close>, where the window arithmetic wraps around.\<close>

definition wraps :: "u64 \<Rightarrow> bytes \<Rightarrow> bool" where
  "wraps W f \<longleftrightarrow> 2 ^ 64 \<le> unat (frame_seq f) + unat W"

definition frame_tag :: "bytes \<Rightarrow> key \<times> u64" where
  "frame_tag f = (frame_key f, frame_seq f)"

text \<open>The window covers the frames of the stream in the log.\<close>

definition seen :: "u64 \<Rightarrow> window \<Rightarrow> key \<Rightarrow> bytes list \<Rightarrow> bool" where
  "seen W w k L \<longleftrightarrow> (\<exists>a. refines w a \<and> w_size w = W \<and>
     (\<forall>f\<in>set L. frame_key f = k \<longrightarrow> covered a (unat (frame_seq f))))"

lemma seen_new: "window_new W = Some w \<Longrightarrow> \<forall>f\<in>set L. frame_key f \<noteq> k \<Longrightarrow> seen W w k L"
  using window_new_refines [of W w] by (auto simp: seen_def)

lemma seen_other: "seen W w k L \<Longrightarrow> \<forall>f\<in>set L'. frame_key f \<noteq> k \<Longrightarrow> seen W w k (L @ L')"
  by (auto simp: seen_def)

lemma observe_seen:
  assumes "seen W w k L" and "\<not> wraps W f"
  shows "seen W (snd (observe w (frame_seq f))) k L"
    and "accepted (fst (observe w (frame_seq f))) \<Longrightarrow> frame_key f = k \<Longrightarrow>
      seen W (snd (observe w (frame_seq f))) k (L @ [f]) \<and> frame_tag f \<notin> frame_tag ` set L"
proof -
  let ?q = "unat (frame_seq f)"
  obtain a where a: "refines w a" "w_size w = W" "\<forall>f\<in>set L. frame_key f = k \<longrightarrow> covered a (unat (frame_seq f))"
    using assms(1) by (auto simp: seen_def)
  define a' where "a' = snd (abs_observe (N w) a ?q)"
  have "?q + N w < 2 ^ 64" using assms(2) a(2) by (simp add: wraps_def not_le)
  from observe_step [OF a(1) this] have o: "fst (observe w (frame_seq f)) = fst (abs_observe (N w) a ?q)"
    "refines (snd (observe w (frame_seq f))) a'" "w_size (snd (observe w (frame_seq f))) = W"
    by (simp_all add: a'_def a(2) unsigned_word_eqI word_unat_eq_iff)
  note ok = refines_ok [OF a(1)]
  have c: "\<forall>f\<in>set L. frame_key f = k \<longrightarrow> covered a' (unat (frame_seq f))"
    using a(3) covered_mono [OF ok] by (simp add: a'_def)
  then show "seen W (snd (observe w (frame_seq f))) k L" using o by (auto simp: seen_def)
  assume acc: "accepted (fst (observe w (frame_seq f)))" and k: "frame_key f = k"
  have "covered a' ?q" by (simp add: a'_def abs_observe_covered(2) [OF ok])
  with c o have "seen W (snd (observe w (frame_seq f))) k (L @ [f])" by (auto simp: seen_def)
  moreover have "\<not> covered a ?q" using acc o(1) abs_observe_covered(1) [OF ok] by simp
  then have "frame_tag f \<notin> frame_tag ` set L" using a(3) k by (auto simp: frame_tag_def)
  ultimately show "seen W (snd (observe w (frame_seq f))) k (L @ [f]) \<and> frame_tag f \<notin> frame_tag ` set L" by blast
qed

lemma observe_wraps: "seen W w k L \<Longrightarrow> wraps W f \<Longrightarrow> accepted (fst (observe w (frame_seq f)))"
  using observe_big by (auto simp: seen_def wraps_def)

text \<open>A log with every number once, up to the numbers that wrap around.\<close>

definition once :: "u64 \<Rightarrow> bytes list \<Rightarrow> bool \<Rightarrow> bool" where
  "once W L covers \<longleftrightarrow> (\<exists>f\<in>set L. wraps W f) \<or> distinct (map frame_tag L) \<and> covers"

lemma once_refuse:
  assumes "once W L (seen W w k L)" and "\<not> accepted (fst (observe w (frame_seq f)))"
  shows "once W L (seen W (snd (observe w (frame_seq f))) k L)"
proof (cases "\<exists>f\<in>set L. wraps W f")
  case False
  then have "seen W w k L" "distinct (map frame_tag L)" using assms(1) by (auto simp: once_def)
  then show ?thesis using observe_seen(1) observe_wraps assms(2) unfolding once_def by blast
qed (auto simp: once_def)

lemma once_accept:
  assumes "once W L (seen W w k L)" and "accepted (fst (observe w (frame_seq f)))" and "frame_key f = k"
  shows "once W (L @ [f]) (seen W (snd (observe w (frame_seq f))) k (L @ [f]))"
proof (cases "wraps W f \<or> (\<exists>f\<in>set L. wraps W f)")
  case False
  then have "seen W w k L" "\<not> wraps W f" "distinct (map frame_tag L)" using assms(1) by (auto simp: once_def)
  then show ?thesis using observe_seen(2) [OF _ _ assms(2,3)] by (auto simp: once_def)
qed (auto simp: once_def)

section \<open>The receiver and its output\<close>

definition rx_inv :: "(region \<Rightarrow> bytes list \<Rightarrow> bool) \<Rightarrow> u64 \<Rightarrow> key \<Rightarrow> bytes list \<Rightarrow> rx \<Rightarrow> bool" where
  "rx_inv contents W k L x \<longleftrightarrow> (\<exists>L'. (\<forall>f\<in>set L'. validate_frame (Some f) \<and> frame_key f = k) \<and>
     contents (rx_ring x) (L @ L') \<and> rx_published x = of_nat (length (L @ L')) \<and>
     once W (L @ L') (seen W (rx_dedupe x) k (L @ L')))"

text \<open>Every stream of the table covers its frames of the log, and every frame has its stream.\<close>

definition table_seen :: "u64 \<Rightarrow> streams \<Rightarrow> bytes list \<Rightarrow> bool" where
  "table_seen W ss L \<longleftrightarrow> (\<forall>k. case find_stream ss k of None \<Rightarrow> \<forall>f\<in>set L. frame_key f \<noteq> k
     | Some st \<Rightarrow> seen W (st_dedupe st) k L)"

lemma table_seenD:
  assumes "table_seen W ss L"
  shows "find_stream ss k = None \<Longrightarrow> \<forall>f\<in>set L. frame_key f \<noteq> k"
    and "find_stream ss k = Some st \<Longrightarrow> seen W (st_dedupe st) k L"
  using assms unfolding table_seen_def by (auto dest!: spec [of _ k])

lemma table_seen_new:
  assumes "table_seen W ss L" and "map_of kvs = (find_stream ss)(k \<mapsto> st)" and "window_new W = Some (st_dedupe st)"
    and "find_stream ss k = None"
  shows "table_seen W (ss\<lparr>ss_values := kvs\<rparr>) L"
  unfolding table_seen_def
proof
  fix k'
  show "case find_stream (ss\<lparr>ss_values := kvs\<rparr>) k' of None \<Rightarrow> \<forall>f\<in>set L. frame_key f \<noteq> k'
     | Some st \<Rightarrow> seen W (st_dedupe st) k' L"
  proof (cases "k' = k")
    case True
    then show ?thesis using assms(2) seen_new [OF assms(3) table_seenD(1) [OF assms(1,4)]] by simp
  next
    case False
    then show ?thesis using assms(1,2) by (auto simp: table_seen_def)
  qed
qed

lemma table_seen_put:
  assumes "table_seen W ss L" and "seen W (st_dedupe st) k (L @ L')" and "\<forall>f\<in>set L'. frame_key f = k"
    and "find_stream ss k \<noteq> None"
  shows "table_seen W (streams_put ss k st) (L @ L')"
  unfolding table_seen_def
proof
  fix k'
  show "case find_stream (streams_put ss k st) k' of None \<Rightarrow> \<forall>f\<in>set (L @ L'). frame_key f \<noteq> k'
     | Some st \<Rightarrow> seen W (st_dedupe st) k' (L @ L')"
  proof (cases "k' = k")
    case True
    then show ?thesis using assms(2,4) by auto
  next
    case False
    then have L': "\<forall>f\<in>set L'. frame_key f \<noteq> k'" using assms(3) by auto
    show ?thesis using False L' table_seenD [OF assms(1), of k'] seen_other [OF _ L']
      by (cases "find_stream ss k'") auto
  qed
qed

definition rv_inv :: "(region \<Rightarrow> bytes list \<Rightarrow> bool) \<Rightarrow> u64 \<Rightarrow> receiver \<Rightarrow> bytes list \<Rightarrow> bool" where
  "rv_inv contents W s L \<longleftrightarrow> contents (rv_ring s) L \<and> (\<forall>f\<in>set L. validate_frame (Some f)) \<and>
     rv_published s = of_nat (length L) \<and> streams_wf (rv_streams s) \<and> ss_window (rv_streams s) = W \<and>
     once W L (table_seen W (rv_streams s) L)"

lemma batch_step: "receiver_batch pub cfg s msgs \<noteq> Leave s'"
  by (induction msgs arbitrary: s) (auto split: option.splits sum.splits if_splits)

lemma expire_streams_find:
  "find_stream (expire_streams now ss) k =
   map_option (\<lambda>st. st\<lparr>st_decoder := expire (st_decoder st) (now k) 1000000000\<rparr>) (find_stream ss k)"
proof -
  have "map_of (map (\<lambda>(k, st). (k, f k st)) kvs) k = map_option (f k) (map_of kvs k)"
    for f :: "key \<Rightarrow> stream \<Rightarrow> stream" and kvs by (induction kvs) auto
  then show ?thesis by (simp add: expire_streams_def)
qed

lemma expire_streams_simps:
  "streams_wf (expire_streams now ss) = streams_wf ss" "ss_window (expire_streams now ss) = ss_window ss"
  "ss_limit (expire_streams now ss) = ss_limit ss" "ss_generations (expire_streams now ss) = ss_generations ss"
proof -
  have "map fst (ss_values (expire_streams now ss)) = map fst (ss_values ss)" by (auto simp: expire_streams_def)
  moreover have "length (ss_values (expire_streams now ss)) = length (ss_values ss)"
    "ss_limit (expire_streams now ss) = ss_limit ss" by (simp_all add: expire_streams_def)
  ultimately show "streams_wf (expire_streams now ss) = streams_wf ss"
    by (simp only: streams_wf_def)
qed (simp_all add: expire_streams_def)

context frame_sink
begin

lemma publish_frame_keeps:
  assumes "rc_dedupe_enabled cfg"
  shows "keeps (rx_inv contents W k L) (publish_frame pub cfg k)"
  unfolding keeps_def
proof (intro allI impI)
  fix x f rc reason b x'
  assume inv: "rx_inv contents W k L x" and p: "publish_frame pub cfg k x f rc reason = Inr (b, x')"
  from inv obtain L' where L': "\<forall>f\<in>set L'. validate_frame (Some f) \<and> frame_key f = k"
    "contents (rx_ring x) (L @ L')" "rx_published x = of_nat (length (L @ L'))"
    "once W (L @ L') (seen W (rx_dedupe x) k (L @ L'))"
    unfolding rx_inv_def by blast
  from p assms show "rx_inv contents W k L x'"
  proof (cases rule: publish_frame_cases)
    case 1
    then show ?thesis using inv by simp
  next
    case (2 f)
    then show ?thesis using L' once_refuse [OF L'(4) 2(3)] unfolding rx_inv_def by (intro exI [of _ L']) simp
  next
    case (3 f g)
    have "contents (rx_ring x') ((L @ L') @ [f])" using append [OF L'(2) 3(5)] 3(6) by simp
    then show ?thesis using L'(1,3) 3 once_accept [OF L'(4) 3(3,2)] unfolding rx_inv_def
      by (intro exI [of _ "L' @ [f]"]) simp
  qed
qed

lemma rv_inv_get:
  assumes "rv_inv contents W s L" and "streams_get (rv_streams s) k = Some (ok, ss)"
  shows "rv_inv contents W (s\<lparr>rv_streams := ss\<rparr>) L"
  using assms(2)
proof (cases rule: streams_get_cases)
  case (2 st)
  have wf: "streams_wf (rv_streams s)" and W: "ss_window (rv_streams s) = W" using assms(1) by (auto simp: rv_inv_def)
  have "window_new W = Some (st_dedupe st)" using 2(4) W by (auto simp: stream_new_def)
  note new = table_seen_new [OF _ streams_emplace(2) [OF wf 2(2,3)] this 2(2)]
  show ?thesis using assms(1) 2(5) new [of L] streams_emplace(1) [OF wf 2(2,3)] by (auto simp: rv_inv_def once_def)
qed (use assms(1) in simp)

lemma rv_inv_store:
  assumes inv: "rv_inv contents W s L" and st: "find_stream (rv_streams s) (rv_current_key s) = Some st"
    and x: "rx_inv contents W (rv_current_key s) L x"
  shows "\<exists>L'. rv_inv contents W (store_rx s d x) (L @ L')"
proof -
  let ?k = "rv_current_key s"
  obtain L' where L': "\<forall>f\<in>set L'. validate_frame (Some f) \<and> frame_key f = ?k"
    "contents (rx_ring x) (L @ L')" "rx_published x = of_nat (length (L @ L'))"
    "once W (L @ L') (seen W (rx_dedupe x) ?k (L @ L'))"
    using x unfolding rx_inv_def by blast
  have "once W (L @ L') (table_seen W (rv_streams (store_rx s d x)) (L @ L'))"
    using L'(1,4) inv st table_seen_put [of W "rv_streams s" L] by (auto simp: once_def rv_inv_def store_rx_def)
  then have "rv_inv contents W (store_rx s d x) (L @ L')"
    using inv L' unfolding rv_inv_def by (auto simp: store_rx_def)
  then show ?thesis ..
qed

lemma rx_inv_of:
  assumes "rv_inv contents W s L" and "find_stream (rv_streams s) k = Some st"
  shows "rx_inv contents W k L (rx_of s st)"
  unfolding rx_inv_def
proof (intro exI [of _ "[]"] conjI)
  have "(\<exists>f\<in>set L. wraps W f) \<or> seen W (st_dedupe st) k L \<and> distinct (map frame_tag L)"
    using assms table_seenD(2) by (auto simp: rv_inv_def once_def)
  then show "once W (L @ []) (seen W (rx_dedupe (rx_of s st)) k (L @ []))" by (auto simp: once_def rx_of_def)
qed (use assms(1) in \<open>auto simp: rv_inv_def rx_of_def\<close>)

lemma rv_inv_counters:
  "rv_inv contents W (s\<lparr>rv_received := a\<rparr>) L = rv_inv contents W s L"
  "rv_inv contents W (s\<lparr>rv_current_key := k\<rparr>) L = rv_inv contents W s L"
  "rv_inv contents W (s\<lparr>rv_echoed := a\<rparr>) L = rv_inv contents W s L"
  "rv_inv contents W (s\<lparr>rv_last_progress := a\<rparr>) L = rv_inv contents W s L"
  "rv_inv contents W (reject s) L = rv_inv contents W s L"
  by (simp_all add: rv_inv_def reject_def)

lemma datagram_inv:
  assumes de: "rc_dedupe_enabled cfg" and inv: "rv_inv contents W s L"
    and dg: "receiver_datagram pub cfg truncated data now s = Some (Inr (ack, s'))"
  shows "\<exists>L'. rv_inv contents W s' (L @ L')"
proof -
  define s0 where "s0 = s\<lparr>rv_received := rv_received s + 1\<rparr>"
  have s0: "rv_inv contents W s0 L" "rv_streams s0 = rv_streams s" "rv_current_key s0 = rv_current_key s"
    using inv by (simp_all add: s0_def rv_inv_counters)
  note dg = dg [unfolded receiver_datagram_def Let_def, folded s0_def]
  consider "s' = reject s0" | k where "s' = reject (s0\<lparr>rv_current_key := k\<rparr>)"
    | k ss found where "streams_get (rv_streams s) k = Some (found, ss)" "s' = reject (s0\<lparr>rv_current_key := k, rv_streams := ss\<rparr>)"
    | k payload ss st b d x where "streams_get (rv_streams s) k = Some (True, ss)" "find_stream ss k = Some st"
      "receive (publish_frame pub cfg k) (st_decoder st) payload now (rx_of (s0\<lparr>rv_current_key := k, rv_streams := ss\<rparr>) st) =
        Inr (b, d, x)"
      "s' = (if b then store_rx (s0\<lparr>rv_current_key := k, rv_streams := ss\<rparr>) d x
             else reject (store_rx (s0\<lparr>rv_current_key := k, rv_streams := ss\<rparr>) d x))"
    using dg s0(2,3)
    by (auto simp: bind_exn_def split: if_split_asm sum.split_asm option.split_asm prod.split_asm)
  then show ?thesis
  proof cases
    case 1
    then show ?thesis using s0 by (intro exI [of _ "[]"]) (simp add: rv_inv_counters)
  next
    case (2 k)
    then show ?thesis using s0 by (intro exI [of _ "[]"]) (simp add: rv_inv_counters)
  next
    case (3 k ss found)
    have "rv_inv contents W (s0\<lparr>rv_current_key := k, rv_streams := ss\<rparr>) L"
      using rv_inv_get [of W "s0\<lparr>rv_current_key := k\<rparr>" L k found ss] s0 3(1) by (simp add: rv_inv_counters)
    then show ?thesis using 3(2) by (intro exI [of _ "[]"]) (simp add: rv_inv_counters)
  next
    case (4 k payload ss st b d x)
    define s1 where "s1 = s0\<lparr>rv_current_key := k, rv_streams := ss\<rparr>"
    have s1: "rv_inv contents W s1 L"
      using rv_inv_get [of W "s0\<lparr>rv_current_key := k\<rparr>" L k True ss] s0 4(1) by (simp add: rv_inv_counters s1_def)
    have k: "find_stream (rv_streams s1) (rv_current_key s1) = Some st" "rv_current_key s1 = k" using 4(2) by (simp_all add: s1_def)
    have "rx_inv contents W (rv_current_key s1) L x"
      using receive_inv [OF publish_frame_keeps [OF de] rx_inv_of [OF s1 k(1)]] 4(3) k(2) by (simp add: s1_def)
    from rv_inv_store [OF s1 k(1) this, of d] show ?thesis
      using 4(4) by (cases b) (auto simp: rv_inv_counters s1_def)
  qed
qed

lemma batch_inv:
  "rc_dedupe_enabled cfg \<Longrightarrow> rv_inv contents W s L \<Longrightarrow> receiver_batch pub cfg s msgs = Go s' \<Longrightarrow>
   \<exists>L'. rv_inv contents W s' (L @ L')"
proof (induction msgs arbitrary: s L)
  case Nil
  then show ?case by (intro exI [of _ "[]"]) simp
next
  case (Cons m msgs)
  obtain truncated data now ack_ok where m: "m = (truncated, data, now, ack_ok)" by (cases m)
  obtain ack s1 where s1: "receiver_datagram pub cfg truncated data now s = Some (Inr (ack, s1))"
    and rest: "receiver_batch pub cfg s1 msgs = Go s'"
    using Cons.prems(3) m by (auto split: option.split_asm sum.split_asm prod.split_asm if_split_asm)
  from datagram_inv [OF Cons.prems(1,2) s1] obtain L1 where "rv_inv contents W s1 (L @ L1)" ..
  from Cons.IH [OF Cons.prems(1) this rest] show ?case by auto
qed

lemma rv_inv_expire: "rv_inv contents W (s\<lparr>rv_streams := expire_streams now (rv_streams s)\<rparr>) L = rv_inv contents W s L"
proof -
  have "table_seen W (expire_streams now ss) L = table_seen W ss L" for ss
    unfolding table_seen_def expire_streams_find by (intro all_cong1) (auto split: option.splits)
  then show ?thesis by (simp add: rv_inv_def expire_streams_simps)
qed

lemma pass_inv:
  assumes "rc_dedupe_enabled cfg" and "rv_inv contents W s L" and "receiver_pass pub cfg env s \<in> {Go s', Leave s'}"
  shows "\<exists>L'. rv_inv contents W s' (L @ L')"
proof -
  define s0 where "s0 = s\<lparr>rv_streams := expire_streams (re_expire env) (rv_streams s)\<rparr>"
  have s0: "rv_inv contents W s0 L" using assms(2) by (simp add: s0_def rv_inv_expire)
  note pass = assms(3) [unfolded receiver_pass_def Let_def, folded s0_def]
  consider "s' = s0" | a b t where "s' = s0\<lparr>rv_received := a, rv_echoed := b, rv_last_progress := t\<rparr>"
    | msgs s1 t where "receiver_batch pub cfg s0 msgs = Go s1" "s' = s1\<lparr>rv_last_progress := t\<rparr>"
    using pass batch_step by (auto split: rx_input.split_asm if_split_asm option.split_asm bool.split_asm step.split_asm)
  then show ?thesis
  proof cases
    case (3 msgs s1 t)
    then show ?thesis using batch_inv [OF assms(1) s0 3(1)] by (auto simp: rv_inv_counters)
  qed (use s0 in \<open>auto simp: rv_inv_counters intro!: exI [of _ "[]"]\<close>)
qed

lemma loop_inv:
  "rc_dedupe_enabled cfg \<Longrightarrow> rv_inv contents W s L \<Longrightarrow> receiver_loop pub cfg s es = Some (Leave s') \<Longrightarrow>
   \<exists>L'. rv_inv contents W s' (L @ L')"
proof (induction es arbitrary: s L)
  case (Cons e es)
  obtain stop env where e: "e = (stop, env)" by fastforce
  consider "s' = s" | "receiver_pass pub cfg env s = Leave s'"
    | s1 where "receiver_pass pub cfg env s = Go s1" "receiver_loop pub cfg s1 es = Some (Leave s')"
    using Cons.prems(3) e by (auto split: if_split_asm step.split_asm)
  then show ?case
  proof cases
    case 1
    then show ?thesis using Cons.prems(2) by (intro exI [of _ "[]"]) simp
  next
    case 2
    then show ?thesis using pass_inv [OF Cons.prems(1,2)] by blast
  next
    case (3 s1)
    from pass_inv [OF Cons.prems(1,2)] 3(1) obtain L1 where "rv_inv contents W s1 (L @ L1)" by blast
    from Cons.IH [OF Cons.prems(1) this 3(2)] show ?thesis by auto
  qed
qed simp

lemma new_inv:
  "contents g [] \<Longrightarrow> rv_inv contents (rc_dedupe_window cfg) (receiver_new cfg g now) []"
  by (auto simp: rv_inv_def receiver_new_def streams_wf_new once_def table_seen_def split: option.splits)
    (simp_all add: streams_new_def)

end

text \<open>
  C2. With duplicate removal enabled the receiver publishes every frame at most once: whatever
  datagrams arrive on whatever streams, in whatever order and however often, directly or through
  recovery, when the main loop is left the output ring holds exactly the frames that were counted
  as published, and each of them is a valid frame. If moreover every published sequence number is
  at least a window size below \<open>2 ^ 64\<close>, no two of them have the same identity and sequence
  number.
\<close>

theorem receiver_publishes_each_once:
  assumes "rc_dedupe_enabled cfg" and "ring_log g w n []"
    and "receiver_loop (ring_pub w env) cfg (receiver_new cfg g now) es = Some (Leave s)"
  shows "\<exists>L. rv_published s = of_nat (length L) \<and> (length L + n < 2 ^ 64 \<longrightarrow> ring_log (rv_ring s) w n L) \<and>
    (\<forall>f\<in>set L. validate_frame (Some f)) \<and>
    ((\<forall>f\<in>set L. unat (frame_seq f) + unat (rc_dedupe_window cfg) < 2 ^ 64) \<longrightarrow> distinct (map frame_tag L))"
proof -
  have "ring_contents w n g []" using assms(2) by (simp add: ring_contents_def)
  from ring_sink.loop_inv [OF assms(1) ring_sink.new_inv [OF this] assms(3)]
  obtain L where "rv_inv (ring_contents w n) (rc_dedupe_window cfg) s L" by auto
  then show ?thesis by (intro exI [of _ L]) (auto simp: rv_inv_def ring_contents_def once_def wraps_def not_le)
qed

section \<open>The receiver does not throw\<close>

definition rv_ok :: "receiver \<Rightarrow> bool" where
  "rv_ok s \<longleftrightarrow> streams_wf (rv_streams s) \<and> window_new (ss_window (rv_streams s)) \<noteq> None \<and>
     (\<forall>k st. find_stream (rv_streams s) k = Some st \<longrightarrow> decoder_ok (st_decoder st))"

definition publishes_valid :: "(region \<Rightarrow> bytes \<Rightarrow> exn + region) \<Rightarrow> bool" where
  "publishes_valid pub \<longleftrightarrow> (\<forall>g f. validate_frame (Some f) \<longrightarrow> (\<exists>g'. pub g f = Inr g'))"

lemma publish_frame_never_throws:
  assumes "publishes_valid pub"
  shows "never_throws (publish_frame pub cfg k)"
  unfolding never_throws_def
proof (intro allI)
  fix x f rc reason
  show "\<exists>ok x'. publish_frame pub cfg k x f rc reason = Inr (ok, x')"
  proof (cases "decode (Some f) True")
    case (Some n)
    then have v: "validate_frame (Some n)" using decode_canonical by blast
    have "\<forall>g. \<exists>g'. pub g n = Inr g'" using assms v by (auto simp: publishes_valid_def)
    then show ?thesis using Some validate_header [OF v]
      by (auto simp: publish_frame_def Let_def bind_exn_def split: sum.splits prod.splits) (metis sum.distinct(1))+
  qed (auto simp: publish_frame_def)
qed

lemma unwrap_total: "\<exists>r. unwrap d k0 = Inr r"
proof (cases "20 \<le> length d")
  case True
  then show ?thesis by (rule get_mux_total) (auto simp: unwrap_def split: prod.splits)
qed (auto simp: unwrap_def mux_header_size_def)

lemma streams_get_total: "window_new (ss_window ss) \<noteq> None \<Longrightarrow> \<exists>r. streams_get ss k = Some r"
  by (auto simp: streams_get_def stream_new_def split: option.splits)

lemma rv_ok_get:
  assumes "rv_ok s" and "streams_get (rv_streams s) k = Some (ok, ss)"
  shows "rv_ok (s\<lparr>rv_streams := ss\<rparr>)"
  using assms(2)
proof (cases rule: streams_get_cases)
  case (2 st)
  have "decoder_ok (st_decoder st)" using 2(4) by (auto simp: stream_new_def decoder_ok_new)
  then show ?thesis using assms(1) 2(5) streams_emplace [OF _ 2(2,3)] by (auto simp: rv_ok_def)
qed (use assms(1) in simp)

lemma rv_ok_counters:
  "rv_ok (s\<lparr>rv_received := a\<rparr>) = rv_ok s" "rv_ok (s\<lparr>rv_current_key := k\<rparr>) = rv_ok s"
  "rv_ok (s\<lparr>rv_echoed := a\<rparr>) = rv_ok s" "rv_ok (s\<lparr>rv_last_progress := a\<rparr>) = rv_ok s" "rv_ok (reject s) = rv_ok s"
  by (simp_all add: rv_ok_def reject_def)

lemma rv_ok_store: "rv_ok s \<Longrightarrow> decoder_ok d \<Longrightarrow> rv_ok (store_rx s d x)"
  by (auto simp: rv_ok_def store_rx_def split: if_splits)

lemma datagram_total:
  assumes pub: "publishes_valid pub" and ok: "rv_ok s"
  shows "\<exists>ack s'. receiver_datagram pub cfg truncated data now s = Some (Inr (ack, s')) \<and> rv_ok s'"
proof -
  define s0 where "s0 = s\<lparr>rv_received := rv_received s + 1\<rparr>"
  have s0: "rv_ok s0" using ok by (simp add: s0_def rv_ok_counters)
  obtain b payload k where u: "unwrap data (rv_current_key s) = Inr (b, payload, k)"
    using unwrap_total [of data "rv_current_key s"] by (metis prod.exhaust)
  have "window_new (ss_window (rv_streams s)) \<noteq> None" using ok by (simp add: rv_ok_def)
  from streams_get_total [OF this] obtain found ss where g: "streams_get (rv_streams s) k = Some (found, ss)" by fastforce
  define s1 where "s1 = s0\<lparr>rv_current_key := k, rv_streams := ss\<rparr>"
  have s1: "rv_ok s1" using rv_ok_get [of "s0\<lparr>rv_current_key := k\<rparr>" k found ss] s0 g
    by (simp add: s1_def s0_def rv_ok_counters)
  note unf = receiver_datagram_def Let_def s0_def [symmetric]
  show ?thesis
  proof (cases "truncated \<or> \<not> b \<or> find_stream ss k = None \<or> \<not> found")
    case True
    then show ?thesis using s0 s1 u g by (auto simp: receiver_datagram_def Let_def rv_ok_counters s0_def s1_def split: option.splits)
  next
    case False
    then obtain st where st: "find_stream ss k = Some st" by auto
    then have "decoder_ok (st_decoder st)" using s1 by (auto simp: rv_ok_def s1_def)
    from receive_ok [OF publish_frame_never_throws [OF pub] this]
    obtain c d x where r: "receive (publish_frame pub cfg k) (st_decoder st) payload now (rx_of s1 st) = Inr (c, d, x)"
      "decoder_ok d" by blast
    have "receiver_datagram pub cfg truncated data now s =
        Some (Inr (Some c, if c then store_rx s1 d x else reject (store_rx s1 d x)))"
      using False u g st r(1) by (simp add: receiver_datagram_def Let_def s0_def s1_def)
    then show ?thesis using rv_ok_store [OF s1 r(2)] by (auto simp: rv_ok_counters)
  qed
qed

lemma batch_total:
  "publishes_valid pub \<Longrightarrow> rv_ok s \<Longrightarrow>
   (\<exists>s'. receiver_batch pub cfg s msgs = Go s' \<and> rv_ok s') \<or> receiver_batch pub cfg s msgs = Exit 1"
proof (induction msgs arbitrary: s)
  case (Cons m msgs)
  obtain truncated data now ack_ok where m: "m = (truncated, data, now, ack_ok)" by (cases m)
  from datagram_total [OF Cons.prems] obtain ack s1 where
    s1: "receiver_datagram pub cfg truncated data now s = Some (Inr (ack, s1))" "rv_ok s1" by blast
  show ?case using Cons.IH [OF Cons.prems(1) s1(2)] s1(1) m by simp
qed simp

lemma pass_total:
  assumes "publishes_valid pub" and "rv_ok s"
  shows "(\<exists>s'. receiver_pass pub cfg env s \<in> {Go s', Leave s'} \<and> rv_ok s') \<or> receiver_pass pub cfg env s = Exit 1"
proof -
  define s0 where "s0 = s\<lparr>rv_streams := expire_streams (re_expire env) (rv_streams s)\<rparr>"
  have s0: "rv_ok s0" using assms(2)
    by (auto simp: rv_ok_def s0_def expire_streams_simps expire_streams_find decoder_ok_expire)
  note unf = receiver_pass_def Let_def s0_def [symmetric]
  show ?thesis
  proof (cases "re_input env")
    case (Messages msgs sends)
    consider "msgs = []" | "msgs \<noteq> []" "rc_echo cfg" | "msgs \<noteq> []" "\<not> rc_echo cfg" by blast
    then show ?thesis
    proof cases
      case 3
      then show ?thesis using batch_total [OF assms(1) s0, of cfg msgs] Messages unfolding unf by (auto simp: rv_ok_counters)
    qed (use s0 Messages in \<open>auto simp: unf rv_ok_counters split: option.splits bool.splits\<close>)
  qed (use s0 in \<open>auto simp: unf\<close>)
qed

lemma loop_total:
  "publishes_valid pub \<Longrightarrow> rv_ok s \<Longrightarrow>
   receiver_loop pub cfg s es \<noteq> Some Abort \<and> receiver_loop pub cfg s es \<noteq> Some (Throw e)"
proof (induction es arbitrary: s)
  case (Cons x es)
  obtain stop env where x: "x = (stop, env)" by fastforce
  from pass_total [OF Cons.prems, of cfg env]
  show ?case using Cons.IH [OF Cons.prems(1)] x by auto
qed simp

lemma parsed_window:
  assumes "receiver_parse_args argv = Inr cfg"
  shows "window_new (rc_dedupe_window cfg) \<noteq> None"
proof -
  obtain c where "receiver_check c = Inr cfg"
    using assms by (auto simp: receiver_parse_args_def split: sum.splits)
  then have "is_power_of_two (rc_dedupe_window cfg)" "\<not> rc_dedupe_window cfg < 64"
    by (auto simp: receiver_check_def Let_def split: if_splits)
  then show ?thesis by (auto simp: window_new_def is_power_of_two_def)
qed

lemma parsed_streams:
  assumes "receiver_parse_args argv = Inr cfg"
  shows "rc_max_streams cfg \<noteq> 0"
proof -
  obtain c where c: "arg_loop receiver_option receiver_defaults argv = Inr c" "receiver_check c = Inr cfg"
    using assms by (auto simp: receiver_parse_args_def split: sum.splits)
  have "streams_bound receiver_defaults" by (simp add: streams_bound_def receiver_defaults_def)
  from arg_loop_inv [where P = streams_bound, OF streams_bound_option this c(1)] have "streams_bound c" .
  moreover have "rc_max_streams cfg = rc_max_streams c"
    using c(2) by (auto simp: receiver_check_def Let_def split: if_splits)
  ultimately show ?thesis by (auto simp: streams_bound_def)
qed

text \<open>
  C6. The receiver survives hostile traffic: with a configuration that its command line accepts
  and an output ring that takes every valid frame, no sequence of datagrams, truncations, socket
  errors, clock readings and stop requests makes the main loop abort or throw. The window's
  constructor never sees a size it aborts on, the parsers never read past a datagram, and the
  FEC decoders of all streams stay within their invariant.
\<close>

theorem receiver_never_throws:
  assumes "receiver_parse_args argv = Inr cfg" and "\<forall>g f. validate_frame (Some f) \<longrightarrow> (\<exists>g'. pub g f = Inr g')"
  shows "receiver_loop pub cfg (receiver_new cfg g now) es \<noteq> Some Abort \<and>
    receiver_loop pub cfg (receiver_new cfg g now) es \<noteq> Some (Throw e)"
proof (rule loop_total)
  show "publishes_valid pub" using assms(2) by (simp add: publishes_valid_def)
  show "rv_ok (receiver_new cfg g now)"
    using parsed_window [OF assms(1)] streams_wf_new by (simp add: rv_ok_def receiver_new_def) (simp add: streams_new_def)
qed

section \<open>A run\<close>

text \<open>A datagram that starts with the magic of the wire format is not taken for an FEC packet.\<close>

lemma receive_wire:
  assumes "data = put_u32 BE wire_magic @ rest" and "17 \<le> length data"
  shows "receive cb d data now s = pass_through cb d data s"
proof -
  obtain h where h: "read_envelope data = Inr h" "write_envelope h = take 17 data"
    using assms(2) by (rule read_envelope_total)
  have "take 4 (write_envelope h) = take 4 data" using h(2) by simp
  then have "put_u32 BE (e_magic h) = put_u32 BE wire_magic" by (simp add: write_envelope_def assms(1))
  then have "e_magic h \<noteq> fec_magic" by (auto simp: field_eq wire_magic_def fec_magic_def)
  then show ?thesis using h(1) assms(2) by (simp add: receive_def kEnvelopeSize_def)
qed

definition run_cfg :: receiver_config where
  "run_cfg = receiver_defaults\<lparr>rc_allow_insecure_udp := True\<rparr>"

definition run_env :: receiver_env where
  "run_env = \<lparr>re_expire = \<lambda>_. 5, re_input = Messages [(False, wrap (Key 42 9) example_wire, 6, True)] [], re_now = 7\<rparr>"

definition run_ring :: "region \<Rightarrow> bytes \<Rightarrow> exn + region" where
  "run_ring = ring_pub (snd ring_1) (\<lambda>g f. (0, [], Inr ()))"

lemma valid_length: "validate_frame (Some f) \<Longrightarrow> f \<noteq> [] \<and> length f \<le> kFrameCap"
  by (auto simp: validate_frame_def kFrameCap_def size_consts split: if_splits)

text \<open>In overwrite mode the ring takes every valid frame.\<close>

definition run_overwrite :: "region \<Rightarrow> bytes \<Rightarrow> exn + region" where
  "run_overwrite g f = bind_exn (set_backpressure g (snd ring_1) False) (\<lambda>g. run_ring g f)"

lemma overwrite_valid: "validate_frame (Some f) \<Longrightarrow> \<exists>g'. run_overwrite g f = Inr g'"
  using ring_1_facts(2) valid_length [of f]
  by (auto simp: run_overwrite_def run_ring_def ring_pub_def publish_def set_backpressure_def Let_def not_less)

lemma run_ring_first: "\<exists>g'. run_ring (fst ring_1) example_native = Inr g'"
proof -
  have "\<not> slot_count (fst ring_1) \<le> live_edge (fst ring_1)"
    using ring_log_simps(3,5) [OF ring_1_log] by (simp add: word_le_nat_alt)
  then show ?thesis using ring_1_facts(2) valid_length [OF example_frame(3)]
    by (simp add: run_ring_def ring_pub_def publish_def Let_def not_less)
qed

lemma run_cfg: "receiver_parse_args [''--allow-insecure-udp''] = Inr run_cfg"
proof -
  have "memory_budget run_cfg \<le> 512 * 1024 * 1024"
    by (simp add: memory_budget_def run_cfg_def receiver_defaults_def kMaxGeneration_def max_frame_def kSampleLimit_def)
  then show ?thesis
    by (simp add: receiver_parse_args_def receiver_option_def flag_def receiver_check_def run_cfg_def
        receiver_defaults_def is_power_of_two_def Let_def not_less)
qed

lemma example_key: "frame_key example_native = Key 42 9" "frame_seq example_native = 7"
  by (simp_all add: frame_key_def frame_seq_def frame_header_def example_frame(1) example_bbo_def)

lemma run_publish_frame:
  assumes "window_new 65536 = Some (rx_dedupe x)" and "rx_ring x = fst ring_1"
  shows "\<exists>x'. publish_frame run_ring run_cfg (Key 42 9) x example_wire rc reason = Inr (True, x') \<and>
    rx_published x' = rx_published x + 1"
proof -
  obtain g' where g': "run_ring (fst ring_1) example_native = Inr g'" using run_ring_first by blast
  note new = window_new_refines [OF assms(1)]
  have "accepted (fst (observe (rx_dedupe x) 7))"
    using observe_step [OF new(1), of 7] abs_observe_covered(1) [OF refines_ok [OF new(1)], of 7] new(2)
    by (simp add: covered_def)
  then show ?thesis
    using example_decode(2) example_frame(1) g' assms(2)
    by (auto simp: publish_frame_def run_cfg_def receiver_defaults_def example_bbo_def accepted_def Let_def split: prod.splits)
qed

lemma run_loop:
  "\<exists>s. receiver_loop run_ring run_cfg (receiver_new run_cfg (fst ring_1) 0) [(False, run_env), (True, run_env)] =
     Some (Leave s) \<and> rv_published s = 1"
proof -
  obtain w where w: "window_new 65536 = Some w" by (simp add: window_new_def)
  define st where "st = \<lparr>st_decoder = decoder_new 64, st_dedupe = w, st_last_seq = 0\<rparr>"
  have st: "stream_new 64 65536 = Some st" using w by (simp add: stream_new_def st_def)
  let ?s0 = "(receiver_new run_cfg (fst ring_1) 0)\<lparr>rv_received := 1, rv_current_key := Key 42 9,
    rv_streams := (streams_new 16 64 65536)\<lparr>ss_values := [(Key 42 9, st)]\<rparr>\<rparr>"
  obtain x where x: "publish_frame run_ring run_cfg (Key 42 9) (rx_of ?s0 st) example_wire False 0 = Inr (True, x)"
    "rx_published x = 1"
    using run_publish_frame [of "rx_of ?s0 st" False 0] w by (auto simp: rx_of_def st_def receiver_new_def)
  have "receive cb (st_decoder st) example_wire 6 y = pass_through cb (st_decoder st) example_wire y" for cb and y :: rx
    by (rule receive_wire [OF example_wire_def]) (simp add: example_decode(1))
  then have r: "receive (publish_frame run_ring run_cfg (Key 42 9)) (st_decoder st) example_wire 6 (rx_of ?s0 st) =
      Inr (True, st_decoder st, x)"
    using x(1) by (simp add: pass_through_def)
  have u: "unwrap (wrap (Key 42 9) example_wire) k = Inr (True, example_wire, Key 42 9)" for k
    unfolding wrap_eq unwrap_put by simp
  have "receiver_datagram run_ring run_cfg False (wrap (Key 42 9) example_wire) 6 (receiver_new run_cfg (fst ring_1) 0) =
      Some (Inr (Some True, store_rx ?s0 (st_decoder st) x))"
    using u st r by (simp add: receiver_datagram_def Let_def receiver_new_def streams_new_def streams_get_def
        run_cfg_def receiver_defaults_def)
  then show ?thesis using x(2)
    by (auto simp: receiver_pass_def receiver_guard_def run_env_def run_cfg_def receiver_defaults_def store_rx_def
        expire_streams_def receiver_new_def streams_new_def)
qed

lemma receiver_publishes_each_once_witness:
  "\<exists>s L. receiver_loop run_ring run_cfg (receiver_new run_cfg (fst ring_1) 0) [(False, run_env), (True, run_env)] =
     Some (Leave s) \<and> rv_published s = 1 \<and> rv_published s = of_nat (length L) \<and> (\<forall>f\<in>set L. validate_frame (Some f))"
proof -
  obtain s where s: "receiver_loop run_ring run_cfg (receiver_new run_cfg (fst ring_1) 0) [(False, run_env), (True, run_env)] =
     Some (Leave s)" "rv_published s = 1" using run_loop by blast
  have "rc_dedupe_enabled run_cfg" by (simp add: run_cfg_def receiver_defaults_def)
  from receiver_publishes_each_once [OF this ring_1_log s(1) [unfolded run_ring_def]] s show ?thesis by blast
qed

lemma receiver_never_throws_witness:
  "receiver_loop run_overwrite run_cfg (receiver_new run_cfg (fst ring_1) 0)
     [(False, run_env), (True, run_env)] \<noteq> Some Abort"
  using receiver_never_throws [OF run_cfg, of run_overwrite] overwrite_valid by blast

end
