(* ===== verification/Transport.thy ===== *)
theory Transport
  imports Prelude
begin

text \<open>
  Frames on a stream socket, \<open>stream_transport.h\<close>: a two-byte length and the frame, moved by a
  loop of \<open>poll\<close> and non-blocking \<open>send\<close> or \<open>recv\<close> under one deadline. What the kernel, the clock
  and the signal handler answer is a trace, one entry per turn of the loop; \<open>None\<close> is a loop that
  has not ended when the trace does.
\<close>

section \<open>The transfer loop\<close>

datatype poll_result = PollInterrupted | PollError | PollTimeout | PollReady

text \<open>The answer of \<open>send\<close> or \<open>recv\<close>: try again, an error, or how many bytes the kernel moves.\<close>

datatype io_result = IoRetry | IoError | IoMoved nat

record turn =
  tu_stop :: bool
  tu_now :: u64
  tu_poll :: poll_result
  tu_io :: io_result

text \<open>
  \<open>transfer\<close> when sending: success, the bytes that went out and the rest of the trace. The kernel
  takes at most what it is given; moving no byte at all ends the loop.
\<close>

fun transfer_send :: "u64 \<Rightarrow> bytes \<Rightarrow> turn list \<Rightarrow> (bool \<times> bytes \<times> turn list) option" where
  "transfer_send deadline data [] = (if data = [] then Some (True, [], []) else None)"
| "transfer_send deadline data (t # ts) =
     (if data = [] then Some (True, [], t # ts)
      else if tu_stop t then Some (False, [], ts)
      else if tu_now t \<ge> deadline then Some (False, [], ts)
      else case tu_poll t of
        PollInterrupted \<Rightarrow> transfer_send deadline data ts
      | PollError \<Rightarrow> Some (False, [], ts)
      | PollTimeout \<Rightarrow> transfer_send deadline data ts
      | PollReady \<Rightarrow>
          (case tu_io t of
             IoRetry \<Rightarrow> transfer_send deadline data ts
           | IoError \<Rightarrow> Some (False, [], ts)
           | IoMoved n \<Rightarrow>
               if n = 0 then Some (False, [], ts)
               else map_option (\<lambda>(ok, out, rest). (ok, take n data @ out, rest))
                      (transfer_send deadline (drop n data) ts)))"

text \<open>
  \<open>transfer\<close> when receiving \<open>size\<close> bytes from a stream: success, the bytes that came in, the stream
  and the trace left. A stream without bytes gives the end of file, zero bytes.
\<close>

fun transfer_recv :: "u64 \<Rightarrow> nat \<Rightarrow> bytes \<Rightarrow> turn list \<Rightarrow> (bool \<times> bytes \<times> bytes \<times> turn list) option" where
  "transfer_recv deadline sz stream [] = (if sz = 0 then Some (True, [], stream, []) else None)"
| "transfer_recv deadline sz stream (t # ts) =
     (if sz = 0 then Some (True, [], stream, t # ts)
      else if tu_stop t then Some (False, [], stream, ts)
      else if tu_now t \<ge> deadline then Some (False, [], stream, ts)
      else case tu_poll t of
        PollInterrupted \<Rightarrow> transfer_recv deadline sz stream ts
      | PollError \<Rightarrow> Some (False, [], stream, ts)
      | PollTimeout \<Rightarrow> transfer_recv deadline sz stream ts
      | PollReady \<Rightarrow>
          (case tu_io t of
             IoRetry \<Rightarrow> transfer_recv deadline sz stream ts
           | IoError \<Rightarrow> Some (False, [], stream, ts)
           | IoMoved n \<Rightarrow>
               let chunk = take (min n sz) stream
               in if chunk = [] then Some (False, [], stream, ts)
                  else map_option (\<lambda>(ok, got, rest). (ok, chunk @ got, rest))
                         (transfer_recv deadline (sz - length chunk) (drop (length chunk) stream) ts)))"

section \<open>Frames\<close>

definition length_prefix :: "u32 \<Rightarrow> bytes" where
  "length_prefix len = [ucast (drop_bit 8 len), ucast len]"

text \<open>\<open>send_frame\<close>, on the clock reading for its deadline: success and the bytes that went out.\<close>

definition send_frame :: "bytes \<Rightarrow> u64 \<Rightarrow> turn list \<Rightarrow> (bool \<times> bytes \<times> turn list) option" where
  "send_frame data now ts =
     (let deadline = now + 2000000000
      in case transfer_send deadline (length_prefix (of_nat (length data))) ts of
           None \<Rightarrow> None
         | Some (False, out, ts) \<Rightarrow> Some (False, out, ts)
         | Some (True, out, ts) \<Rightarrow>
             map_option (\<lambda>(ok, out', ts). (ok, out @ out', ts)) (transfer_send deadline data ts))"

text \<open>\<open>receive_frame\<close>: the frame (\<open>None\<close> is the result \<open>-1\<close>) and the stream and trace left.\<close>

definition receive_frame :: "u32 \<Rightarrow> u64 \<Rightarrow> u64 \<Rightarrow> bytes \<Rightarrow> turn list \<Rightarrow> (bytes option \<times> bytes \<times> turn list) option" where
  "receive_frame cap timeout_ns now stream ts =
     (let deadline = now + timeout_ns
      in case transfer_recv deadline 2 stream ts of
           None \<Rightarrow> None
         | Some (False, _, stream, ts) \<Rightarrow> Some (None, stream, ts)
         | Some (True, prefix, stream, ts) \<Rightarrow>
             let len = (push_bit 8 (ucast (prefix ! 0)) OR ucast (prefix ! 1) :: u32)
             in if len = 0 \<or> len > cap then Some (None, stream, ts)
                else map_option (\<lambda>(ok, got, stream, ts). (if ok then Some got else None, stream, ts))
                       (transfer_recv deadline (unat len) stream ts))"

section \<open>The loop returns what it moved\<close>

lemma transfer_send_prefix:
  "transfer_send deadline data ts = Some (ok, out, ts') \<Longrightarrow> (\<exists>rest. data = out @ rest) \<and> (ok \<longleftrightarrow> out = data)"
proof (induction deadline data ts arbitrary: ok out rule: transfer_send.induct)
  case (2 deadline data t ts)
  consider "data = []" | "data \<noteq> []" "out = []" "\<not> ok" | "data \<noteq> []" "transfer_send deadline data ts = Some (ok, out, ts')"
    "\<not> tu_stop t" "\<not> deadline \<le> tu_now t" "tu_poll t \<in> {PollInterrupted, PollTimeout} \<or> tu_poll t = PollReady \<and> tu_io t = IoRetry"
    | n out' where "data \<noteq> []" "0 < n" "out = take n data @ out'" "transfer_send deadline (drop n data) ts = Some (ok, out', ts')"
    "\<not> tu_stop t" "\<not> deadline \<le> tu_now t" "tu_poll t = PollReady" "tu_io t = IoMoved n"
    using 2(5) by (auto split: if_split_asm poll_result.split_asm io_result.split_asm)
  then show ?case
  proof cases
    case 3
    then show ?thesis using 2(1,2,3) by auto
  next
    case (4 n out')
    have "(\<exists>rest. drop n data = out' @ rest) \<and> (ok \<longleftrightarrow> out' = drop n data)" using 2(4) 4 by auto
    then show ?thesis using 4(3) append_take_drop_id [of n data] by (metis append.assoc same_append_eq)
  qed (use 2(5) in auto)
qed (auto split: if_splits)

lemma transfer_recv_prefix:
  "transfer_recv deadline sz stream ts = Some (ok, got, stream', ts') \<Longrightarrow>
   stream = got @ stream' \<and> length got \<le> sz \<and> (ok \<longleftrightarrow> length got = sz)"
proof (induction deadline sz stream ts arbitrary: ok got rule: transfer_recv.induct)
  case (2 deadline sz stream t ts)
  consider "sz = 0" | "0 < sz" "got = []" "\<not> ok" "stream' = stream"
    | "0 < sz" "transfer_recv deadline sz stream ts = Some (ok, got, stream', ts')"
    "\<not> tu_stop t" "\<not> deadline \<le> tu_now t" "tu_poll t \<in> {PollInterrupted, PollTimeout} \<or> tu_poll t = PollReady \<and> tu_io t = IoRetry"
    | n chunk got' where "0 < sz" "chunk = take (min n sz) stream" "chunk \<noteq> []" "got = chunk @ got'"
      "transfer_recv deadline (sz - length chunk) (drop (length chunk) stream) ts = Some (ok, got', stream', ts')"
    "\<not> tu_stop t" "\<not> deadline \<le> tu_now t" "tu_poll t = PollReady" "tu_io t = IoMoved n"
    using 2(5) unfolding transfer_recv.simps Let_def
    by (auto split: if_split_asm poll_result.split_asm io_result.split_asm)
  then show ?case
  proof cases
    case 3
    then show ?thesis using 2(1,2,3) by auto
  next
    case (4 n chunk got')
    have "drop (length chunk) stream = got' @ stream' \<and> length got' \<le> sz - length chunk \<and> (ok \<longleftrightarrow> length got' = sz - length chunk)"
      using 2(4) 4 by auto
    moreover have "stream = chunk @ drop (length chunk) stream" "length chunk \<le> sz" using 4(2) by (auto simp: min_def)
    ultimately show ?thesis using 4(4) by (auto simp: le_diff_conv2)
  qed (use 2(5) in auto)
qed (auto split: if_splits)

text \<open>A turn that ends the loop by the deadline or the stop flag.\<close>

definition ends_by :: "u64 \<Rightarrow> turn \<Rightarrow> bool" where
  "ends_by deadline t \<longleftrightarrow> tu_stop t \<or> deadline \<le> tu_now t"

lemma transfer_send_ends: "\<exists>t\<in>set ts. ends_by deadline t \<Longrightarrow>
   \<exists>ok out ts'. transfer_send deadline data ts = Some (ok, out, ts') \<and> (ok \<longrightarrow> (\<exists>t\<in>set ts'. ends_by deadline t))"
proof (induction ts arbitrary: data)
  case (Cons t ts)
  show ?case
  proof (cases "data = [] \<or> ends_by deadline t")
    case True
    then show ?thesis using Cons.prems by (auto simp: ends_by_def)
  next
    case False
    then have "\<exists>t\<in>set ts. ends_by deadline t" "\<not> tu_stop t" "\<not> deadline \<le> tu_now t"
      using Cons.prems by (auto simp: ends_by_def)
    note IH = Cons.IH [OF this(1)]
    consider "transfer_send deadline data (t # ts) = transfer_send deadline data ts"
      | "transfer_send deadline data (t # ts) = Some (False, [], ts)"
      | n where "transfer_send deadline data (t # ts) =
          map_option (\<lambda>(ok, out, rest). (ok, take n data @ out, rest)) (transfer_send deadline (drop n data) ts)"
    proof (cases "tu_poll t = PollReady \<and> (\<exists>n. tu_io t = IoMoved n \<and> 0 < n)")
      case True
      then obtain n where n: "tu_poll t = PollReady" "tu_io t = IoMoved n" "0 < n" by blast
      show thesis by (rule that(3) [of n]) (use False n in \<open>simp add: ends_by_def\<close>)
    next
      case no: False
      show thesis by (cases "tu_poll t"; cases "tu_io t") (use False no that(1,2) in \<open>auto simp: ends_by_def\<close>)
    qed
    then show ?thesis
    proof cases
      case 1
      then show ?thesis using IH [of data] by (simp only:)
    next
      case (3 n)
      obtain ok out ts' where "transfer_send deadline (drop n data) ts = Some (ok, out, ts')"
        "ok \<longrightarrow> (\<exists>t\<in>set ts'. ends_by deadline t)" using IH by blast
      with 3 show ?thesis by simp
    qed (simp only:, blast)
  qed
qed simp

lemma transfer_recv_ends: "\<exists>t\<in>set ts. ends_by deadline t \<Longrightarrow>
   \<exists>ok got stream' ts'. transfer_recv deadline sz stream ts = Some (ok, got, stream', ts') \<and>
     (ok \<longrightarrow> (\<exists>t\<in>set ts'. ends_by deadline t))"
proof (induction ts arbitrary: sz stream)
  case (Cons t ts)
  show ?case
  proof (cases "sz = 0 \<or> ends_by deadline t")
    case True
    then show ?thesis using Cons.prems by (auto simp: ends_by_def)
  next
    case False
    then have "\<exists>t\<in>set ts. ends_by deadline t" "\<not> tu_stop t" "\<not> deadline \<le> tu_now t"
      using Cons.prems by (auto simp: ends_by_def)
    note IH = Cons.IH [OF this(1)]
    consider "transfer_recv deadline sz stream (t # ts) = transfer_recv deadline sz stream ts"
      | "transfer_recv deadline sz stream (t # ts) = Some (False, [], stream, ts)"
      | chunk where "transfer_recv deadline sz stream (t # ts) =
          map_option (\<lambda>(ok, got, rest). (ok, chunk @ got, rest))
            (transfer_recv deadline (sz - length chunk) (drop (length chunk) stream) ts)"
    proof (cases "tu_poll t = PollReady \<and> (\<exists>n. tu_io t = IoMoved n \<and> take (min n sz) stream \<noteq> [])")
      case True
      then obtain n where n: "tu_poll t = PollReady" "tu_io t = IoMoved n" "take (min n sz) stream \<noteq> []" by blast
      show thesis
        by (rule that(3) [of "take (min n sz) stream"]) (use False n in \<open>auto simp: ends_by_def Let_def\<close>)
    next
      case no: False
      show thesis by (cases "tu_poll t"; cases "tu_io t") (use False no that(1,2) in \<open>auto simp: ends_by_def Let_def\<close>)
    qed
    then show ?thesis
    proof cases
      case 1
      then show ?thesis using IH [of sz stream] by (simp only:)
    next
      case (3 chunk)
      obtain ok got s' ts' where
        "transfer_recv deadline (sz - length chunk) (drop (length chunk) stream) ts = Some (ok, got, s', ts')"
        "ok \<longrightarrow> (\<exists>t\<in>set ts'. ends_by deadline t)" using IH by blast
      with 3 show ?thesis by simp
    qed (simp only:, blast)
  qed
qed simp

section \<open>Framing\<close>

lemma length_prefix_value:
  assumes "n < 65536"
  shows "(push_bit 8 (ucast (length_prefix (of_nat n) ! 0)) OR ucast (length_prefix (of_nat n) ! 1) :: u32) = of_nat n"
proof (rule bit_word_eqI)
  fix i assume i: "i < LENGTH(32)"
  have hi: "\<not> bit (of_nat n :: u32) i" if "16 \<le> i"
  proof -
    have "n < 2 ^ i" using that assms power_increasing [of 16 i "2 :: nat"] by simp
    then have "\<not> bit n i" by (simp add: bit_iff_odd)
    then show ?thesis by (simp add: bit_of_nat_iff)
  qed
  consider "i < 8" | "8 \<le> i" "i < 16" | "16 \<le> i" by linarith
  then show "bit (push_bit 8 (ucast (length_prefix (of_nat n) ! 0)) OR ucast (length_prefix (of_nat n) ! 1) :: u32) i =
      bit (of_nat n :: u32) i"
  proof cases
    case 1
    then show ?thesis using i by (simp add: length_prefix_def bit_or_iff bit_push_bit_iff bit_ucast_iff)
  next
    case 2
    then have "i - 8 < 8" by linarith
    then show ?thesis using i 2
      by (simp add: length_prefix_def bit_or_iff bit_push_bit_iff bit_ucast_iff bit_drop_bit_eq)
  next
    case 3
    then show ?thesis using i hi
      by (simp add: length_prefix_def bit_or_iff bit_push_bit_iff bit_ucast_iff)
  qed
qed

lemma send_frame_out:
  assumes "send_frame f now ts = Some (ok, out, ts')"
  shows "\<exists>rest. length_prefix (of_nat (length f)) @ f = out @ rest \<and> (ok \<longleftrightarrow> rest = [])"
proof -
  let ?p = "length_prefix (of_nat (length f))"
  have p: "?p \<noteq> []" by (simp add: length_prefix_def)
  consider "transfer_send (now + 2000000000) ?p ts = Some (False, out, ts')" "\<not> ok"
    | o1 ts1 o2 where "transfer_send (now + 2000000000) ?p ts = Some (True, o1, ts1)"
      "transfer_send (now + 2000000000) f ts1 = Some (ok, o2, ts')" "out = o1 @ o2"
    using assms by (auto simp: send_frame_def Let_def split: option.split_asm prod.split_asm bool.split_asm)
  then show ?thesis
  proof cases
    case 1
    then show ?thesis using transfer_send_prefix [OF 1(1)] by auto
  next
    case (2 o1 ts1 o2)
    then show ?thesis using transfer_send_prefix [OF 2(1)] transfer_send_prefix [OF 2(2)] by auto
  qed
qed

lemma receive_frame_in:
  assumes "receive_frame cap timeout now stream ts = Some (Some g, stream', ts')"
  shows "\<exists>p. stream = p @ g @ stream' \<and> length p = 2 \<and>
    of_nat (length g) = (push_bit 8 (ucast (p ! 0)) OR ucast (p ! 1) :: u32) \<and> 0 < length g \<and> length g \<le> unat cap"
proof -
  obtain p s1 ts1 len where p: "transfer_recv (now + timeout) 2 stream ts = Some (True, p, s1, ts1)"
    and len: "len = (push_bit 8 (ucast (p ! 0)) OR ucast (p ! 1) :: u32)" "len \<noteq> 0" "\<not> cap < len"
    and g: "transfer_recv (now + timeout) (unat len) s1 ts1 = Some (True, g, stream', ts')"
    using assms unfolding receive_frame_def Let_def
    by (auto split: option.split_asm prod.split_asm bool.split_asm if_split_asm)
  note a = transfer_recv_prefix [OF p] and b = transfer_recv_prefix [OF g]
  have "length g = unat len" using b by simp
  then show ?thesis using a b len by (intro exI [of _ p]) (auto simp: unat_gt_0 word_le_nat_alt not_less)
qed

text \<open>
  C35. Frames shorter than 65536 bytes, the range of the length prefix, survive the stream
  transport: whatever pieces the kernel moves on either side, if a frame is sent and the peer reads a frame from what went out (followed, after a successful
  send only, by further bytes), the peer gets exactly that frame and the stream stands at the
  following bytes. A send that failed never lets the peer read a frame.
\<close>

theorem frame_roundtrip:
  assumes "length f < 65536" and "send_frame f now ts = Some (ok, out, ts')" and "ok \<or> rest = []"
    and "receive_frame cap timeout now' (out @ rest) us = Some (Some g, stream, us')"
  shows "ok \<and> g = f \<and> stream = rest"
proof -
  let ?p = "length_prefix (of_nat (length f))"
  obtain r where r: "?p @ f = out @ r" "ok \<longleftrightarrow> r = []" using send_frame_out [OF assms(2)] by blast
  obtain p where p: "out @ rest = p @ g @ stream" "length p = 2"
    "of_nat (length g) = (push_bit 8 (ucast (p ! 0)) OR ucast (p ! 1) :: u32)" "length g \<le> unat cap"
    using receive_frame_in [OF assms(4)] by blast
  have lp: "length ?p = 2" by (simp add: length_prefix_def)
  have eq: "p @ g @ stream @ r = ?p @ f @ rest"
  proof (cases ok)
    case True
    then have "out = ?p @ f" using r by simp
    then show ?thesis using p(1) r(2) True by (simp add: append_assoc [symmetric] del: append_assoc)
  next
    case False
    then have "rest = []" using assms(3) by simp
    then show ?thesis using r(1) p(1) by simp
  qed
  have p': "p = ?p" and rest: "g @ stream @ r = f @ rest" using eq p(2) lp by (simp_all add: append_eq_append_conv)
  have gl: "length g < 2 ^ 32" using p(4) u32_less [of cap] by linarith
  have "unat (of_nat (length g) :: u32) = unat (of_nat (length f) :: u32)"
    using p(3) p' length_prefix_value [OF assms(1)] by simp
  then have "length g = length f" using gl assms(1) by (simp add: unat_of_nat_small)
  with rest have g: "g = f" "stream @ r = rest" by simp_all
  show ?thesis
  proof (cases ok)
    case True
    then show ?thesis using g r(2) by simp
  next
    case False
    then show ?thesis using g(2) r(2) assms(3) by simp
  qed
qed

text \<open>
  C36. No transfer outlives its deadline: as soon as the trace has a turn at or past the
  deadline, or with the stop flag set, both directions return.
\<close>

theorem transfer_deadline:
  assumes "\<exists>t\<in>set ts. tu_stop t \<or> now + timeout \<le> tu_now t"
  shows "receive_frame cap timeout now stream ts \<noteq> None \<and>
    (timeout = 2000000000 \<longrightarrow> send_frame f now ts \<noteq> None)"
proof
  have e: "\<exists>t\<in>set ts. ends_by (now + timeout) t" using assms by (simp add: ends_by_def)
  obtain ok got s1 ts1 where r: "transfer_recv (now + timeout) 2 stream ts = Some (ok, got, s1, ts1)"
    "ok \<longrightarrow> (\<exists>t\<in>set ts1. ends_by (now + timeout) t)" using transfer_recv_ends [OF e] by blast
  show "receive_frame cap timeout now stream ts \<noteq> None"
  proof (cases ok)
    case True
    then have e1: "\<exists>t\<in>set ts1. ends_by (now + timeout) t" using r(2) by blast
    show ?thesis using r(1) True transfer_recv_ends [OF e1] unfolding receive_frame_def Let_def by fastforce
  next
    case False
    then show ?thesis using r(1) by (simp add: receive_frame_def)
  qed
  show "timeout = 2000000000 \<longrightarrow> send_frame f now ts \<noteq> None"
  proof
    assume t: "timeout = 2000000000"
    obtain ok out ts1 where r: "transfer_send (now + 2000000000) (length_prefix (of_nat (length f))) ts = Some (ok, out, ts1)"
      "ok \<longrightarrow> (\<exists>t\<in>set ts1. ends_by (now + 2000000000) t)" using transfer_send_ends [OF e [unfolded t]] by blast
    show "send_frame f now ts \<noteq> None"
    proof (cases ok)
      case True
      then have e1: "\<exists>t\<in>set ts1. ends_by (now + 2000000000) t" using r(2) by blast
      show ?thesis using r(1) True transfer_send_ends [OF e1] unfolding send_frame_def Let_def by fastforce
    next
      case False
      then show ?thesis using r(1) by (simp add: send_frame_def)
    qed
  qed
qed

text \<open>Instances: a frame of three bytes in several pieces, and a clock past the deadline.\<close>

definition moved :: "nat \<Rightarrow> turn" where
  "moved n = \<lparr>tu_stop = False, tu_now = 0, tu_poll = PollReady, tu_io = IoMoved n\<rparr>"

lemma frame_roundtrip_witness:
  "\<exists>out g. send_frame [1, 2, 3] 0 [moved 1, moved 1, moved 3] = Some (True, out, []) \<and>
     receive_frame 1500 5 0 (out @ [9]) [moved 2, moved 2, moved 4] = Some (Some g, [9], []) \<and> g = [1, 2, 3]"
proof -
  obtain out where s: "send_frame [1, 2, 3] 0 [moved 1, moved 1, moved 3] = Some (True, out, [])"
    and out: "out = [0, 3, 1, 2, 3]"
    by (simp add: send_frame_def moved_def length_prefix_def)
  obtain g st where r: "receive_frame 1500 5 0 (out @ [9]) [moved 2, moved 2, moved 4] = Some (Some g, st, [])"
    by (simp add: receive_frame_def moved_def out Let_def)
  from frame_roundtrip [OF _ s _ r] s r show ?thesis by simp
qed

lemma transfer_deadline_witness:
  "send_frame [1, 2] 5 [\<lparr>tu_stop = False, tu_now = 2000000005, tu_poll = PollTimeout, tu_io = IoRetry\<rparr>] \<noteq> None"
  using transfer_deadline [of "[\<lparr>tu_stop = False, tu_now = 2000000005, tu_poll = PollTimeout, tu_io = IoRetry\<rparr>]" 5 2000000000]
  by simp

end
