(* ===== verification/Producer.thy ===== *)
theory Producer
  imports Args Metrics Sink Wire_Message
begin

text \<open>
  The producer program, \<open>producer.cpp\<close>: its options, the synthetic trades, quotes and books with
  their decimal arithmetic in doubles, and the paced loop that publishes them into the ring.
\<close>

section \<open>Doubles\<close>

text \<open>
  A non-negative double \<open>(m, e)\<close> is \<open>m / 2 ^ e\<close>. Every operation rounds its exact result to 53
  significant bits; the values of this program stay far inside the exponent range.
\<close>

type_synonym double = "nat \<times> nat"

definition d_nat :: "nat \<Rightarrow> double" where
  "d_nat n = (round53 n, 0)"

definition d_add :: "double \<Rightarrow> double \<Rightarrow> double" where
  "d_add x y = (round53 (fst x * 2 ^ snd y + fst y * 2 ^ snd x), snd x + snd y)"

definition d_sub :: "double \<Rightarrow> double \<Rightarrow> double" where
  "d_sub x y = (round53 (fst x * 2 ^ snd y - fst y * 2 ^ snd x), snd x + snd y)"

definition d_mul :: "double \<Rightarrow> double \<Rightarrow> double" where
  "d_mul x y = (round53 (fst x * fst y), snd x + snd y)"

text \<open>\<open>static_cast<int64_t>\<close>.\<close>

definition d_trunc :: "double \<Rightarrow> int" where
  "d_trunc x = int (fst x div 2 ^ snd x)"

text \<open>The object representation: biased exponent and fraction.\<close>

definition d_bits :: "double \<Rightarrow> u64" where
  "d_bits x =
     (if fst x = 0 then 0
      else let b = nbits (fst x);
               frac = (if b \<le> 53 then fst x * 2 ^ (53 - b) else fst x div 2 ^ (b - 53)) - 2 ^ 52
           in of_nat ((1022 + b - snd x) * 2 ^ 52 + frac))"

text \<open>The constants \<open>0.5\<close>, \<open>0.001\<close>, \<open>0.01\<close>, \<open>0.1\<close> and \<open>1.5\<close>.\<close>

definition c_half :: double where "c_half = (1, 1)"
definition c_0001 :: double where "c_0001 = (0x4189374bc6a7f, 60)"
definition c_001 :: double where "c_001 = (0x147ae147ae147b, 59)"
definition c_01 :: double where "c_01 = (0xccccccccccccd, 55)"
definition c_1_5 :: double where "c_1_5 = (3, 1)"

section \<open>Messages\<close>

datatype kind = Kind_Trade | Kind_Bbo | Kind_Book | Kind_Mixed

text \<open>
  What a frame takes from its surroundings: the process id, the start of the process, the clock
  readings for the body and for the header, and the bytes of the tail padding of the struct.
\<close>

record build_env =
  be_pid :: u64
  be_epoch :: u64
  be_body_ts :: u64
  be_header_ts :: u64
  be_pad :: "nat \<Rightarrow> u8"

definition set_str :: "nat \<Rightarrow> string \<Rightarrow> bytes" where
  "set_str cap src = (take cap (map of_char src @ replicate cap 0))[cap - 1 := 0]"

definition fill_header :: "build_env \<Rightarrow> u64 \<Rightarrow> u16 \<Rightarrow> u32 \<Rightarrow> header" where
  "fill_header env seq ty len =
     \<lparr>seq_id = seq, send_ts_ns = be_header_ts env, h_type = ty, version = kVersion, body_len = len,
      stream_id = be_pid env, stream_epoch = be_epoch env\<rparr>"

definition mid_price :: "u64 \<Rightarrow> double" where
  "mid_price seq = d_add (65000, 0) (d_mul (d_nat (unat (seq mod 500))) c_half)"

definition d_quantity :: "u64 \<Rightarrow> double" where
  "d_quantity seq = d_add c_0001 (d_mul (d_nat (unat (seq mod 100))) c_001)"

definition d_size :: "double \<Rightarrow> u64 \<Rightarrow> u64 \<Rightarrow> double" where
  "d_size base seq n = d_add base (d_mul (d_nat (unat (seq mod n))) c_01)"

definition build_trade :: "build_env \<Rightarrow> u64 \<Rightarrow> trade" where
  "build_trade env seq =
     \<lparr>t_header = fill_header env seq Type_Trade (of_nat sizeof_Trade),
      t_symbol = set_str kSymbolLen ''BTCUSDT'', t_venue = set_str kVenueLen ''BINANCE'',
      t_base_currency = set_str kCurrencyLen ''BTC'', t_quote_currency = set_str kCurrencyLen ''USDT'',
      t_trade_id = 100000 + seq, t_buyer_order_id = 500000 + seq * 2, t_seller_order_id = 500001 + seq * 2,
      t_exchange_ts_ns = be_body_ts env, t_match_engine_ts_ns = be_body_ts env,
      t_price = d_bits (mid_price seq), t_quantity = d_bits (d_quantity seq),
      t_notional = d_bits (d_mul (mid_price seq) (d_quantity seq)),
      t_price_ticks = d_trunc (d_mul (mid_price seq) (100, 0)),
      t_quantity_lots = d_trunc (d_mul (d_quantity seq) (1000, 0)),
      t_tick_direction = ucast (seq mod 4), t_aggressor_side = ucast (seq AND 1),
      t_is_block_trade = 0, t_is_rpi = 0, t_is_liquidation = 0, t_flags = 0, t_reserved = replicate 19 0\<rparr>"

definition build_bbo :: "build_env \<Rightarrow> u64 \<Rightarrow> bbo" where
  "build_bbo env seq =
     (let mid = mid_price seq;
          bid_price = d_sub mid c_half; ask_price = d_add mid c_half;
          bid_size = d_size c_1_5 seq 50; ask_size = d_size c_1_5 (seq + 7) 50
      in \<lparr>b_header = fill_header env seq Type_Bbo (of_nat sizeof_Bbo),
          b_symbol = set_str kSymbolLen ''BTCUSDT'', b_venue = set_str kVenueLen ''BINANCE'',
          b_update_id = 900000 + seq, b_exchange_ts_ns = be_body_ts env, b_match_engine_ts_ns = be_body_ts env,
          b_bid_price = d_bits bid_price, b_bid_size = d_bits bid_size,
          b_ask_price = d_bits ask_price, b_ask_size = d_bits ask_size,
          b_bid_price_ticks = d_trunc (d_mul bid_price (100, 0)), b_ask_price_ticks = d_trunc (d_mul ask_price (100, 0)),
          b_bid_size_lots = d_trunc (d_mul bid_size (1000, 0)), b_ask_size_lots = d_trunc (d_mul ask_size (1000, 0)),
          b_bid_order_count = 3 + ucast (seq mod 10), b_ask_order_count = 3 + ucast ((seq + 3) mod 10),
          b_flags = 0, b_reserved = replicate 23 0\<rparr>)"

definition build_level :: "double \<Rightarrow> double \<Rightarrow> u64 \<Rightarrow> level" where
  "build_level price sz n =
     \<lparr>l_price = d_bits price, l_size = d_bits sz, l_price_ticks = d_trunc (d_mul price (100, 0)),
      l_size_lots = d_trunc (d_mul sz (1000, 0)), l_order_count = 2 + ucast (n mod 8), l_reserved = 0\<rparr>"

definition build_bid :: "u64 \<Rightarrow> nat \<Rightarrow> level" where
  "build_bid seq i = build_level (d_sub (d_sub (mid_price seq) c_half) (d_nat i))
     (d_size (1, 0) (seq + of_nat i) 40) (seq + of_nat i)"

definition build_ask :: "u64 \<Rightarrow> nat \<Rightarrow> level" where
  "build_ask seq i = build_level (d_add (d_add (mid_price seq) c_half) (d_nat i))
     (d_size (1, 0) (seq + of_nat i + 5) 40) (seq + of_nat i + 5)"

definition build_book :: "build_env \<Rightarrow> u64 \<Rightarrow> order_book" where
  "build_book env seq =
     \<lparr>o_header = fill_header env seq Type_OrderBook (of_nat sizeof_OrderBook),
      o_symbol = set_str kSymbolLen ''BTCUSDT'', o_venue = set_str kVenueLen ''BINANCE'',
      o_update_id = 900000 + seq, o_prev_update_id = 900000 + seq - 1,
      o_exchange_ts_ns = be_body_ts env, o_match_engine_ts_ns = be_body_ts env,
      o_bids = map (build_bid seq) [0..<kBookDepth], o_asks = map (build_ask seq) [0..<kBookDepth],
      o_checksum = ucast (seq * 2654435761), o_is_snapshot = 1, o_flags = 0, o_reserved = replicate 26 0\<rparr>"

text \<open>The struct in memory, with arbitrary tail padding.\<close>

definition in_memory :: "build_env \<Rightarrow> (endian \<Rightarrow> 'm \<Rightarrow> bytes) \<Rightarrow> nat \<Rightarrow> 'm \<Rightarrow> bytes" where
  "in_memory env put sz m = put LE m @ map (be_pad env) [0..<sz - length (put LE m)]"

definition build :: "kind \<Rightarrow> u64 \<Rightarrow> build_env \<Rightarrow> bytes" where
  "build kind seq env =
     (let k = (if kind = Kind_Mixed
               then (if seq mod 3 = 0 then Kind_Trade else if seq mod 3 = 1 then Kind_Bbo else Kind_Book)
               else kind)
      in case k of
           Kind_Trade \<Rightarrow> in_memory env put_trade sizeof_Trade (build_trade env seq)
         | Kind_Bbo \<Rightarrow> in_memory env put_bbo sizeof_Bbo (build_bbo env seq)
         | _ \<Rightarrow> in_memory env put_book sizeof_OrderBook (build_book env seq))"

section \<open>Options\<close>

record producer_config =
  pc_shm_name :: string
  pc_slots :: u32
  pc_count :: u64
  pc_rate :: u64
  pc_start_delay_ms :: u64
  pc_wait_readers :: u32
  pc_kind :: kind

definition producer_defaults :: producer_config where
  "producer_defaults = \<lparr>pc_shm_name = ''/fanout_ring'', pc_slots = 1024, pc_count = 1000000, pc_rate = 0,
     pc_start_delay_ms = 0, pc_wait_readers = 0, pc_kind = Kind_Mixed\<rparr>"

definition parse_kind :: "string \<Rightarrow> arg_error + kind" where
  "parse_kind s =
     (if s = ''trade'' then Inr Kind_Trade
      else if s = ''bbo'' then Inr Kind_Bbo
      else if s = ''book'' then Inr Kind_Book
      else if s = ''mixed'' then Inr Kind_Mixed
      else Inl Exit2)"

text \<open>\<open>stod\<close> is the conversion of the C library, to the bit pattern of the double.\<close>

definition producer_option :: "(string \<Rightarrow> exn + u64) \<Rightarrow> producer_config \<Rightarrow> string \<Rightarrow> string option \<Rightarrow>
    arg_error + producer_config \<times> bool" where
  "producer_option stod c a nxt =
     (if a = ''--shm'' then with_value nxt (\<lambda>v. Inr (c\<lparr>pc_shm_name := v\<rparr>))
      else if a = ''--slots'' then with_value nxt (\<lambda>v. lift_exn (stoull v) (\<lambda>n. Inr (c\<lparr>pc_slots := ucast n\<rparr>)))
      else if a = ''--count'' then with_value nxt (\<lambda>v. lift_exn (stoull v) (\<lambda>n. Inr (c\<lparr>pc_count := n\<rparr>)))
      else if a = ''--rate'' then with_value nxt (\<lambda>v. lift_exn (stod v) (\<lambda>d. Inr (c\<lparr>pc_rate := d\<rparr>)))
      else if a = ''--wait-readers'' then with_value nxt (\<lambda>v. lift_exn (stoull v) (\<lambda>n. Inr (c\<lparr>pc_wait_readers := ucast n\<rparr>)))
      else if a = ''--start-delay-ms'' then with_value nxt (\<lambda>v. lift_exn (stoull v) (\<lambda>n. Inr (c\<lparr>pc_start_delay_ms := n\<rparr>)))
      else if a = ''--type'' then with_value nxt (\<lambda>v. case parse_kind v of Inl e \<Rightarrow> Inl e | Inr k \<Rightarrow> Inr (c\<lparr>pc_kind := k\<rparr>))
      else Inl Exit2)"

definition producer_parse_args :: "(string \<Rightarrow> exn + u64) \<Rightarrow> string list \<Rightarrow> arg_error + producer_config" where
  "producer_parse_args stod argv =
     (case arg_loop (producer_option stod) producer_defaults argv of Inl e \<Rightarrow> Inl e
      | Inr c \<Rightarrow>
          if \<not> is_power_of_two (ucast (pc_slots c)) then Inl Exit2
          else if d_less (pc_rate c) 0 then Inl Exit2
          else Inr c)"

section \<open>The main loop\<close>

text \<open>
  Waiting for the readers: per turn the stop flag, the number of readers and the clock. \<open>False\<close> is
  the timeout.
\<close>

fun wait_readers :: "u32 \<Rightarrow> u64 \<Rightarrow> (bool \<times> u32 \<times> u64) list \<Rightarrow> bool option" where
  "wait_readers wanted deadline [] = None"
| "wait_readers wanted deadline ((stop, readers, now) # ts) =
     (if stop \<or> \<not> readers < wanted then Some True
      else if now > deadline then Some False
      else wait_readers wanted deadline ts)"

text \<open>The pacing loop, on the stop flag and the clock of every turn: whether it ends.\<close>

fun pace :: "u64 \<Rightarrow> (bool \<times> u64) list \<Rightarrow> bool" where
  "pace next_send [] = False"
| "pace next_send ((stop, now) # ts) = (if stop \<or> \<not> now < next_send then True else pace next_send ts)"

record producer =
  pr_seq :: u64
  pr_next_send :: u64
  pr_ring :: region

record producer_env =
  pe_stop :: bool
  pe_turns :: "(bool \<times> u64) list"
  pe_build :: build_env

text \<open>\<open>pub\<close> is \<open>ring.publish\<close> with its waits resolved. \<open>None\<close>: still running when the trace ends.\<close>

fun producer_loop :: "(region \<Rightarrow> bytes \<Rightarrow> exn + region) \<Rightarrow> producer_config \<Rightarrow> u64 \<Rightarrow> producer \<Rightarrow> producer_env list \<Rightarrow>
    (exn + producer) option" where
  "producer_loop pub cfg interval_ns s [] = None"
| "producer_loop pub cfg interval_ns s (e # es) =
     (if pe_stop e \<or> \<not> (pc_count cfg = 0 \<or> pr_seq s < pc_count cfg) then Some (Inr s)
      else if interval_ns \<noteq> 0 \<and> \<not> pace (pr_next_send s) (pe_turns e) then None
      else let s = (if interval_ns \<noteq> 0 then s\<lparr>pr_next_send := pr_next_send s + interval_ns\<rparr> else s);
               s = s\<lparr>pr_seq := pr_seq s + 1\<rparr>
           in case pub (pr_ring s) (build (pc_kind cfg) (pr_seq s) (pe_build e)) of
                Inl x \<Rightarrow> Some (Inl x)
              | Inr g \<Rightarrow> producer_loop pub cfg interval_ns (s\<lparr>pr_ring := g\<rparr>) es)"

section \<open>Every frame is valid\<close>

text \<open>A coarse bound that survives the rounding.\<close>

definition d_le :: "double \<Rightarrow> nat \<Rightarrow> bool" where
  "d_le x b \<longleftrightarrow> fst x \<le> b * 2 ^ snd x"

lemma round53_le: "round53 m \<le> 2 * m"
proof (cases "m = 0")
  case False
  then have b: "round53 m \<le> 2 ^ nbits m" "2 ^ (nbits m - 1) \<le> m" "m < 2 ^ nbits m"
    using round53_bounds [of m] nbits_bounds [of m] by auto
  obtain j where j: "nbits m = Suc j" using b(3) False by (cases "nbits m") auto
  show ?thesis using b(1,2) unfolding j by simp
qed (simp add: round53_small)

lemma d_le_nat: "d_le (d_nat n) (2 * n)"
  using round53_le [of n] by (simp add: d_le_def d_nat_def)

lemma d_le_add:
  assumes "d_le x a" and "d_le y b"
  shows "d_le (d_add x y) (2 * (a + b))"
proof -
  have "fst x * 2 ^ snd y + fst y * 2 ^ snd x \<le> (a * 2 ^ snd x) * 2 ^ snd y + (b * 2 ^ snd y) * 2 ^ snd x"
    using assms by (intro add_mono mult_right_mono) (auto simp: d_le_def)
  also have "\<dots> = (a + b) * 2 ^ (snd x + snd y)" by (simp add: power_add algebra_simps)
  finally have "2 * (fst x * 2 ^ snd y + fst y * 2 ^ snd x) \<le> 2 * ((a + b) * 2 ^ (snd x + snd y))" by (rule mult_le_mono2)
  from le_trans [OF round53_le this] show ?thesis by (simp only: d_le_def d_add_def fst_conv snd_conv mult.assoc)
qed

lemma d_le_sub: "d_le x a \<Longrightarrow> d_le (d_sub x y) (2 * a)"
proof -
  assume x: "d_le x a"
  have "fst x * 2 ^ snd y - fst y * 2 ^ snd x \<le> fst x * 2 ^ snd y" by simp
  also have "\<dots> \<le> (a * 2 ^ snd x) * 2 ^ snd y" using x by (intro mult_right_mono) (auto simp: d_le_def)
  also have "\<dots> = a * 2 ^ (snd x + snd y)" by (simp add: power_add)
  finally show ?thesis using round53_le [of "fst x * 2 ^ snd y - fst y * 2 ^ snd x"]
    by (simp add: d_le_def d_sub_def)
qed

lemma d_le_mul:
  assumes "d_le x a" and "d_le y b"
  shows "d_le (d_mul x y) (2 * (a * b))"
proof -
  have "fst x * fst y \<le> (a * 2 ^ snd x) * (b * 2 ^ snd y)"
    using assms by (intro mult_mono) (auto simp: d_le_def)
  also have "\<dots> = a * b * 2 ^ (snd x + snd y)" by (simp add: power_add)
  finally show ?thesis using round53_le [of "fst x * fst y"] by (simp add: d_le_def d_mul_def)
qed

lemma d_le_mono: "d_le x a \<Longrightarrow> a \<le> b \<Longrightarrow> d_le x b"
  unfolding d_le_def by (meson le_trans mult_le_mono1)

lemma d_le_trunc: "d_le x a \<Longrightarrow> 0 \<le> d_trunc x \<and> d_trunc x \<le> int a"
proof -
  assume "d_le x a"
  then have "fst x div 2 ^ snd x \<le> a * 2 ^ snd x div 2 ^ snd x" unfolding d_le_def by (rule div_le_mono)
  then show ?thesis by (simp add: d_trunc_def)
qed

lemma unat_mod_le: "n \<noteq> 0 \<Longrightarrow> unat (x mod n) \<le> unat (n :: u64)"
  by (simp add: unat_mod_distrib unat_gt_0 less_imp_le)

lemma mid_price_le: "d_le (mid_price seq) 134000"
proof -
  have "d_le (d_nat (unat (seq mod 500))) 1000"
    by (rule d_le_mono [OF d_le_nat]) (use unat_mod_le [of 500 seq] in simp)
  from d_le_mul [OF this, of c_half 1] have "d_le (d_mul (d_nat (unat (seq mod 500))) c_half) 2000"
    by (simp add: d_le_def c_half_def)
  from d_le_add [OF _ this, of "(65000, 0)" 65000] show ?thesis
    unfolding mid_price_def by (simp add: d_le_def)
qed

lemma quantity_le: "d_le (d_quantity seq) 1000"
proof -
  have "d_le (d_nat (unat (seq mod 100))) 200"
    by (rule d_le_mono [OF d_le_nat]) (use unat_mod_le [of 100 seq] in simp)
  from d_le_mul [OF this, of c_001 1] have "d_le (d_mul (d_nat (unat (seq mod 100))) c_001) 400"
    by (simp add: d_le_def c_001_def)
  from d_le_add [OF _ this, of c_0001 1] have "d_le (d_quantity seq) (2 * (1 + 400))"
    unfolding d_quantity_def by (simp add: d_le_def c_0001_def)
  then show ?thesis by (rule d_le_mono) simp
qed

lemma size_le: "d_le base 2 \<Longrightarrow> n \<noteq> 0 \<Longrightarrow> n \<le> 50 \<Longrightarrow> d_le (d_size base seq n) 1000"
proof -
  assume base: "d_le base 2" and n: "n \<noteq> 0" "n \<le> 50"
  have "unat (seq mod n) \<le> 50" using unat_mod_le [OF n(1), of seq] n(2) by (simp add: word_le_nat_alt)
  then have "d_le (d_nat (unat (seq mod n))) 100" by (intro d_le_mono [OF d_le_nat]) simp
  from d_le_mul [OF this, of c_01 1] have "d_le (d_mul (d_nat (unat (seq mod n))) c_01) 200"
    by (simp add: d_le_def c_01_def)
  from d_le_add [OF base this] have "d_le (d_size base seq n) (2 * (2 + 200))" by (simp add: d_size_def)
  then show ?thesis by (rule d_le_mono) simp
qed

lemma trunc_i64:
  assumes "d_le x a" and "a * k < 2 ^ 50"
  shows "i64_ok (d_trunc (d_mul x (k, 0)))"
proof -
  have "d_le (d_mul x (k, 0)) (2 * (a * k))" by (rule d_le_mul [OF assms(1)]) (simp add: d_le_def)
  note b = d_le_trunc [OF this]
  have "int (a * k) < 2 ^ 50" using assms(2) by (metis of_nat_less_iff of_nat_numeral of_nat_power)
  with b show ?thesis by (auto simp: i64_ok_def)
qed

lemma length_set_str: "length (set_str cap s) = cap"
  by (simp add: set_str_def)

lemma trade_ok_build: "trade_ok (build_trade env seq)"
  using trunc_i64 [OF mid_price_le, of 100] trunc_i64 [OF quantity_le, of 1000]
  by (simp add: trade_ok_def build_trade_def length_set_str msg_consts)

lemma bbo_ok_build: "bbo_ok (build_bbo env seq)"
proof -
  have base: "d_le c_1_5 2" by (simp add: d_le_def c_1_5_def)
  have ask: "d_le (d_add (mid_price seq) c_half) (2 * (134000 + 1))"
    by (rule d_le_add [OF mid_price_le]) (simp add: d_le_def c_half_def)
  note p = trunc_i64 [OF d_le_sub [OF mid_price_le], of 100] trunc_i64 [OF ask, of 100]
    trunc_i64 [OF size_le [OF base], of 50 1000]
  show ?thesis using p by (simp add: bbo_ok_def build_bbo_def Let_def length_set_str msg_consts)
qed

lemma level_ok_build: "d_le p 1000000 \<Longrightarrow> d_le z 1000 \<Longrightarrow> level_ok (build_level p z n)"
  using trunc_i64 [of p 1000000 100] trunc_i64 [of z 1000 1000] by (simp add: level_ok_def build_level_def)

lemma book_ok_build: "book_ok (build_book env seq)"
proof -
  have base: "d_le (1, 0) 2" by (simp add: d_le_def)
  have half: "d_le c_half 1" by (simp add: d_le_def c_half_def)
  have bid: "level_ok (build_bid seq i)" for i
    unfolding build_bid_def
    by (rule level_ok_build [OF d_le_mono [OF d_le_sub [OF d_le_sub [OF mid_price_le]]] size_le [OF base]]) simp_all
  have ask: "level_ok (build_ask seq i)" if "i < 5" for i
  proof -
    have "d_le (d_nat i) 10" by (rule d_le_mono [OF d_le_nat]) (use that in simp)
    from d_le_add [OF d_le_add [OF mid_price_le half] this]
    have "d_le (d_add (d_add (mid_price seq) c_half) (d_nat i)) 1000000" by (rule d_le_mono) simp
    then show ?thesis unfolding build_ask_def by (rule level_ok_build [OF _ size_le [OF base]]) simp_all
  qed
  show ?thesis using bid ask
    by (auto simp: book_ok_def build_book_def length_set_str msg_consts list_all_iff)
qed

lemma in_memory_header:
  assumes "load (get_header LE) (put LE m @ map (be_pad env) [0..<sz - length (put LE m)]) = Inr h"
    and "length (put LE m) \<le> sz" and "h = fill_header env seq ty (of_nat sz)"
    and "ty \<in> {Type_Trade, Type_Bbo, Type_OrderBook}" and "expected_size ty = sz"
  shows "validate_frame (Some (in_memory env put sz m)) \<and> frame_header (in_memory env put sz m) = h"
proof -
  have l: "load (get_header LE) (in_memory env put sz m) = Inr h" using assms(1) by (simp add: in_memory_def)
  have sz: "length (in_memory env put sz m) = sz" using assms(2) by (simp add: in_memory_def)
  have "sz < 2 ^ 32" using assms(4,5) by (auto simp: expected_size_def size_consts type_consts)
  then have "unat (body_len h) = sz" by (simp add: assms(3) fill_header_def unat_of_nat_small)
  then have "validate_frame (Some (in_memory env put sz m))"
    unfolding validate_frame_iff using l sz assms(3,4,5) by (auto simp: fill_header_def)
  then show ?thesis using l by (simp add: frame_header_def)
qed

lemma frame_trade:
  "validate_frame (Some (in_memory env put_trade sizeof_Trade (build_trade env seq))) \<and>
   frame_header (in_memory env put_trade sizeof_Trade (build_trade env seq)) = fill_header env seq Type_Trade (of_nat sizeof_Trade)"
proof (rule in_memory_header [where ty = Type_Trade and seq = seq])
  show "load (get_header LE) (put_trade LE (build_trade env seq) @
      map (be_pad env) [0..<sizeof_Trade - length (put_trade LE (build_trade env seq))]) =
      Inr (fill_header env seq Type_Trade (of_nat sizeof_Trade))"
    using mtrade.load_header_put by (simp add: build_trade_def)
qed (simp_all add: mtrade.length_put [OF trade_ok_build] expected_size_def size_consts type_consts)

lemma frame_bbo:
  "validate_frame (Some (in_memory env put_bbo sizeof_Bbo (build_bbo env seq))) \<and>
   frame_header (in_memory env put_bbo sizeof_Bbo (build_bbo env seq)) = fill_header env seq Type_Bbo (of_nat sizeof_Bbo)"
proof (rule in_memory_header [where ty = Type_Bbo and seq = seq])
  show "load (get_header LE) (put_bbo LE (build_bbo env seq) @
      map (be_pad env) [0..<sizeof_Bbo - length (put_bbo LE (build_bbo env seq))]) =
      Inr (fill_header env seq Type_Bbo (of_nat sizeof_Bbo))"
    using mbbo.load_header_put by (simp add: build_bbo_def Let_def)
qed (simp_all add: mbbo.length_put [OF bbo_ok_build] expected_size_def size_consts type_consts)

lemma frame_book:
  "validate_frame (Some (in_memory env put_book sizeof_OrderBook (build_book env seq))) \<and>
   frame_header (in_memory env put_book sizeof_OrderBook (build_book env seq)) =
     fill_header env seq Type_OrderBook (of_nat sizeof_OrderBook)"
proof (rule in_memory_header [where ty = Type_OrderBook and seq = seq])
  show "load (get_header LE) (put_book LE (build_book env seq) @
      map (be_pad env) [0..<sizeof_OrderBook - length (put_book LE (build_book env seq))]) =
      Inr (fill_header env seq Type_OrderBook (of_nat sizeof_OrderBook))"
    using mbook.load_header_put by (simp add: build_book_def)
qed (simp_all add: mbook.length_put [OF book_ok_build] expected_size_def size_consts type_consts)

definition kind_type :: "kind \<Rightarrow> u64 \<Rightarrow> u16" where
  "kind_type kind seq = (case kind of Kind_Trade \<Rightarrow> Type_Trade | Kind_Bbo \<Rightarrow> Type_Bbo | Kind_Book \<Rightarrow> Type_OrderBook
     | Kind_Mixed \<Rightarrow> if seq mod 3 = 0 then Type_Trade else if seq mod 3 = 1 then Type_Bbo else Type_OrderBook)"

lemma build_frame:
  "validate_frame (Some (build kind seq env)) \<and>
   (\<exists>len. frame_header (build kind seq env) = fill_header env seq (kind_type kind seq) len)"
  using frame_trade [of env seq] frame_bbo [of env seq] frame_book [of env seq]
  by (cases kind) (auto simp: build_def kind_type_def)

text \<open>
  C38. Whatever the kind, the sequence number, the clocks and the padding, the producer builds a
  frame that \<open>validate_frame\<close> accepts, of the type the kind stands for (in a mixed run trades,
  quotes and books take turns), with the number, the process id and the epoch in its header.
\<close>

theorem producer_builds_valid:
  "validate_frame (Some (build kind seq env)) \<and>
   (\<exists>len. frame_header (build kind seq env) = fill_header env seq (kind_type kind seq) len)"
  by (rule build_frame)

section \<open>What the loop publishes\<close>

context frame_sink
begin

lemma producer_inv:
  assumes "producer_loop pub cfg interval s es = Some (Inr s')" and "contents (pr_ring s) L"
    and "pr_seq s = of_nat (length L)" and "map frame_seq L = map of_nat [1..<Suc (length L)]"
    and "\<forall>f\<in>set L. validate_frame (Some f)"
  shows "\<exists>L'. contents (pr_ring s') L' \<and> pr_seq s' = of_nat (length L') \<and>
    map frame_seq L' = map of_nat [1..<Suc (length L')] \<and> (\<forall>f\<in>set L'. validate_frame (Some f)) \<and>
    ((\<exists>e\<in>set es. pe_stop e) \<or> pc_count cfg \<noteq> 0 \<and> pc_count cfg \<le> pr_seq s')"
  using assms
proof (induction es arbitrary: s L)
  case (Cons e es)
  let ?f = "build (pc_kind cfg) (pr_seq s + 1) (pe_build e)"
  consider "s' = s" "pe_stop e \<or> pc_count cfg \<noteq> 0 \<and> pc_count cfg \<le> pr_seq s"
    | g t where "pub (pr_ring s) ?f = Inr g"
      "producer_loop pub cfg interval (s\<lparr>pr_next_send := t, pr_seq := pr_seq s + 1, pr_ring := g\<rparr>) es = Some (Inr s')"
  proof (cases "pe_stop e \<or> \<not> (pc_count cfg = 0 \<or> pr_seq s < pc_count cfg)")
    case True
    then show thesis using that(1) Cons.prems(1) by (auto simp: not_less)
  next
    case False
    then obtain g where "pub (pr_ring s) ?f = Inr g"
      "producer_loop pub cfg interval
         (s\<lparr>pr_next_send := (if interval \<noteq> 0 then pr_next_send s + interval else pr_next_send s),
            pr_seq := pr_seq s + 1, pr_ring := g\<rparr>) es = Some (Inr s')"
      using Cons.prems(1) by (cases "interval = 0") (auto simp: Let_def split: if_split_asm sum.split_asm)
    then show thesis by (rule that(2))
  qed
  then show ?case
  proof cases
    case 1
    then show ?thesis using Cons.prems by (intro exI [of _ L]) auto
  next
    case (2 g t)
    have seq: "frame_seq ?f = of_nat (Suc (length L))"
      using build_frame [of "pc_kind cfg" "pr_seq s + 1" "pe_build e"] Cons.prems(3)
      by (auto simp: frame_seq_def fill_header_def)
    have L: "map frame_seq (L @ [?f]) = map of_nat [1..<Suc (length (L @ [?f]))]"
      using Cons.prems(4) seq by simp
    have "\<exists>L'. contents (pr_ring s') L' \<and> pr_seq s' = of_nat (length L') \<and>
      map frame_seq L' = map of_nat [1..<Suc (length L')] \<and> (\<forall>f\<in>set L'. validate_frame (Some f)) \<and>
      ((\<exists>e\<in>set es. pe_stop e) \<or> pc_count cfg \<noteq> 0 \<and> pc_count cfg \<le> pr_seq s')"
    proof (rule Cons.IH [OF 2(2)])
      show "contents (pr_ring (s\<lparr>pr_next_send := t, pr_seq := pr_seq s + 1, pr_ring := g\<rparr>)) (L @ [?f])"
        using append [OF Cons.prems(2) 2(1)] by simp
      show "pr_seq (s\<lparr>pr_next_send := t, pr_seq := pr_seq s + 1, pr_ring := g\<rparr>) = of_nat (length (L @ [?f]))"
        using Cons.prems(3) by simp
      show "\<forall>f\<in>set (L @ [?f]). validate_frame (Some f)" using Cons.prems(5) build_frame by auto
    qed (rule L)
    then show ?thesis by auto
  qed
qed simp

end

text \<open>
  C39. The producer numbers its frames without gaps: when its loop returns, the ring holds valid
  frames numbered 1, 2, 3 and so on up to its counter, in this order; and unless it was asked to
  stop it returns only for a non-zero count, with at least that many frames published.
\<close>

theorem producer_publishes_sequence:
  assumes "ring_log g w n []" and "producer_loop (ring_pub w env) cfg interval \<lparr>pr_seq = 0, pr_next_send = t, pr_ring = g\<rparr> es =
    Some (Inr s)"
  shows "\<exists>L. (length L + n < 2 ^ 64 \<longrightarrow> ring_log (pr_ring s) w n L) \<and> pr_seq s = of_nat (length L) \<and>
    map frame_seq L = map of_nat [1..<Suc (length L)] \<and> (\<forall>f\<in>set L. validate_frame (Some f)) \<and>
    ((\<exists>e\<in>set es. pe_stop e) \<or> pc_count cfg \<noteq> 0 \<and> pc_count cfg \<le> pr_seq s)"
proof -
  have "ring_contents w n g []" using assms(1) by (simp add: ring_contents_def)
  with ring_sink.producer_inv [OF assms(2), of n "[]"] show ?thesis
    by (simp add: ring_contents_def)
qed

text \<open>A run of one frame.\<close>

definition one_cfg :: producer_config where
  "one_cfg = producer_defaults\<lparr>pc_count := 1\<rparr>"

definition one_env :: producer_env where
  "one_env = \<lparr>pe_stop = False, pe_turns = [],
     pe_build = \<lparr>be_pid = 4, be_epoch = 5, be_body_ts = 6, be_header_ts = 7, be_pad = \<lambda>_. 0\<rparr>\<rparr>"

lemma producer_publishes_sequence_witness:
  "\<exists>s. producer_loop (ring_pub (snd ring_1) (\<lambda>g f. (0, [], Inr ()))) one_cfg 0
      \<lparr>pr_seq = 0, pr_next_send = 0, pr_ring = fst ring_1\<rparr> [one_env, one_env] = Some (Inr s) \<and>
    (\<exists>L. pr_seq s = of_nat (length L) \<and> map frame_seq L = map of_nat [1..<Suc (length L)] \<and> pc_count one_cfg \<le> pr_seq s)"
proof -
  let ?f = "build Kind_Mixed 1 (pe_build one_env)"
  have "\<not> slot_count (fst ring_1) \<le> live_edge (fst ring_1)"
    using ring_log_simps(3,5) [OF ring_1_log] by (simp add: word_le_nat_alt)
  moreover have "?f \<noteq> []" "length ?f \<le> kFrameCap"
    using build_frame [of Kind_Mixed 1 "pe_build one_env"]
    by (auto simp: validate_frame_def kFrameCap_def size_consts split: if_splits)
  ultimately obtain g where "ring_pub (snd ring_1) (\<lambda>g f. (0, [], Inr ())) (fst ring_1) ?f = Inr g"
    using ring_1_facts(2) by (simp add: ring_pub_def publish_def Let_def not_less)
  then obtain s where s: "producer_loop (ring_pub (snd ring_1) (\<lambda>g f. (0, [], Inr ()))) one_cfg 0
      \<lparr>pr_seq = 0, pr_next_send = 0, pr_ring = fst ring_1\<rparr> [one_env, one_env] = Some (Inr s)"
    by (simp add: one_cfg_def one_env_def producer_defaults_def)
  from producer_publishes_sequence [OF ring_1_log s] s show ?thesis by (auto simp: one_env_def)
qed

end
