(* ===== verification/Sender_Config.thy ===== *)
theory Sender_Config
  imports Args
begin

text \<open>
  The command line of the sender, \<open>parse_args\<close> of \<open>sender.cpp\<close>: its options, the checks across
  them, and the choice of a stream identity. A configuration that comes out of it is within the
  bounds the main loop and the fan-out queues rely on.
\<close>

record destination =
  dst_host :: string
  dst_port :: string

record sender_config =
  sc_stream_id :: u64
  sc_stream_epoch :: u64
  sc_allow_insecure_udp :: bool
  sc_durable_acks :: bool
  sc_in_shm :: string
  sc_slots :: u32
  sc_host :: string
  sc_port :: string
  sc_destinations :: "destination list"
  sc_count :: u64
  sc_from_edge :: bool
  sc_idle_ms :: u64
  sc_sndbuf :: int
  sc_repeat :: u32
  sc_send_workers :: u32
  sc_queue_bytes :: u64
  sc_batch_size :: u32
  sc_batch_timeout_us :: u64
  sc_fec_k :: u16
  sc_fec_parity :: u16
  sc_fec_timeout_us :: u64
  sc_test_drop_pct :: u64
  sc_test_reorder_pct :: u64
  sc_test_reorder_delay_us :: u64
  sc_test_seed :: u64
  sc_echo_out_shm :: string
  sc_rcvbuf :: int
  sc_echo_timeout_ms :: u64

definition sender_defaults :: sender_config where
  "sender_defaults = \<lparr>sc_stream_id = 0, sc_stream_epoch = 0, sc_allow_insecure_udp = False, sc_durable_acks = False,
     sc_in_shm = ''/fanout_ring'', sc_slots = 1024, sc_host = ''127.0.0.1'', sc_port = ''9000'', sc_destinations = [],
     sc_count = 0, sc_from_edge = False, sc_idle_ms = 2000, sc_sndbuf = 4 * 1024 * 1024, sc_repeat = 1,
     sc_send_workers = 256, sc_queue_bytes = 4 * 1024 * 1024, sc_batch_size = 32, sc_batch_timeout_us = 50,
     sc_fec_k = 0, sc_fec_parity = 1, sc_fec_timeout_us = 200, sc_test_drop_pct = 0, sc_test_reorder_pct = 0,
     sc_test_reorder_delay_us = 0, sc_test_seed = 1, sc_echo_out_shm = [], sc_rcvbuf = 4 * 1024 * 1024,
     sc_echo_timeout_ms = 2000\<rparr>"

text \<open>\<open>host:port\<close>, split at the last colon.\<close>

definition parse_destination :: "string \<Rightarrow> arg_error + destination" where
  "parse_destination v =
     (if CHR '':'' \<notin> set v then Inl Exit2
      else let port = rev (takeWhile (\<lambda>c. c \<noteq> CHR '':'') (rev v));
               pos = length v - length port - 1
           in if pos = 0 \<or> pos + 1 \<ge> length v then Inl Exit2
              else Inr \<lparr>dst_host = take pos v, dst_port = drop (pos + 1) v\<rparr>)"

definition num :: "string option \<Rightarrow> (u64 \<Rightarrow> arg_error + 'c) \<Rightarrow> arg_error + 'c \<times> bool" where
  "num nxt f = with_value nxt (\<lambda>v. lift_exn (stoull v) f)"

definition within :: "u64 \<Rightarrow> u64 \<Rightarrow> u64 \<Rightarrow> 'c \<Rightarrow> arg_error + 'c" where
  "within lo hi n c = (if n < lo \<or> n > hi then Inl (Throws InvalidArgument) else Inr c)"

definition sender_option :: "(string \<Rightarrow> exn + u64) \<Rightarrow> sender_config \<Rightarrow> string \<Rightarrow> string option \<Rightarrow>
    arg_error + sender_config \<times> bool" where
  "sender_option stod c a nxt =
     (if a = ''--stream-id'' then num nxt (\<lambda>n. Inr (c\<lparr>sc_stream_id := n\<rparr>))
      else if a = ''--stream-epoch'' then num nxt (\<lambda>n. Inr (c\<lparr>sc_stream_epoch := n\<rparr>))
      else if a = ''--durable-acks'' then flag (c\<lparr>sc_durable_acks := True\<rparr>)
      else if a = ''--allow-insecure-udp'' then flag (c\<lparr>sc_allow_insecure_udp := True\<rparr>)
      else if a = ''--in-shm'' then with_value nxt (\<lambda>v. Inr (c\<lparr>sc_in_shm := v\<rparr>))
      else if a = ''--slots'' then num nxt (\<lambda>n. Inr (c\<lparr>sc_slots := ucast n\<rparr>))
      else if a = ''--host'' then with_value nxt (\<lambda>v. Inr (c\<lparr>sc_host := v\<rparr>))
      else if a = ''--port'' then with_value nxt (\<lambda>v. Inr (c\<lparr>sc_port := v\<rparr>))
      else if a = ''--unix-dst'' then
        with_value nxt (\<lambda>v. Inr (c\<lparr>sc_destinations := sc_destinations c @ [\<lparr>dst_host = v, dst_port = []\<rparr>]\<rparr>))
      else if a = ''--dst'' then
        with_value nxt (\<lambda>v. case parse_destination v of Inl e \<Rightarrow> Inl e
          | Inr d \<Rightarrow> Inr (c\<lparr>sc_destinations := sc_destinations c @ [d]\<rparr>))
      else if a = ''--count'' then num nxt (\<lambda>n. Inr (c\<lparr>sc_count := n\<rparr>))
      else if a = ''--from-edge'' then flag (c\<lparr>sc_from_edge := True\<rparr>)
      else if a = ''--idle-ms'' then num nxt (\<lambda>n. Inr (c\<lparr>sc_idle_ms := n\<rparr>))
      else if a = ''--sndbuf'' then with_value nxt (\<lambda>v. lift_exn (stoi v) (\<lambda>n. Inr (c\<lparr>sc_sndbuf := n\<rparr>)))
      else if a = ''--queue-bytes'' then num nxt (\<lambda>n. within 65536 (64 * 1024 * 1024) n (c\<lparr>sc_queue_bytes := n\<rparr>))
      else if a = ''--send-workers'' then num nxt (\<lambda>n. within 1 256 n (c\<lparr>sc_send_workers := ucast n\<rparr>))
      else if a = ''--repeat'' then num nxt (\<lambda>n. Inr (c\<lparr>sc_repeat := ucast n\<rparr>))
      else if a = ''--batch-size'' then num nxt (\<lambda>n. Inr (c\<lparr>sc_batch_size := ucast n\<rparr>))
      else if a = ''--batch-timeout-us'' then num nxt (\<lambda>n. Inr (c\<lparr>sc_batch_timeout_us := n\<rparr>))
      else if a = ''--fec-k'' then num nxt (\<lambda>n. within 0 (of_nat kMaxGeneration) n (c\<lparr>sc_fec_k := ucast n\<rparr>))
      else if a = ''--fec-parity'' then num nxt (\<lambda>n. within 1 16 n (c\<lparr>sc_fec_parity := ucast n\<rparr>))
      else if a = ''--fec-timeout-us'' then num nxt (\<lambda>n. Inr (c\<lparr>sc_fec_timeout_us := n\<rparr>))
      else if a = ''--test-drop-pct'' then with_value nxt (\<lambda>v. lift_exn (stod v) (\<lambda>d. Inr (c\<lparr>sc_test_drop_pct := d\<rparr>)))
      else if a = ''--test-reorder-pct'' then with_value nxt (\<lambda>v. lift_exn (stod v) (\<lambda>d. Inr (c\<lparr>sc_test_reorder_pct := d\<rparr>)))
      else if a = ''--test-reorder-delay-us'' then num nxt (\<lambda>n. Inr (c\<lparr>sc_test_reorder_delay_us := n\<rparr>))
      else if a = ''--test-seed'' then num nxt (\<lambda>n. Inr (c\<lparr>sc_test_seed := n\<rparr>))
      else if a = ''--echo-out-shm'' then with_value nxt (\<lambda>v. Inr (c\<lparr>sc_echo_out_shm := v\<rparr>))
      else if a = ''--rcvbuf'' then with_value nxt (\<lambda>v. lift_exn (stoi v) (\<lambda>n. Inr (c\<lparr>sc_rcvbuf := n\<rparr>)))
      else if a = ''--echo-timeout-ms'' then num nxt (\<lambda>n. Inr (c\<lparr>sc_echo_timeout_ms := n\<rparr>))
      else Inl Exit2)"

text \<open>The defaults that depend on other options.\<close>

definition sender_normalize :: "sender_config \<Rightarrow> sender_config" where
  "sender_normalize c =
     (let c = (if sc_repeat c = 0 then c\<lparr>sc_repeat := 1\<rparr> else c)
      in if sc_batch_size c = 0 then c\<lparr>sc_batch_size := 1\<rparr> else c)"

definition d_100 :: u64 where "d_100 = 0x4059000000000000"

definition pct_bad :: "u64 \<Rightarrow> bool" where
  "pct_bad x \<longleftrightarrow> d_less x 0 \<or> d_less d_100 x"

text \<open>\<open>random_id\<close>: \<open>getrandom\<close> may fail, and zero is refused.\<close>

definition random_id :: "u64 option \<Rightarrow> arg_error + u64" where
  "random_id r = (case r of None \<Rightarrow> Inl (Throws RuntimeError)
     | Some i \<Rightarrow> if i = 0 then Inl (Throws RuntimeError) else Inr i)"

definition choose_identity :: "u64 option \<times> u64 option \<Rightarrow> sender_config \<Rightarrow> arg_error + sender_config" where
  "choose_identity rs c =
     (case (if sc_stream_id c = 0 then random_id (fst rs) else Inr (sc_stream_id c)) of Inl e \<Rightarrow> Inl e
      | Inr i \<Rightarrow>
          (case (if sc_stream_epoch c = 0 then random_id (snd rs) else Inr (sc_stream_epoch c)) of Inl e \<Rightarrow> Inl e
           | Inr ep \<Rightarrow> Inr (c\<lparr>sc_stream_id := i, sc_stream_epoch := ep\<rparr>)))"

definition sender_check :: "u64 option \<times> u64 option \<Rightarrow> sender_config \<Rightarrow> arg_error + sender_config" where
  "sender_check rs c =
     (let c = sender_normalize c
      in if sc_batch_size c > 1024 then Inl Exit2
      else if \<not> is_power_of_two (ucast (sc_slots c)) then Inl Exit2
      else if unat (sc_fec_k c) > kMaxGeneration then Inl Exit2
      else if pct_bad (sc_test_drop_pct c) \<or> pct_bad (sc_test_reorder_pct c) then Inl Exit2
      else if length (sc_destinations c) > 256 \<or> sc_sndbuf c \<le> 0 \<or> sc_rcvbuf c \<le> 0 then Inl Exit2
      else let c = (if sc_fec_timeout_us c = 0 then c\<lparr>sc_fec_timeout_us := 1\<rparr> else c);
               c = (if sc_destinations c = [] then c\<lparr>sc_destinations := [\<lparr>dst_host = sc_host c, dst_port = sc_port c\<rparr>]\<rparr> else c)
      in if sc_echo_out_shm c \<noteq> [] \<and> (dst_port (hd (sc_destinations c)) = [] \<or> length (sc_destinations c) \<noteq> 1 \<or>
             sc_repeat c \<noteq> 1 \<or> sc_fec_k c \<noteq> 0 \<or> \<not> d_eq (sc_test_drop_pct c) 0 \<or> \<not> d_eq (sc_test_reorder_pct c) 0)
         then Inl Exit2
      else if list_ex (\<lambda>d. dst_port d \<noteq> [] \<and> \<not> sc_allow_insecure_udp c) (sc_destinations c)
         then Inl (Throws InvalidArgument)
      else if length (sc_destinations c) > unat (sc_send_workers c) then Inl (Throws InvalidArgument)
      else if sc_queue_bytes c * of_nat (length (sc_destinations c)) > 1024 * 1024 * 1024 then Inl (Throws InvalidArgument)
      else if sc_durable_acks c \<and> list_ex (\<lambda>d. dst_port d \<noteq> []) (sc_destinations c) then Inl (Throws InvalidArgument)
      else choose_identity rs c)"

definition sender_parse_args :: "(string \<Rightarrow> exn + u64) \<Rightarrow> u64 option \<times> u64 option \<Rightarrow> string list \<Rightarrow> arg_error + sender_config" where
  "sender_parse_args stod rs argv =
     (case arg_loop (sender_option stod) sender_defaults argv of Inl e \<Rightarrow> Inl e
      | Inr c \<Rightarrow> sender_check rs c)"

section \<open>Bounds\<close>

text \<open>What the options themselves guarantee.\<close>

definition sender_ranges :: "sender_config \<Rightarrow> bool" where
  "sender_ranges c \<longleftrightarrow> 65536 \<le> unat (sc_queue_bytes c) \<and> unat (sc_queue_bytes c) \<le> 2 ^ 26 \<and>
     1 \<le> unat (sc_send_workers c) \<and> unat (sc_send_workers c) \<le> 256 \<and>
     unat (sc_fec_k c) \<le> 128 \<and> 1 \<le> unat (sc_fec_parity c) \<and> unat (sc_fec_parity c) \<le> 16"

lemma num_Inr: "num nxt f = Inr (c, u) \<longleftrightarrow> (\<exists>v n. nxt = Some v \<and> stoull v = Inr n \<and> f n = Inr c) \<and> u"
  by (auto simp: num_def with_value_Inr lift_exn_Inr)

lemma within_Inr: "within lo hi n c = Inr c' \<longleftrightarrow> unat lo \<le> unat n \<and> unat n \<le> unat hi \<and> c' = c"
  by (auto simp: within_def word_less_nat_alt)

lemma unat_ucast_u16: "unat (n :: u64) < 2 ^ 16 \<Longrightarrow> unat (ucast n :: u16) = unat n"
  by (simp add: unsigned_ucast_eq take_bit_nat_eq_self)

text \<open>The branches of the option chain, without their conditions.\<close>

lemma opt_if: "(if b then x else y) = Inr r \<Longrightarrow> (x = Inr r \<Longrightarrow> Q) \<Longrightarrow> (y = Inr r \<Longrightarrow> Q) \<Longrightarrow> Q"
  by (cases b) auto

lemma case_Inr: "(case x of Inl e \<Rightarrow> Inl e | Inr d \<Rightarrow> Inr (f d)) = Inr c \<longleftrightarrow> (\<exists>d. x = Inr d \<and> c = f d)"
  by (cases x) auto

lemma sender_option_ranges:
  assumes "sender_ranges c" and "sender_option stod c a v = Inr (c', u)"
  shows "sender_ranges c'"
  using assms(2) unfolding sender_option_def
  by (elim opt_if)
    (use assms(1) in \<open>auto simp: sender_ranges_def num_Inr within_Inr with_value_Inr lift_exn_Inr flag_def kMaxGeneration_def
       unat_ucast_u32 unat_ucast_u16 case_Inr\<close>)

lemma sender_loop_ranges:
  "arg_loop (sender_option stod) sender_defaults argv = Inr c \<Longrightarrow> sender_ranges c"
proof (rule arg_loop_inv [where P = sender_ranges and opt = "sender_option stod"])
  show "sender_ranges sender_defaults" by (simp add: sender_ranges_def sender_defaults_def)
qed (rule sender_option_ranges)

text \<open>What the checks across the options add.\<close>

definition sender_ok :: "sender_config \<Rightarrow> bool" where
  "sender_ok c \<longleftrightarrow> sender_ranges c \<and> 1 \<le> unat (sc_batch_size c) \<and> unat (sc_batch_size c) \<le> 1024 \<and>
     sc_repeat c \<noteq> 0 \<and> is_power_of_two (ucast (sc_slots c)) \<and>
     sc_destinations c \<noteq> [] \<and> length (sc_destinations c) \<le> unat (sc_send_workers c) \<and>
     unat (sc_queue_bytes c) * length (sc_destinations c) \<le> 2 ^ 30 \<and>
     sc_stream_id c \<noteq> 0 \<and> sc_stream_epoch c \<noteq> 0 \<and> sc_fec_timeout_us c \<noteq> 0 \<and>
     (\<forall>d\<in>set (sc_destinations c). dst_port d \<noteq> [] \<longrightarrow> sc_allow_insecure_udp c \<and> \<not> sc_durable_acks c) \<and>
     (sc_echo_out_shm c \<noteq> [] \<longrightarrow> length (sc_destinations c) = 1 \<and> sc_repeat c = 1 \<and> sc_fec_k c = 0)"

lemma choose_identity_Inr:
  assumes "choose_identity rs c = Inr c'"
  shows "\<exists>i ep. c' = c\<lparr>sc_stream_id := i, sc_stream_epoch := ep\<rparr> \<and> i \<noteq> 0 \<and> ep \<noteq> 0"
  using assms by (auto simp: choose_identity_def random_id_def split: sum.split_asm if_split_asm option.split_asm)

lemma normalize_simps:
  "sender_ranges (sender_normalize c) = sender_ranges c" "sc_repeat (sender_normalize c) \<noteq> 0"
  "sc_batch_size (sender_normalize c) \<noteq> 0"
  by (auto simp: sender_normalize_def Let_def sender_ranges_def)

lemma sender_check_ok:
  assumes "sender_ranges c" and "sender_check rs c = Inr c'"
  shows "sender_ok c'"
proof -
  define n where "n = sender_normalize c"
  define f where "f = (if sc_fec_timeout_us n = 0 then n\<lparr>sc_fec_timeout_us := 1\<rparr> else n)"
  define s where "s = (if sc_destinations f = [] then f\<lparr>sc_destinations := [\<lparr>dst_host = sc_host f, dst_port = sc_port f\<rparr>]\<rparr> else f)"
  note chk = assms(2) [unfolded sender_check_def Let_def, folded n_def, folded f_def, folded s_def]
  have ch: "choose_identity rs s = Inr c'" and
    b: "\<not> sc_batch_size n > 1024" "is_power_of_two (ucast (sc_slots n))" and
    echo: "\<not> (sc_echo_out_shm s \<noteq> [] \<and> (dst_port (hd (sc_destinations s)) = [] \<or> length (sc_destinations s) \<noteq> 1 \<or>
             sc_repeat s \<noteq> 1 \<or> sc_fec_k s \<noteq> 0 \<or> \<not> d_eq (sc_test_drop_pct s) 0 \<or> \<not> d_eq (sc_test_reorder_pct s) 0))" and
    udp: "\<not> list_ex (\<lambda>d. dst_port d \<noteq> [] \<and> \<not> sc_allow_insecure_udp s) (sc_destinations s)" and
    w: "\<not> length (sc_destinations s) > unat (sc_send_workers s)" and
    q: "\<not> sc_queue_bytes s * of_nat (length (sc_destinations s)) > 1024 * 1024 * 1024" and
    dur: "\<not> (sc_durable_acks s \<and> list_ex (\<lambda>d. dst_port d \<noteq> []) (sc_destinations s))"
    using chk by (auto split: if_split_asm)
  have r: "sender_ranges s" using assms(1) by (simp add: s_def f_def n_def normalize_simps sender_ranges_def)
      (simp add: sender_normalize_def Let_def)
  have same: "sc_batch_size s = sc_batch_size n" "sc_repeat s = sc_repeat n" "sc_slots s = sc_slots n"
    by (simp_all add: s_def f_def)
  have qb: "unat (sc_queue_bytes s) \<le> 2 ^ 26" "unat (sc_send_workers s) \<le> 256" using r by (simp_all add: sender_ranges_def)
  have len: "length (sc_destinations s) \<le> 256" using w qb(2) by linarith
  have ul: "unat (of_nat (length (sc_destinations s)) :: u64) = length (sc_destinations s)"
    using len by (intro unat_of_nat_small) simp
  have "unat (sc_queue_bytes s) * length (sc_destinations s) \<le> 2 ^ 26 * 256" using qb(1) len by (rule mult_le_mono)
  then have "unat (sc_queue_bytes s * of_nat (length (sc_destinations s))) = unat (sc_queue_bytes s) * length (sc_destinations s)"
    using unat_mult_small [of "sc_queue_bytes s" "of_nat (length (sc_destinations s))"] ul by simp
  with q have q': "unat (sc_queue_bytes s) * length (sc_destinations s) \<le> 2 ^ 30" by (simp add: word_less_nat_alt)
  have bs: "1 \<le> unat (sc_batch_size n)" "unat (sc_batch_size n) \<le> 1024"
    using b(1) normalize_simps(3) [of c] by (auto simp: n_def word_less_nat_alt unat_gt_0 Suc_le_eq)
  obtain i ep where c': "c' = s\<lparr>sc_stream_id := i, sc_stream_epoch := ep\<rparr>" "i \<noteq> 0" "ep \<noteq> 0"
    using choose_identity_Inr [OF ch] by blast
  have ft: "sc_fec_timeout_us s \<noteq> 0" "sc_destinations s \<noteq> []" by (auto simp: s_def f_def)
  have rp: "sc_repeat n \<noteq> 0" using normalize_simps(2) by (simp add: n_def)
  show ?thesis unfolding sender_ok_def c'(1)
    using r c'(2,3) bs b(2) same rp ft w q' echo udp dur by (auto simp: sender_ranges_def list_ex_iff)
qed

lemma sender_parse_ok:
  assumes "sender_parse_args stod rs argv = Inr c"
  shows "sender_ok c"
proof -
  obtain c0 where "arg_loop (sender_option stod) sender_defaults argv = Inr c0" "sender_check rs c0 = Inr c"
    using assms by (auto simp: sender_parse_args_def split: sum.splits)
  then show ?thesis using sender_check_ok sender_loop_ranges by blast
qed

text \<open>
  C37. A sender configuration that is accepted is within its bounds: between 1 and 1024 datagrams
  per batch, FEC generations of at most 128 frames with 1 to 16 parity datagrams, at least one
  destination and a worker for each, queues that together stay below 1 GiB (the product does not
  wrap), a non-zero stream identity, UDP only when it was allowed and never with durable
  acknowledgements, and the echo mode only with a single plain destination.
\<close>

theorem sender_config_ok:
  assumes "sender_parse_args stod rs argv = Inr c"
  shows "sender_ok c"
  by (rule sender_parse_ok [OF assms])

definition example_sender :: sender_config where
  "example_sender = sender_defaults\<lparr>sc_stream_id := 5, sc_stream_epoch := 6,
     sc_destinations := [\<lparr>dst_host = ''/tmp/a'', dst_port = []\<rparr>]\<rparr>"

lemma example_sender_args:
  "sender_parse_args (\<lambda>_. Inl InvalidArgument) (Some 5, Some 6) [''--unix-dst'', ''/tmp/a''] = Inr example_sender"
proof -
  have "pct_bad 0 = False" by (simp add: pct_bad_def d_less_def d_nan_def d_order_def d_100_def)
  then show ?thesis
    by (simp add: sender_parse_args_def sender_option_def with_value_def sender_defaults_def sender_check_def
        sender_normalize_def is_power_of_two_def choose_identity_def random_id_def Let_def example_sender_def)
qed

lemma sender_config_ok_witness:
  "sender_parse_args (\<lambda>_. Inl InvalidArgument) (Some 5, Some 6) [''--unix-dst'', ''/tmp/a''] = Inr example_sender \<and>
     unat (sc_batch_size example_sender) \<le> 1024 \<and> sc_stream_id example_sender \<noteq> 0"
  using sender_config_ok [OF example_sender_args] example_sender_args by (simp add: sender_ok_def)

end
