(* ===== verification/Fanout.thy ===== *)
theory Fanout
  imports Transport "HOL-Library.Sublist"
begin

text \<open>
  The sending side of \<open>sender.cpp\<close>: flushing a batch to the sockets, over a stream or with
  \<open>sendmmsg\<close>, and the bounded queue and worker thread that every destination has when there is
  more than one.
\<close>

section \<open>Flushing a batch\<close>

record send_counters =
  sk_packets :: u64
  sk_sendmmsg_calls :: u64
  sk_send_calls :: u64
  sk_max_sendmmsg_batch :: u32

definition counters_init :: send_counters where
  "counters_init = \<lparr>sk_packets = 0, sk_sendmmsg_calls = 0, sk_send_calls = 0, sk_max_sendmmsg_batch = 0\<rparr>"

text \<open>
  What the kernel answers. For one frame on a stream: the clock and the turns of \<open>send_frame\<close>, and
  the clock, the incoming bytes and the turns for its acknowledgement. For one \<open>sendmmsg\<close>: an
  interruption (with the stop flag), an error, or the lengths of the messages it sent.
\<close>

record frame_env =
  fe_now :: u64
  fe_turns :: "turn list"
  fe_ack_now :: u64
  fe_ack :: bytes
  fe_ack_turns :: "turn list"

datatype mmsg = Interrupted bool | SendFailed | Sent "nat list"

datatype socket_env = NoSocket | StreamSocket "frame_env list" | DgramSocket "mmsg list"

definition count_sent :: "send_counters \<Rightarrow> send_counters" where
  "count_sent c = c\<lparr>sk_packets := sk_packets c + 1, sk_send_calls := sk_send_calls c + 1\<rparr>"

text \<open>
  The frames on a stream socket: success, the counters and the frames that went out whole. A
  frame whose acknowledgement fails is out all the same; of one that breaks off the peer never
  reads a frame.
\<close>

fun send_stream :: "bool \<Rightarrow> bytes list \<Rightarrow> frame_env list \<Rightarrow> send_counters \<Rightarrow> (bool \<times> send_counters \<times> bytes list) option" where
  "send_stream durable [] es c = Some (True, c, [])"
| "send_stream durable (f # fs) [] c = None"
| "send_stream durable (f # fs) (e # es) c =
     (case send_frame f (fe_now e) (fe_turns e) of
        None \<Rightarrow> None
      | Some (False, _, _) \<Rightarrow> Some (False, c, [])
      | Some (True, _, _) \<Rightarrow>
          let go = map_option (\<lambda>(ok, c, out). (ok, c, f # out)) (send_stream durable fs es (count_sent c))
          in if \<not> durable then go
             else case transfer_recv (fe_ack_now e + 2000000000) 1 (fe_ack e) (fe_ack_turns e) of
                    None \<Rightarrow> None
                  | Some (ok, got, _, _) \<Rightarrow> if \<not> ok \<or> got \<noteq> [1] then Some (False, c, [f]) else go)"

definition count_mmsg :: "nat \<Rightarrow> send_counters \<Rightarrow> send_counters" where
  "count_mmsg n c = c\<lparr>sk_sendmmsg_calls := sk_sendmmsg_calls c + 1, sk_packets := sk_packets c + of_nat n,
     sk_max_sendmmsg_batch := (if of_nat n > sk_max_sendmmsg_batch c then of_nat n else sk_max_sendmmsg_batch c)\<rparr>"

text \<open>
  One pass of \<open>sendmmsg\<close> calls over the datagrams from the offset on. The kernel sent the first
  \<open>n\<close> messages, each up to the length it reports.
\<close>

fun send_dgrams :: "bytes list \<Rightarrow> mmsg list \<Rightarrow> send_counters \<Rightarrow> (bool \<times> send_counters \<times> bytes list \<times> mmsg list) option" where
  "send_dgrams fs [] c = (if fs = [] then Some (True, c, [], []) else None)"
| "send_dgrams fs (m # ms) c =
     (if fs = [] then Some (True, c, [], m # ms)
      else case m of
        Interrupted stop \<Rightarrow> if \<not> stop then send_dgrams fs ms c else Some (False, c, [], ms)
      | SendFailed \<Rightarrow> Some (False, c, [], ms)
      | Sent lens \<Rightarrow>
          let n = length lens
          in if n = 0 then Some (False, c, [], ms)
             else let c = count_mmsg n c
                  in if lens \<noteq> map length (take n fs) then Some (False, c, map2 take lens fs, ms)
                     else map_option (\<lambda>(ok, c, out, ms). (ok, c, take n fs @ out, ms)) (send_dgrams (drop n fs) ms c))"

fun send_repeats :: "nat \<Rightarrow> bytes list \<Rightarrow> mmsg list \<Rightarrow> send_counters \<Rightarrow> (bool \<times> send_counters \<times> bytes list) option" where
  "send_repeats 0 fs ms c = Some (True, c, [])"
| "send_repeats (Suc k) fs ms c =
     (case send_dgrams fs ms c of
        None \<Rightarrow> None
      | Some (False, c, out, _) \<Rightarrow> Some (False, c, out)
      | Some (True, c, out, ms) \<Rightarrow> map_option (\<lambda>(ok, c, out'). (ok, c, out @ out')) (send_repeats k fs ms c))"

definition flush_socket :: "nat \<Rightarrow> bool \<Rightarrow> bytes list \<Rightarrow> socket_env \<Rightarrow> send_counters \<Rightarrow>
    (bool \<times> send_counters \<times> bytes list) option" where
  "flush_socket repeat durable fs sock c =
     (case sock of NoSocket \<Rightarrow> Some (False, c, [])
      | StreamSocket es \<Rightarrow> send_stream durable (concat (replicate repeat fs)) es c
      | DgramSocket ms \<Rightarrow> send_repeats repeat fs ms c)"

text \<open>\<open>flush_batch_direct\<close>: success, the counters and what went out on every socket.\<close>

fun flush_sockets :: "nat \<Rightarrow> bool \<Rightarrow> bytes list \<Rightarrow> socket_env list \<Rightarrow> send_counters \<Rightarrow>
    (bool \<times> send_counters \<times> bytes list list) option" where
  "flush_sockets repeat durable fs [] c = Some (True, c, [])"
| "flush_sockets repeat durable fs (s # ss) c =
     (case flush_socket repeat durable fs s c of
        None \<Rightarrow> None
      | Some (False, c, out) \<Rightarrow> Some (False, c, [out])
      | Some (True, c, out) \<Rightarrow> map_option (\<lambda>(ok, c, outs). (ok, c, out # outs)) (flush_sockets repeat durable fs ss c))"

definition flush_batch_direct :: "nat \<Rightarrow> bool \<Rightarrow> bytes list \<Rightarrow> socket_env list \<Rightarrow> send_counters \<Rightarrow>
    (bool \<times> send_counters \<times> bytes list list) option" where
  "flush_batch_direct repeat durable fs socks c =
     (if fs = [] then Some (True, c, map (\<lambda>_. []) socks) else flush_sockets repeat durable fs socks c)"

section \<open>Destinations\<close>

record work =
  wk_frames :: "bytes list"
  wk_bytes :: u64

record dest =
  de_queue :: "work list"
  de_bytes :: u64
  de_done :: bool
  de_failed :: bool
  de_rejected :: u64
  de_counters :: send_counters

definition dest_init :: dest where
  "dest_init = \<lparr>de_queue = [], de_bytes = 0, de_done = False, de_failed = False, de_rejected = 0,
     de_counters = counters_init\<rparr>"

definition batch_bytes :: "bytes list \<Rightarrow> u64" where
  "batch_bytes fs = foldl (\<lambda>n f. n + of_nat (length f)) 0 fs"

text \<open>Giving up: what is queued is counted as rejected.\<close>

definition isolate :: "u64 \<Rightarrow> dest \<Rightarrow> dest" where
  "isolate n d = d\<lparr>de_failed := True,
     de_rejected := foldl (\<lambda>r w. r + of_nat (length (wk_frames w))) (de_rejected d + n) (de_queue d),
     de_queue := [], de_bytes := 0\<rparr>"

definition enqueue_dest :: "u64 \<Rightarrow> bytes list \<Rightarrow> dest \<Rightarrow> dest" where
  "enqueue_dest queue_bytes fs d =
     (if de_failed d then d\<lparr>de_rejected := de_rejected d + of_nat (length fs)\<rparr>
      else let bytes = batch_bytes fs
           in if de_bytes d + bytes > queue_bytes then isolate (of_nat (length fs)) d
              else d\<lparr>de_bytes := de_bytes d + bytes, de_queue := de_queue d @ [\<lparr>wk_frames = fs, wk_bytes = bytes\<rparr>]\<rparr>)"

text \<open>The worker under the lock: it sleeps on, it ends, or it takes the front of the queue.\<close>

datatype wake = Sleep | Break | Take work dest

definition worker_wake :: "dest \<Rightarrow> wake" where
  "worker_wake d =
     (if \<not> (de_done d \<or> de_failed d \<or> de_queue d \<noteq> []) then Sleep
      else if de_failed d \<or> (de_done d \<and> de_queue d = []) then Break
      else let w = hd (de_queue d)
           in Take w (d\<lparr>de_queue := tl (de_queue d), de_bytes := de_bytes d - wk_bytes w\<rparr>))"

text \<open>After the flush of a batch.\<close>

definition worker_done :: "bool \<Rightarrow> work \<Rightarrow> send_counters \<Rightarrow> dest \<Rightarrow> dest" where
  "worker_done ok w c d =
     (let d = d\<lparr>de_counters := c\<rparr> in if ok then d else isolate (of_nat (length (wk_frames w))) d)"

text \<open>\<open>finish\<close>: the flag for the workers, and the sums over the destinations they leave behind.\<close>

definition finish_dest :: "dest \<Rightarrow> dest" where
  "finish_dest d = d\<lparr>de_done := True\<rparr>"

definition add_counters :: "send_counters \<Rightarrow> send_counters \<Rightarrow> send_counters" where
  "add_counters c k = \<lparr>sk_packets = sk_packets c + sk_packets k, sk_sendmmsg_calls = sk_sendmmsg_calls c + sk_sendmmsg_calls k,
     sk_send_calls = sk_send_calls c + sk_send_calls k,
     sk_max_sendmmsg_batch = max (sk_max_sendmmsg_batch c) (sk_max_sendmmsg_batch k)\<rparr>"

definition finish_totals :: "dest list \<Rightarrow> send_counters \<Rightarrow> bool \<times> send_counters" where
  "finish_totals ds c = (list_all (\<lambda>d. \<not> de_failed d) ds, foldl (\<lambda>c d. add_counters c (de_counters d)) c ds)"

section \<open>The worker of a destination\<close>

text \<open>
  A destination with its worker: between two batches, with a batch in hand, or ended. \<open>ln_sent\<close>
  are the batches whose flush succeeded, \<open>ln_out\<close> is all that went out on the socket.
\<close>

datatype worker = Idle | Busy work | Gone

record link =
  ln_dest :: dest
  ln_worker :: worker
  ln_sent :: "bytes list list"
  ln_out :: "bytes list"

definition link_init :: link where
  "link_init = \<lparr>ln_dest = dest_init, ln_worker = Idle, ln_sent = [], ln_out = []\<rparr>"

text \<open>
  What the worker does between two operations of the main thread: it gets the lock, or it flushes
  its batch on what the kernel answers.
\<close>

datatype event = Wake | Flush socket_env

definition link_event :: "nat \<Rightarrow> bool \<Rightarrow> event \<Rightarrow> link \<Rightarrow> link" where
  "link_event repeat durable ev ln =
     (case (ev, ln_worker ln) of
        (Wake, Idle) \<Rightarrow>
          (case worker_wake (ln_dest ln) of
             Sleep \<Rightarrow> ln
           | Break \<Rightarrow> ln\<lparr>ln_worker := Gone\<rparr>
           | Take w d \<Rightarrow> ln\<lparr>ln_dest := d, ln_worker := Busy w\<rparr>)
      | (Flush sock, Busy w) \<Rightarrow>
          (case flush_batch_direct repeat durable (wk_frames w) [sock] (de_counters (ln_dest ln)) of
             None \<Rightarrow> ln
           | Some (ok, c, outs) \<Rightarrow>
               ln\<lparr>ln_dest := worker_done ok w c (ln_dest ln), ln_worker := (if ok then Idle else Gone),
                  ln_sent := ln_sent ln @ (if ok then [wk_frames w] else []), ln_out := ln_out ln @ concat outs\<rparr>)
      | _ \<Rightarrow> ln)"

definition enqueue_link :: "u64 \<Rightarrow> bytes list \<Rightarrow> link \<Rightarrow> link" where
  "enqueue_link queue_bytes fs ln = ln\<lparr>ln_dest := enqueue_dest queue_bytes fs (ln_dest ln)\<rparr>"

definition enqueue :: "u64 \<Rightarrow> bytes list \<Rightarrow> link list \<Rightarrow> link list" where
  "enqueue queue_bytes fs lns = map (enqueue_link queue_bytes fs) lns"

definition finish_link :: "link \<Rightarrow> link" where
  "finish_link ln = ln\<lparr>ln_dest := finish_dest (ln_dest ln)\<rparr>"

text \<open>A schedule of the workers: whose turn it is and what happens.\<close>

definition run_schedule :: "nat \<Rightarrow> bool \<Rightarrow> (nat \<times> event) list \<Rightarrow> link list \<Rightarrow> link list" where
  "run_schedule repeat durable evs lns =
     foldl (\<lambda>lns (i, ev). if i < length lns then lns[i := link_event repeat durable ev (lns ! i)] else lns) lns evs"

section \<open>A flush that succeeds sends everything\<close>

lemma send_stream_out: "send_stream durable fs es c = Some (True, c', out) \<Longrightarrow> out = fs"
  by (induction durable fs es c arbitrary: out rule: send_stream.induct)
    (auto simp: Let_def split: option.splits prod.splits bool.splits if_splits)

lemma send_dgrams_out: "send_dgrams fs ms c = Some (True, c', out, ms') \<Longrightarrow> out = fs"
proof (induction fs ms c arbitrary: out rule: send_dgrams.induct)
  case (2 fs m ms c)
  show ?case
  proof (cases "fs = []")
    case False
    consider stop where "m = Interrupted stop" "\<not> stop" "send_dgrams fs ms c = Some (True, c', out, ms')"
      | lens out' where "m = Sent lens" "length lens \<noteq> 0" "lens = map length (take (length lens) fs)"
        "out = take (length lens) fs @ out'" "send_dgrams (drop (length lens) fs) ms (count_mmsg (length lens) c) = Some (True, c', out', ms')"
      using 2(3) False by (auto simp: Let_def split: mmsg.split_asm if_split_asm)
    then show ?thesis
    proof cases
      case 1
      then show ?thesis using 2(1) False by blast
    next
      case (2 lens out')
      then show ?thesis using "2.IH"(2) [OF False 2(1) refl 2(2) refl] 2(3) by auto
    qed
  qed (use 2(3) in auto)
qed (auto split: if_splits)

lemma send_repeats_out: "send_repeats k fs ms c = Some (True, c', out) \<Longrightarrow> out = concat (replicate k fs)"
  by (induction k fs ms c arbitrary: out rule: send_repeats.induct)
    (auto split: option.splits prod.splits bool.splits dest: send_dgrams_out)

lemma flush_socket_out: "flush_socket k durable fs s c = Some (True, c', out) \<Longrightarrow> out = concat (replicate k fs)"
  by (auto simp: flush_socket_def split: socket_env.splits dest: send_stream_out send_repeats_out)

lemma flush_sockets_out:
  "flush_sockets k durable fs socks c = Some (True, c', outs) \<Longrightarrow> outs = map (\<lambda>_. concat (replicate k fs)) socks"
  by (induction k durable fs socks c arbitrary: outs rule: flush_sockets.induct)
    (auto split: option.splits prod.splits bool.splits dest: flush_socket_out)

lemma flush_batch_out:
  "flush_batch_direct k durable fs socks c = Some (True, c', outs) \<Longrightarrow> outs = map (\<lambda>_. concat (replicate k fs)) socks"
  by (auto simp: flush_batch_direct_def split: if_splits dest: flush_sockets_out)

section \<open>What a failed flush leaves behind\<close>

text \<open>A prefix of what should have gone out, its last datagrams possibly cut short.\<close>

definition partly :: "bytes list \<Rightarrow> bytes list \<Rightarrow> bool" where
  "partly out fs \<longleftrightarrow> (\<exists>q. prefix q fs \<and> list_all2 prefix out q)"

lemma partly_Nil [simp]: "partly [] fs"
  by (auto simp: partly_def intro: exI [of _ "[]"])

lemma partly_refl: "prefix out fs \<Longrightarrow> partly out fs"
  unfolding partly_def by (rule exI [of _ out]) (simp add: list.rel_refl)

lemma partly_append: "partly out fs \<Longrightarrow> partly (xs @ out) (xs @ fs)"
  unfolding partly_def by (metis list_all2_appendI list.rel_refl prefix_order.refl same_prefix_prefix)

lemma partly_mono: "partly out fs \<Longrightarrow> prefix fs gs \<Longrightarrow> partly out gs"
  unfolding partly_def by (meson prefix_order.trans)

lemma partly_take: "partly (map2 take ns fs) fs"
proof -
  have "list_all2 prefix (map2 take ns fs) (take (length ns) fs)"
    by (induction ns fs rule: list_induct2') (auto simp: take_is_prefix)
  then show ?thesis unfolding partly_def using take_is_prefix by blast
qed

lemma send_stream_partly: "send_stream durable fs es c = Some (ok, c', out) \<Longrightarrow> partly out fs"
proof (induction durable fs es c arbitrary: out rule: send_stream.induct)
  case (3 durable f fs e es c)
  then consider "out = []" | "out = [f]"
    | out' where "out = f # out'" "send_stream durable fs es (count_sent c) = Some (ok, c', out')"
      "\<exists>x y. send_frame f (fe_now e) (fe_turns e) = Some (True, x, y)"
    by (auto simp: Let_def split: option.splits prod.splits bool.splits if_splits)
  then show ?case
  proof cases
    case 3
    then have "partly out' fs" using "3.IH" by blast
    then show ?thesis using partly_append [of out' fs "[f]"] 3(1) by simp
  qed (auto intro: partly_refl)
qed auto

lemma send_dgrams_partly: "send_dgrams fs ms c = Some (ok, c', out, ms') \<Longrightarrow> partly out fs"
proof (induction fs ms c arbitrary: out rule: send_dgrams.induct)
  case (2 fs m ms c)
  show ?case
  proof (cases "fs = []")
    case False
    consider "out = []" | lens where "out = map2 take lens fs"
      | stop where "m = Interrupted stop" "\<not> stop" "send_dgrams fs ms c = Some (ok, c', out, ms')"
      | lens out' where "m = Sent lens" "length lens \<noteq> 0" "lens = map length (take (length lens) fs)"
        "out = take (length lens) fs @ out'" "send_dgrams (drop (length lens) fs) ms (count_mmsg (length lens) c) = Some (ok, c', out', ms')"
      using 2(3) False by (auto simp: Let_def split: mmsg.split_asm if_split_asm)
    then show ?thesis
    proof cases
      case 3
      then show ?thesis using "2.IH"(1) False by blast
    next
      case (4 lens out')
      then have "partly out' (drop (length lens) fs)" using "2.IH"(2) [OF False 4(1) refl 4(2) refl] by auto
      from partly_append [OF this, of "take (length lens) fs"] show ?thesis using 4(4) by simp
    qed (auto intro: partly_take)
  qed (use 2(3) in auto)
qed (auto split: if_splits)

lemma send_repeats_partly: "send_repeats k fs ms c = Some (ok, c', out) \<Longrightarrow> partly out (concat (replicate k fs))"
proof (induction k fs ms c arbitrary: out rule: send_repeats.induct)
  case (2 k fs ms c)
  consider c1 ms1 where "send_dgrams fs ms c = Some (False, c1, out, ms1)"
    | c1 ms1 out1 out2 where "send_dgrams fs ms c = Some (True, c1, out1, ms1)" "send_repeats k fs ms1 c1 = Some (ok, c', out2)"
      "out = out1 @ out2"
    using "2.prems" by (auto split: option.splits prod.splits bool.splits)
  then show ?case
  proof cases
    case 1
    from partly_mono [OF send_dgrams_partly [OF this]] show ?thesis by simp
  next
    case 2
    then have "partly out2 (concat (replicate k fs))" using "2.IH" by blast
    from partly_append [OF this, of fs] show ?thesis using 2(3) send_dgrams_out [OF 2(1)] by simp
  qed
qed simp

lemma flush_socket_partly: "flush_socket k durable fs s c = Some (ok, c', out) \<Longrightarrow> partly out (concat (replicate k fs))"
  by (auto simp: flush_socket_def split: socket_env.splits dest: send_stream_partly send_repeats_partly)

text \<open>The flush of one batch to one socket.\<close>

lemma flush_one:
  assumes "flush_batch_direct k durable fs [sock] c = Some (ok, c', outs)"
  shows "partly (concat outs) (concat (replicate k fs))" and "ok \<Longrightarrow> concat outs = concat (replicate k fs)"
proof -
  show "ok \<Longrightarrow> concat outs = concat (replicate k fs)" using flush_batch_out [of k durable fs "[sock]" c] assms by auto
  show "partly (concat outs) (concat (replicate k fs))"
    using assms flush_socket_partly
    by (fastforce simp: flush_batch_direct_def split: if_splits option.splits prod.splits bool.splits)
qed

section \<open>One destination under any schedule\<close>

text \<open>
  The main thread and the worker take turns at the lock in any order; \<open>Es\<close> are the batches the
  main thread has enqueued. It enqueues nothing after \<open>finish\<close>.
\<close>

fun held :: "worker \<Rightarrow> bytes list list" where
  "held (Busy w) = [wk_frames w]"
| "held w = []"

inductive dest_run :: "nat \<Rightarrow> bool \<Rightarrow> u64 \<Rightarrow> link \<Rightarrow> bytes list list \<Rightarrow> bool" for k durable limit where
  start: "dest_run k durable limit link_init []"
| enqueue: "dest_run k durable limit ln Es \<Longrightarrow> \<not> de_done (ln_dest ln) \<Longrightarrow> sum_list (map length fs) < 2 ^ 32 \<Longrightarrow>
    dest_run k durable limit (enqueue_link limit fs ln) (Es @ [fs])"
| event: "dest_run k durable limit ln Es \<Longrightarrow> dest_run k durable limit (link_event k durable ev ln) Es"
| finish: "dest_run k durable limit ln Es \<Longrightarrow> dest_run k durable limit (finish_link ln) Es"

abbreviation frame_count :: "bytes list list \<Rightarrow> nat" where
  "frame_count Es \<equiv> sum_list (map length Es)"

definition queued :: "dest \<Rightarrow> bytes list list" where
  "queued d = map wk_frames (de_queue d)"

definition total_bytes :: "bytes list list \<Rightarrow> nat" where
  "total_bytes Es = sum_list (map (\<lambda>fs. sum_list (map length fs)) Es)"

text \<open>
  What is on the socket, with \<open>R\<close> the batches given up: the batches sent, and after a failed flush
  a part of the batch after them.
\<close>

definition out_inv :: "nat \<Rightarrow> bytes list list \<Rightarrow> bytes list list \<Rightarrow> bytes list \<Rightarrow> bool" where
  "out_inv k Ws R out \<longleftrightarrow> (\<exists>p. out = concat (map (\<lambda>fs. concat (replicate k fs)) Ws) @ p \<and>
     (p = [] \<or> (\<exists>fs R'. R = fs # R' \<and> partly p (concat (replicate k fs)))))"

definition dest_inv :: "nat \<Rightarrow> u64 \<Rightarrow> dest \<Rightarrow> worker \<Rightarrow> bytes list list \<Rightarrow> bytes list list \<Rightarrow> bytes list \<Rightarrow> bool" where
  "dest_inv k limit d w Es Ws out \<longleftrightarrow>
     (\<exists>R. Es = Ws @ held w @ queued d @ R \<and> (\<not> de_failed d \<longrightarrow> R = []) \<and> de_rejected d = of_nat (frame_count R) \<and>
       (if w = Gone then out_inv k Ws R out else out = concat (map (\<lambda>fs. concat (replicate k fs)) Ws))) \<and>
     (de_failed d \<longrightarrow> de_queue d = []) \<and>
     (w = Gone \<and> \<not> de_failed d \<longrightarrow> de_done d \<and> de_queue d = []) \<and>
     (\<forall>x\<in>set (de_queue d). wk_bytes x = batch_bytes (wk_frames x)) \<and>
     de_bytes d = of_nat (total_bytes (queued d)) \<and> total_bytes (queued d) \<le> unat limit"

lemma batch_bytes_eq: "batch_bytes fs = of_nat (sum_list (map length fs))"
proof -
  have "foldl (\<lambda>n f. n + of_nat (length f)) z fs = z + of_nat (sum_list (map length fs))" for z :: u64
    by (induction fs arbitrary: z) (auto simp: algebra_simps)
  then show ?thesis by (simp add: batch_bytes_def)
qed

lemma rejected_eq: "foldl (\<lambda>r w. r + of_nat (length (wk_frames w))) z ws = z + of_nat (frame_count (map wk_frames ws))"
  for z :: u64
  by (induction ws arbitrary: z) (auto simp: algebra_simps)

lemma isolate_simps:
  "de_failed (isolate n d)" "de_queue (isolate n d) = []" "de_bytes (isolate n d) = 0" "queued (isolate n d) = []"
  "de_rejected (isolate n d) = de_rejected d + n + of_nat (frame_count (queued d))"
  "de_counters (isolate n d) = de_counters d"
  by (simp_all add: isolate_def queued_def rejected_eq)

lemma dest_invD:
  assumes "dest_inv k limit d w Es Ws out"
  obtains R where "Es = Ws @ held w @ queued d @ R" "\<not> de_failed d \<longrightarrow> R = []" "de_rejected d = of_nat (frame_count R)"
    "if w = Gone then out_inv k Ws R out else out = concat (map (\<lambda>fs. concat (replicate k fs)) Ws)"
  using assms by (auto simp: dest_inv_def)

text \<open>Giving up on a destination: what is queued joins the rejected batches.\<close>

lemma dest_inv_isolate:
  assumes "Es = Ws @ held w @ R" and "de_rejected d + n + of_nat (frame_count (queued d)) = of_nat (frame_count R)"
    and "if w = Gone then out_inv k Ws R out else out = concat (map (\<lambda>fs. concat (replicate k fs)) Ws)"
  shows "dest_inv k limit (isolate n d) w Es Ws out"
  using assms by (auto simp: dest_inv_def isolate_simps total_bytes_def intro!: exI [of _ R])

lemma dest_inv_enqueue:
  assumes inv: "dest_inv k limit d w Es Ws out" and fs: "sum_list (map length fs) < 2 ^ 32" and lim: "unat limit < 2 ^ 32"
    and open': "\<not> de_done d"
  shows "dest_inv k limit (enqueue_dest limit fs d) w (Es @ [fs]) Ws out"
proof -
  obtain R where R: "Es = Ws @ held w @ queued d @ R" "\<not> de_failed d \<longrightarrow> R = []" "de_rejected d = of_nat (frame_count R)"
    "if w = Gone then out_inv k Ws R out else out = concat (map (\<lambda>fs. concat (replicate k fs)) Ws)"
    using inv by (rule dest_invD)
  show ?thesis
  proof (cases "de_failed d")
    case True
    have "out_inv k Ws (R @ [fs]) out" if "out_inv k Ws R out" using that by (auto simp: out_inv_def)
    then show ?thesis using inv True R
      by (auto simp: dest_inv_def enqueue_dest_def queued_def algebra_simps intro!: exI [of _ "R @ [fs]"])
  next
    case False
    then have w: "w \<noteq> Gone" using inv open' by (auto simp: dest_inv_def)
    have b: "de_bytes d = of_nat (total_bytes (queued d))" "total_bytes (queued d) \<le> unat limit"
      using inv by (simp_all add: dest_inv_def)
    let ?n = "total_bytes (queued d) + sum_list (map length fs)"
    have sum: "de_bytes d + batch_bytes fs = of_nat ?n" using b(1) by (simp add: batch_bytes_eq)
    have u: "unat (of_nat ?n :: u64) = ?n" using b(2) fs lim by (intro unat_of_nat_small) simp
    show ?thesis
    proof (cases "de_bytes d + batch_bytes fs > limit")
      case True
      then have "enqueue_dest limit fs d = isolate (of_nat (length fs)) d" using False by (simp add: enqueue_dest_def)
      moreover have "dest_inv k limit (isolate (of_nat (length fs)) d) w (Es @ [fs]) Ws out"
        by (rule dest_inv_isolate [where R = "queued d @ [fs]"]) (use R w False in auto)
      ultimately show ?thesis by simp
    next
      case le: False
      then have "?n \<le> unat limit" using u sum by (simp add: word_less_nat_alt)
      moreover have "enqueue_dest limit fs d = d\<lparr>de_bytes := of_nat ?n,
          de_queue := de_queue d @ [\<lparr>wk_frames = fs, wk_bytes = batch_bytes fs\<rparr>]\<rparr>"
        using False le sum by (simp add: enqueue_dest_def Let_def)
      ultimately show ?thesis using inv False w by (auto simp: dest_inv_def queued_def total_bytes_def)
    qed
  qed
qed

lemma dest_inv_take:
  assumes inv: "dest_inv k limit d Idle Es Ws out" and take: "worker_wake d = Take w d'"
  shows "dest_inv k limit d' (Busy w) Es Ws out"
proof -
  obtain q where q: "de_queue d = w # q" "\<not> de_failed d" "d' = d\<lparr>de_queue := q, de_bytes := de_bytes d - wk_bytes w\<rparr>"
    using take by (cases "de_queue d") (auto simp: worker_wake_def Let_def split: if_splits)
  have "wk_bytes w = of_nat (sum_list (map length (wk_frames w)))"
    using inv q(1) by (simp add: dest_inv_def batch_bytes_eq)
  then show ?thesis using inv q by (auto simp: dest_inv_def queued_def total_bytes_def)
qed

lemma dest_inv_leave:
  assumes inv: "dest_inv k limit d Idle Es Ws out" and "worker_wake d = Break"
  shows "dest_inv k limit d Gone Es Ws out"
proof -
  have "de_failed d \<or> de_done d \<and> de_queue d = []" using assms(2) by (auto simp: worker_wake_def Let_def split: if_splits)
  then show ?thesis using inv by (auto simp: dest_inv_def out_inv_def)
qed

lemma dest_inv_flush:
  assumes inv: "dest_inv k limit d (Busy w) Es Ws out"
    and flush: "flush_batch_direct k durable (wk_frames w) [sock] (de_counters d) = Some (ok, c, outs)"
  shows "dest_inv k limit (worker_done ok w c d) (if ok then Idle else Gone) Es
    (Ws @ (if ok then [wk_frames w] else [])) (out @ concat outs)"
proof (cases ok)
  case True
  then have "concat outs = concat (replicate k (wk_frames w))" using flush_one(2) [OF flush] by simp
  then show ?thesis using inv True by (auto simp: dest_inv_def worker_done_def queued_def)
next
  case False
  obtain R where R: "Es = Ws @ held (Busy w) @ queued d @ R" "de_rejected d = of_nat (frame_count R)"
    "out = concat (map (\<lambda>fs. concat (replicate k fs)) Ws)"
    using inv by (rule dest_invD) auto
  have q: "queued (d\<lparr>de_counters := c\<rparr>) = queued d" by (simp add: queued_def)
  have "out_inv k Ws (wk_frames w # queued d @ R) (out @ concat outs)"
    using flush_one(1) [OF flush] R(3) by (auto simp: out_inv_def)
  then have "dest_inv k limit (isolate (of_nat (length (wk_frames w))) (d\<lparr>de_counters := c\<rparr>)) Gone Es Ws (out @ concat outs)"
    by (intro dest_inv_isolate [where R = "wk_frames w # queued d @ R"]) (use R(1,2) q in auto)
  then show ?thesis using False by (simp add: worker_done_def)
qed

abbreviation link_inv :: "nat \<Rightarrow> u64 \<Rightarrow> link \<Rightarrow> bytes list list \<Rightarrow> bool" where
  "link_inv k limit ln Es \<equiv> dest_inv k limit (ln_dest ln) (ln_worker ln) Es (ln_sent ln) (ln_out ln)"

lemma link_inv_event: "link_inv k limit ln Es \<Longrightarrow> link_inv k limit (link_event k durable ev ln) Es"
proof -
  assume inv: "link_inv k limit ln Es"
  show ?thesis
  proof (cases ev)
    case Wake
    show ?thesis
    proof (cases "ln_worker ln")
      case Idle
      with Wake inv show ?thesis
        by (cases "worker_wake (ln_dest ln)") (auto simp: link_event_def intro: dest_inv_take dest_inv_leave)
    qed (use Wake inv in \<open>simp_all add: link_event_def\<close>)
  next
    case (Flush sock)
    show ?thesis
    proof (cases "ln_worker ln")
      case (Busy w)
      show ?thesis
      proof (cases "flush_batch_direct k durable (wk_frames w) [sock] (de_counters (ln_dest ln))")
        case (Some x)
        obtain ok c outs where x: "x = (ok, c, outs)" by (cases x)
        from dest_inv_flush [OF inv [unfolded Busy] Some [unfolded x]] show ?thesis
          by (simp add: link_event_def Flush Busy Some x)
      qed (use Flush Busy inv in \<open>simp add: link_event_def\<close>)
    qed (use Flush inv in \<open>simp_all add: link_event_def\<close>)
  qed
qed

lemma dest_run_inv:
  assumes "dest_run k durable limit ln Es" and "unat limit < 2 ^ 32"
  shows "link_inv k limit ln Es"
  using assms
proof (induction rule: dest_run.induct)
  case start
  show ?case by (simp add: dest_inv_def link_init_def dest_init_def queued_def total_bytes_def)
next
  case (enqueue ln Es fs)
  then show ?case by (simp add: enqueue_link_def dest_inv_enqueue)
next
  case (event ln Es ev)
  then show ?case by (simp add: link_inv_event)
next
  case (finish ln Es)
  then show ?case by (auto simp: dest_inv_def finish_link_def finish_dest_def queued_def)
qed

lemma fanout_history:
  assumes "dest_run k durable limit ln Es" and "unat limit < 2 ^ 32"
  shows "prefix (ln_sent ln) Es \<and>
    (\<exists>p. ln_out ln = concat (map (\<lambda>fs. concat (replicate k fs)) (ln_sent ln)) @ p \<and>
       (p = [] \<or> ln_worker ln = Gone \<and> de_failed (ln_dest ln) \<and>
         (\<exists>fs Es'. Es = ln_sent ln @ fs # Es' \<and> partly p (concat (replicate k fs))))) \<and>
    of_nat (frame_count Es) =
      of_nat (frame_count (ln_sent ln @ held (ln_worker ln) @ queued (ln_dest ln))) + de_rejected (ln_dest ln) \<and>
    total_bytes (queued (ln_dest ln)) \<le> unat limit \<and>
    (\<not> de_failed (ln_dest ln) \<longrightarrow> Es = ln_sent ln @ held (ln_worker ln) @ queued (ln_dest ln)) \<and>
    (\<not> de_failed (ln_dest ln) \<and> ln_worker ln = Gone \<longrightarrow> Es = ln_sent ln)"
proof -
  let ?d = "ln_dest ln"
  note inv = dest_run_inv [OF assms]
  obtain R where R: "Es = ln_sent ln @ held (ln_worker ln) @ queued ?d @ R" "\<not> de_failed ?d \<longrightarrow> R = []"
    "de_rejected ?d = of_nat (frame_count R)"
    "if ln_worker ln = Gone then out_inv k (ln_sent ln) R (ln_out ln)
     else ln_out ln = concat (map (\<lambda>fs. concat (replicate k fs)) (ln_sent ln))"
    using inv by (rule dest_invD)
  have q: "de_failed ?d \<Longrightarrow> queued ?d = []" "ln_worker ln = Gone \<Longrightarrow> \<not> de_failed ?d \<Longrightarrow> queued ?d = []"
    using inv by (auto simp: dest_inv_def queued_def)
  have "\<exists>p. ln_out ln = concat (map (\<lambda>fs. concat (replicate k fs)) (ln_sent ln)) @ p \<and>
       (p = [] \<or> ln_worker ln = Gone \<and> de_failed ?d \<and>
         (\<exists>fs Es'. Es = ln_sent ln @ fs # Es' \<and> partly p (concat (replicate k fs))))"
  proof (cases "ln_worker ln = Gone")
    case True
    then obtain p where p: "ln_out ln = concat (map (\<lambda>fs. concat (replicate k fs)) (ln_sent ln)) @ p"
      "p = [] \<or> (\<exists>fs R'. R = fs # R' \<and> partly p (concat (replicate k fs)))"
      using R(4) by (auto simp: out_inv_def)
    have "de_failed ?d" if "R \<noteq> []" using that R(2) by blast
    then show ?thesis using p True R(1) q(1) by (intro exI [of _ p]) auto
  qed (use R(4) in simp)
  moreover have "total_bytes (queued ?d) \<le> unat limit" using inv by (simp add: dest_inv_def)
  ultimately show ?thesis using R(1-3) q(2) by (auto simp: algebra_simps)
qed

text \<open>
  C7. A destination loses nothing silently and never reorders: under every schedule of the main
  thread and the worker, the batches sent so far are a prefix of the batches enqueued; the socket
  got their frames in order, each batch as often as \<open>--repeat\<close> asks, and nothing else, except
  that after a failed flush, when the worker has ended, it may also have got a part of the batch
  that failed (which is counted as rejected as a whole); the frames enqueued are those sent, being
  sent, queued or counted as rejected; the queue stays within its byte limit; as long as the
  destination has not failed nothing was rejected, and when its worker has then ended everything
  was sent. The limit is below 4 GiB and so is every batch, as the command line ensures.
\<close>

theorem fanout_fifo:
  assumes "dest_run k durable limit ln Es" and "unat limit < 2 ^ 32"
  shows "prefix (ln_sent ln) Es \<and>
    (\<exists>p. ln_out ln = concat (map (\<lambda>fs. concat (replicate k fs)) (ln_sent ln)) @ p \<and>
       (p = [] \<or> ln_worker ln = Gone \<and> de_failed (ln_dest ln) \<and>
         (\<exists>fs Es'. Es = ln_sent ln @ fs # Es' \<and> partly p (concat (replicate k fs))))) \<and>
    of_nat (frame_count Es) =
      of_nat (frame_count (ln_sent ln @ held (ln_worker ln) @ queued (ln_dest ln))) + de_rejected (ln_dest ln) \<and>
    total_bytes (queued (ln_dest ln)) \<le> unat limit \<and>
    (\<not> de_failed (ln_dest ln) \<longrightarrow> Es = ln_sent ln @ held (ln_worker ln) @ queued (ln_dest ln)) \<and>
    (\<not> de_failed (ln_dest ln) \<and> ln_worker ln = Gone \<longrightarrow> Es = ln_sent ln)"
  by (rule fanout_history [OF assms])

text \<open>A run: two batches of two datagrams, the first sent, the second failing after one datagram.\<close>

definition failing_link :: link where
  "failing_link = foldl (\<lambda>ln ev. link_event 1 False ev ln)
     (enqueue_link 1000 [[3], [4]] (enqueue_link 1000 [[7, 8], [9]] link_init))
     [Wake, Flush (DgramSocket [Sent [2, 1]]), Wake, Flush (DgramSocket [Sent [1], SendFailed])]"

lemma failing_link_run: "dest_run 1 False 1000 failing_link [[[7, 8], [9]], [[3], [4]]]"
proof -
  have "dest_run 1 False 1000 (enqueue_link 1000 [[3], [4]] (enqueue_link 1000 [[7, 8], [9]] link_init))
      (([] @ [[[7, 8], [9]]]) @ [[[3], [4]]])"
    by (intro dest_run.enqueue dest_run.start)
      (simp_all add: link_init_def dest_init_def enqueue_link_def enqueue_dest_def batch_bytes_def)
  then show ?thesis unfolding failing_link_def by (simp add: dest_run.event)
qed

lemma failing_link_eq:
  "ln_sent failing_link = [[[7, 8], [9]]]" "ln_out failing_link = [[7, 8], [9], [3]]" "ln_worker failing_link = Gone"
  "de_failed (ln_dest failing_link)" "de_rejected (ln_dest failing_link) = 2"
  by (simp_all add: failing_link_def link_init_def dest_init_def enqueue_link_def enqueue_dest_def batch_bytes_def
      link_event_def worker_wake_def worker_done_def isolate_def flush_batch_direct_def flush_socket_def Let_def)

lemma fanout_fifo_witness:
  "dest_run 1 False 1000 failing_link [[[7, 8], [9]], [[3], [4]]] \<and> prefix (ln_sent failing_link) [[[7, 8], [9]], [[3], [4]]] \<and>
   (\<exists>p. ln_out failing_link = concat (map (\<lambda>fs. concat (replicate 1 fs)) (ln_sent failing_link)) @ p \<and> p = [[3]])"
  using fanout_fifo [OF failing_link_run] failing_link_run by (simp add: failing_link_eq)

end
