(* ===== verification/Sender.thy ===== *)
theory Sender
  imports Sender_Config Fanout Multiplex Sink Metrics
begin

text \<open>
  The main loop of the sender, \<open>sender.cpp\<close>: reading the ring, stamping the stream identity,
  encoding, forward error correction, the test impairments, batching, and the end of the run.
  Writing outside one of its buffers is the outcome \<open>Undef\<close>.
\<close>

section \<open>Outcomes\<close>

text \<open>
  \<open>Quit n\<close> is \<open>return n\<close>, \<open>Raised\<close> an exception, \<open>Undef\<close> undefined behaviour and \<open>Running\<close> a loop
  that has not ended when the trace does.
\<close>

datatype 'a outcome = Done 'a | Quit int | Raised exn | Undef | Running

fun bind_out :: "'a outcome \<Rightarrow> ('a \<Rightarrow> 'b outcome) \<Rightarrow> 'b outcome" where
  "bind_out (Done x) f = f x"
| "bind_out (Quit n) f = Quit n"
| "bind_out (Raised e) f = Raised e"
| "bind_out Undef f = Undef"
| "bind_out Running f = Running"

definition lift_out :: "exn + 'a \<Rightarrow> 'a outcome" where
  "lift_out m = (case m of Inl e \<Rightarrow> Raised e | Inr x \<Rightarrow> Done x)"

text \<open>\<open>if (!step) return 1\<close>.\<close>

definition require :: "(bool \<times> 's) outcome \<Rightarrow> 's outcome" where
  "require m = bind_out m (\<lambda>(ok, s). if ok then Done s else Quit 1)"

section \<open>The sending side\<close>

text \<open>
  With one destination the main thread flushes to its socket: \<open>nt_socks\<close> is what the kernel answers
  to the flushes to come and \<open>nt_out\<close> what went out. With several, every destination has its queue
  and worker, and \<open>nt_schedule\<close> is what the workers do before each \<open>enqueue\<close> to come.
\<close>

record net =
  nt_counters :: send_counters
  nt_socks :: "socket_env list"
  nt_out :: "bytes list"
  nt_links :: "link list"
  nt_schedule :: "(nat \<times> event) list list"

definition net_init :: "sender_config \<Rightarrow> socket_env list \<Rightarrow> (nat \<times> event) list list \<Rightarrow> net" where
  "net_init cfg socks schedule = \<lparr>nt_counters = counters_init, nt_socks = socks, nt_out = [],
     nt_links = map (\<lambda>_. link_init) (sc_destinations cfg), nt_schedule = schedule\<rparr>"

definition has_fanout :: "sender_config \<Rightarrow> bool" where
  "has_fanout cfg \<longleftrightarrow> length (sc_destinations cfg) > 1"

definition flush_direct :: "sender_config \<Rightarrow> bytes list \<Rightarrow> net \<Rightarrow> (bool \<times> net) option" where
  "flush_direct cfg packets n =
     (case nt_socks n of [] \<Rightarrow> None
      | sock # socks \<Rightarrow>
          map_option (\<lambda>(ok, c, outs). (ok, n\<lparr>nt_counters := c, nt_socks := socks, nt_out := nt_out n @ concat outs\<rparr>))
            (flush_batch_direct (unat (sc_repeat cfg)) (sc_durable_acks cfg) packets [sock] (nt_counters n)))"

definition flush_fanout :: "sender_config \<Rightarrow> bytes list \<Rightarrow> net \<Rightarrow> net" where
  "flush_fanout cfg packets n =
     (let (evs, schedule) = (case nt_schedule n of [] \<Rightarrow> ([], []) | evs # schedule \<Rightarrow> (evs, schedule));
          lns = run_schedule (unat (sc_repeat cfg)) (sc_durable_acks cfg) evs (nt_links n)
      in n\<lparr>nt_links := enqueue (sc_queue_bytes cfg) packets lns, nt_schedule := schedule\<rparr>)"

definition send_batch :: "sender_config \<Rightarrow> bytes list \<Rightarrow> net \<Rightarrow> (bool \<times> net) option" where
  "send_batch cfg packets n =
     (if \<not> has_fanout cfg then flush_direct cfg packets n else Some (True, flush_fanout cfg packets n))"

section \<open>State and surroundings\<close>

text \<open>
  The variables of \<open>run\<close>. The batch is the list of its datagrams. The last four fields count the calls to the clock, the
  random generator, the ring and the echo socket, whose answers the world gives by number.
\<close>

record sender =
  sn_frames :: "bytes list"
  sn_first_ns :: u64
  sn_net :: net
  sn_pending :: "(bytes \<times> u64) list"
  sn_encoder :: encoder
  sn_fec_first_ns :: u64
  sn_fec_last_arrival_ns :: u64
  sn_fec_gen_id :: u32
  sn_intervals :: "u64 list"
  sn_read_index :: u64
  sn_sent :: u64
  sn_lapped :: u64
  sn_skipped :: u64
  sn_parity_sent :: u64
  sn_closed_by_k :: u64
  sn_closed_by_timeout :: u64
  sn_closed_by_flush :: u64
  sn_data_bytes :: u64
  sn_parity_bytes :: u64
  sn_dropped :: u64
  sn_reordered :: u64
  sn_last_progress :: u64
  sn_echo :: region
  sn_echoed :: u64
  sn_tick :: nat
  sn_draw :: nat
  sn_reads :: nat
  sn_drains :: nat

text \<open>One answer of the echo socket.\<close>

datatype echo_recv = Echo bytes | EchoInterrupted | EchoNothing | EchoError

text \<open>
  The configuration and what the surroundings answer: the ring the sender reads (its region and
  the lock at every read), the clock, the random generator, the echo socket, and \<open>publish\<close> on the
  echo ring, with its waits resolved.
\<close>

record world =
  wd_cfg :: sender_config
  wd_reader :: ring
  wd_pub :: "region \<Rightarrow> bytes \<Rightarrow> exn + region"
  wd_clk :: "nat \<Rightarrow> u64"
  wd_rnd :: "nat \<Rightarrow> u64"
  wd_ring :: "nat \<Rightarrow> region \<times> (exn + bool)"
  wd_echo :: "nat \<Rightarrow> echo_recv list"

definition clock :: "world \<Rightarrow> sender \<Rightarrow> u64 \<times> sender" where
  "clock W s = (wd_clk W (sn_tick s), s\<lparr>sn_tick := Suc (sn_tick s)\<rparr>)"

definition draw :: "world \<Rightarrow> sender \<Rightarrow> u64 \<times> sender" where
  "draw W s = (wd_rnd W (sn_draw s), s\<lparr>sn_draw := Suc (sn_draw s)\<rparr>)"

section \<open>Batching\<close>

definition datagram_cap :: nat where
  "datagram_cap = max_frame + kEnvelopeSize + 2 + mux_header_size"

definition batch_cap :: "world \<Rightarrow> nat" where
  "batch_cap W = unat (sc_batch_size (wd_cfg W))"

definition queue_datagram :: "world \<Rightarrow> bytes \<Rightarrow> sender \<Rightarrow> sender outcome" where
  "queue_datagram W data s =
     (if length (sn_frames s) \<ge> batch_cap W \<or> length data > datagram_cap then Undef
      else let s = (if sn_frames s = [] then let (t, s) = clock W s in s\<lparr>sn_first_ns := t\<rparr> else s)
           in Done (s\<lparr>sn_frames := sn_frames s @ [data]\<rparr>))"

definition sender_key :: "world \<Rightarrow> key" where
  "sender_key W = Key (sc_stream_id (wd_cfg W)) (sc_stream_epoch (wd_cfg W))"

definition flush_batch :: "world \<Rightarrow> sender \<Rightarrow> (bool \<times> sender) outcome" where
  "flush_batch W s =
     (if sn_frames s = [] then Done (True, s)
      else let packets = map (wrap (sender_key W)) (sn_frames s)
           in if list_ex (\<lambda>p. length p > datagram_cap) packets then Undef
              else case send_batch (wd_cfg W) packets (sn_net s) of
                     None \<Rightarrow> Running
                   | Some (ok, n) \<Rightarrow>
                       Done (ok, if ok then s\<lparr>sn_net := n, sn_frames := [], sn_first_ns := 0\<rparr>
                                 else s\<lparr>sn_net := n, sn_frames := packets\<rparr>))"

definition queue_or_flush :: "world \<Rightarrow> bytes \<Rightarrow> sender \<Rightarrow> (bool \<times> sender) outcome" where
  "queue_or_flush W data s = bind_out (queue_datagram W data s) (\<lambda>s.
     if length (sn_frames s) \<ge> batch_cap W then flush_batch W s else Done (True, s))"

section \<open>Impairments\<close>

text \<open>The loop of \<open>flush_pending\<close> over the delayed datagrams: those that stay are collected.\<close>

fun release :: "world \<Rightarrow> u64 \<Rightarrow> bool \<Rightarrow> (bytes \<times> u64) list \<Rightarrow> sender \<Rightarrow> (bool \<times> (bytes \<times> u64) list \<times> sender) outcome" where
  "release W now all [] s = Done (True, [], s)"
| "release W now all ((data, t) # ps) s =
     (if all \<or> t \<le> now then bind_out (queue_or_flush W data s) (\<lambda>(ok, s).
        if \<not> ok then Done (False, [], s) else release W now all ps s)
      else bind_out (release W now all ps s) (\<lambda>(ok, kept, s). Done (ok, (data, t) # kept, s)))"

definition flush_pending :: "world \<Rightarrow> u64 \<Rightarrow> bool \<Rightarrow> sender \<Rightarrow> (bool \<times> sender) outcome" where
  "flush_pending W now all s = bind_out (release W now all (sn_pending s) s) (\<lambda>(ok, kept, s).
     Done (ok, if ok then s\<lparr>sn_pending := kept\<rparr> else s))"

text \<open>\<open>enabled && dist(rng) < pct\<close>.\<close>

definition hit :: "world \<Rightarrow> bool \<Rightarrow> u64 \<Rightarrow> sender \<Rightarrow> bool \<times> sender" where
  "hit W enabled pct s = (if enabled then let (x, s) = draw W s in (d_less x pct, s) else (False, s))"

definition emit_now :: "world \<Rightarrow> bytes \<Rightarrow> sender \<Rightarrow> (bool \<times> sender) outcome" where
  "emit_now W data s = bind_out (queue_or_flush W data s) (\<lambda>(ok, s).
     if \<not> ok then Done (False, s)
     else let (now, s) = clock W s in flush_pending W now False s)"

definition emit_later :: "world \<Rightarrow> bytes \<Rightarrow> u64 \<Rightarrow> sender \<Rightarrow> (bool \<times> sender) outcome" where
  "emit_later W data now s =
     (if length (sn_pending s) \<ge> 65536 then Done (False, s)
      else Done (True, s\<lparr>sn_pending := sn_pending s @ [(data, now + sc_test_reorder_delay_us (wd_cfg W) * 1000)],
                         sn_reordered := sn_reordered s + 1\<rparr>))"

definition emit_datagram :: "world \<Rightarrow> bytes \<Rightarrow> sender \<Rightarrow> (bool \<times> sender) outcome" where
  "emit_datagram W data s =
     (let cfg = wd_cfg W; (now, s) = clock W s
      in bind_out (flush_pending W now False s) (\<lambda>(ok, s).
        if \<not> ok then Done (False, s)
        else let (dropped, s) = hit W (d_less 0 (sc_test_drop_pct cfg)) (sc_test_drop_pct cfg) s
        in if dropped then Done (True, s\<lparr>sn_dropped := sn_dropped s + 1\<rparr>)
        else let (delayed, s) = hit W (d_less 0 (sc_test_reorder_pct cfg) \<and> sc_test_reorder_delay_us cfg > 0)
                                  (sc_test_reorder_pct cfg) s
        in if delayed then emit_later W data now s else emit_now W data s))"

section \<open>Closing a generation\<close>

fun emit_extra :: "world \<Rightarrow> bytes list \<Rightarrow> sender \<Rightarrow> (bool \<times> sender) outcome" where
  "emit_extra W [] s = Done (True, s)"
| "emit_extra W (p # ps) s = bind_out (emit_datagram W p s) (\<lambda>(ok, s).
     if \<not> ok then Done (False, s)
     else emit_extra W ps (s\<lparr>sn_parity_sent := sn_parity_sent s + 1, sn_parity_bytes := sn_parity_bytes s + of_nat (length p)\<rparr>))"

definition count_close :: "u32 \<Rightarrow> sender \<Rightarrow> sender" where
  "count_close reason s =
     (if reason = 0 then s\<lparr>sn_closed_by_k := sn_closed_by_k s + 1\<rparr>
      else if reason = 1 then s\<lparr>sn_closed_by_timeout := sn_closed_by_timeout s + 1\<rparr>
      else s\<lparr>sn_closed_by_flush := sn_closed_by_flush s + 1\<rparr>)"

definition close_generation :: "world \<Rightarrow> u32 \<Rightarrow> sender \<Rightarrow> (bool \<times> sender) outcome" where
  "close_generation W reason s =
     (if sc_fec_k (wd_cfg W) = 0 \<or> enc_empty (sn_encoder s) then Done (True, s)
      else bind_out (lift_out (enc_close (sn_encoder s) (sn_fec_gen_id s) (ucast reason))) (\<lambda>(built, e).
        bind_out (emit_datagram W (bg_parity built) (s\<lparr>sn_encoder := e\<rparr>)) (\<lambda>(ok, s).
          if \<not> ok then Done (False, s)
          else bind_out (emit_extra W (bg_extra_parity built) s) (\<lambda>(ok, s).
            if \<not> ok then Done (False, s)
            else let s = s\<lparr>sn_parity_sent := sn_parity_sent s + 1,
                           sn_parity_bytes := sn_parity_bytes s + of_nat (length (bg_parity built))\<rparr>;
                     s = count_close reason s
                 in Done (True, s\<lparr>sn_fec_gen_id := sn_fec_gen_id s + 1, sn_fec_first_ns := 0\<rparr>)))))"

section \<open>Echoes\<close>

fun drain :: "world \<Rightarrow> echo_recv list \<Rightarrow> sender \<Rightarrow> (bool \<times> sender) outcome" where
  "drain W [] s = Running"
| "drain W (EchoInterrupted # rs) s = drain W rs s"
| "drain W (EchoNothing # rs) s = Done (True, s)"
| "drain W (EchoError # rs) s = Done (False, s)"
| "drain W (Echo d # rs) s =
     (if length d < sizeof_Header then Done (False, s)
      else bind_out (lift_out (unwrap d (Key 0 0))) (\<lambda>(ok, payload, k).
        if \<not> ok then Done (False, s)
        else case decode (Some payload) True of None \<Rightarrow> Done (False, s)
        | Some native \<Rightarrow> bind_out (lift_out (wd_pub W (sn_echo s) native)) (\<lambda>g.
            drain W rs (s\<lparr>sn_echo := g, sn_echoed := sn_echoed s + 1\<rparr>))))"

definition echoing :: "world \<Rightarrow> bool" where
  "echoing W \<longleftrightarrow> sc_echo_out_shm (wd_cfg W) \<noteq> []"

definition drain_echo :: "world \<Rightarrow> sender \<Rightarrow> (bool \<times> sender) outcome" where
  "drain_echo W s =
     (if \<not> echoing W then Done (True, s)
      else drain W (wd_echo W (sn_drains s)) (s\<lparr>sn_drains := Suc (sn_drains s)\<rparr>))"

section \<open>Reading the ring\<close>

definition ring_read :: "world \<Rightarrow> sender \<Rightarrow> (frame_status \<times> bytes \<times> u64 \<times> sender) outcome" where
  "ring_read W s =
     (case wd_ring W (sn_reads s) of (g, lock) \<Rightarrow>
        bind_out (lift_out (read g (wd_reader W) (sn_read_index s) lock)) (\<lambda>(st, frame, resume, _).
          Done (st, frame, resume, s\<lparr>sn_reads := Suc (sn_reads s)\<rparr>)))"

text \<open>
  The stream identity goes into the header. A frame shorter than a header stays as it is here and
  is refused by \<open>encode\<close>.
\<close>

definition stamp :: "world \<Rightarrow> bytes \<Rightarrow> bytes" where
  "stamp W f =
     (case load (get_header LE) f of Inl _ \<Rightarrow> f
      | Inr h \<Rightarrow> put_header LE (h\<lparr>stream_id := sc_stream_id (wd_cfg W), stream_epoch := sc_stream_epoch (wd_cfg W)\<rparr>) @
          drop sizeof_Header f)"

definition count_lap :: "u64 \<Rightarrow> sender \<Rightarrow> sender" where
  "count_lap resume s =
     s\<lparr>sn_lapped := sn_lapped s + 1,
       sn_skipped := (if resume > sn_read_index s then sn_skipped s + (resume - sn_read_index s) else sn_skipped s),
       sn_read_index := resume\<rparr>"

definition wants_more :: "world \<Rightarrow> sender \<Rightarrow> bool" where
  "wants_more W s \<longleftrightarrow> sc_count (wd_cfg W) = 0 \<or> sn_sent s < sc_count (wd_cfg W)"

text \<open>The inner loop of the fast path fills the batch.\<close>

definition fast_store :: "world \<Rightarrow> u64 \<Rightarrow> bytes \<Rightarrow> sender \<Rightarrow> sender" where
  "fast_store W now enc s =
     s\<lparr>sn_data_bytes := sn_data_bytes s + of_nat (length enc), sn_first_ns := (if sn_frames s = [] then now else sn_first_ns s),
       sn_frames := sn_frames s @ [enc], sn_sent := sn_sent s + 1, sn_read_index := sn_read_index s + 1\<rparr>"

function fast_fill :: "world \<Rightarrow> u64 \<Rightarrow> bool \<Rightarrow> sender \<Rightarrow> (bool \<times> sender) outcome" where
  "fast_fill W now progress s =
     (if \<not> (length (sn_frames s) < batch_cap W \<and> wants_more W s) then Done (progress, s)
      else case ring_read W s of
        Done (st, frame, resume, s') \<Rightarrow>
          if st = kOk then
            if length frame > datagram_cap then Undef
            else (case encode (Some (stamp W frame)) of
                    Inl e \<Rightarrow> Raised e
                  | Inr enc \<Rightarrow>
                      if length enc > datagram_cap then Undef
                      else fast_fill W now True (fast_store W now enc (s\<lparr>sn_reads := Suc (sn_reads s)\<rparr>)))
          else if st = kLapped then Done (progress, count_lap resume s')
          else if st = kCorrupt then Quit 1
          else Done (progress, s')
      | Quit n \<Rightarrow> Quit n | Raised e \<Rightarrow> Raised e | Undef \<Rightarrow> Undef | Running \<Rightarrow> Running)"
  by pat_completeness auto
termination
  by (relation "measure (\<lambda>(W, now, progress, s). batch_cap W - length (sn_frames s))") (auto simp: fast_store_def)

declare fast_fill.simps [simp del]

section \<open>One turn of the main loop\<close>

definition plain_fast_path :: "world \<Rightarrow> bool" where
  "plain_fast_path W \<longleftrightarrow> sc_fec_k (wd_cfg W) = 0 \<and> d_eq (sc_test_drop_pct (wd_cfg W)) 0 \<and>
     d_eq (sc_test_reorder_pct (wd_cfg W)) 0 \<and> \<not> echoing W"

text \<open>After a turn without progress: \<open>False\<close> leaves the loop.\<close>

definition idle_check :: "world \<Rightarrow> u64 \<Rightarrow> sender \<Rightarrow> bool" where
  "idle_check W now s \<longleftrightarrow> \<not> now - sn_last_progress s > sc_idle_ms (wd_cfg W) * 1000000"

definition fast_turn :: "world \<Rightarrow> u64 \<Rightarrow> sender \<Rightarrow> (bool \<times> sender) outcome" where
  "fast_turn W now s = bind_out (fast_fill W now False s) (\<lambda>(progress, s).
     bind_out (if length (sn_frames s) \<ge> batch_cap W then require (flush_batch W s) else Done s) (\<lambda>s.
       let s = (if progress then s\<lparr>sn_last_progress := now\<rparr> else s)
       in bind_out (if sn_frames s \<noteq> [] then require (flush_batch W s) else Done s) (\<lambda>s.
            if progress then Done (True, s)
            else let (now, s) = clock W s in Done (idle_check W now s, s))))"

text \<open>The frame goes out as it is, or as a data datagram of the current generation.\<close>

definition send_plain :: "world \<Rightarrow> bytes \<Rightarrow> sender \<Rightarrow> sender outcome" where
  "send_plain W enc s =
     require (emit_datagram W enc (s\<lparr>sn_data_bytes := sn_data_bytes s + of_nat (length enc)\<rparr>))"

definition note_arrival :: "u64 \<Rightarrow> sender \<Rightarrow> sender" where
  "note_arrival now s =
     s\<lparr>sn_intervals := (if sn_fec_last_arrival_ns s \<noteq> 0
                        then sample (sn_intervals s) (now - sn_fec_last_arrival_ns s) (sn_sent s) else sn_intervals s),
       sn_fec_last_arrival_ns := now\<rparr>"

definition send_fec :: "world \<Rightarrow> u64 \<Rightarrow> bytes \<Rightarrow> sender \<Rightarrow> sender outcome" where
  "send_fec W now enc s =
     (let s = note_arrival now s;
          s = (if enc_empty (sn_encoder s) then s\<lparr>sn_fec_first_ns := now\<rparr> else s);
          index = enc_size (sn_encoder s);
          (ok, e) = enc_add (sn_encoder s) (Some enc) (of_nat (length enc));
          s = s\<lparr>sn_encoder := e\<rparr>
      in if \<not> ok then Quit 1
         else let data = data_datagram (sn_fec_gen_id s) index (sc_fec_k (wd_cfg W)) enc (of_nat (length enc));
                  s = s\<lparr>sn_data_bytes := sn_data_bytes s + of_nat (length data)\<rparr>
              in bind_out (require (emit_datagram W data s)) (\<lambda>s.
                   if enc_full (sn_encoder s) then require (close_generation W 0 s) else Done s))"

definition slow_turn :: "world \<Rightarrow> u64 \<Rightarrow> sender \<Rightarrow> (bool \<times> sender) outcome" where
  "slow_turn W now s = bind_out (ring_read W s) (\<lambda>(st, frame, resume, s).
     if st = kOk then bind_out (lift_out (encode (Some (stamp W frame)))) (\<lambda>enc.
       if length frame > max_frame + 64 \<or> length enc > max_frame + 64 then Undef
       else bind_out (if sc_fec_k (wd_cfg W) = 0 then send_plain W enc s else send_fec W now enc s) (\<lambda>s.
         Done (True, s\<lparr>sn_sent := sn_sent s + 1, sn_read_index := sn_read_index s + 1, sn_last_progress := now\<rparr>)))
     else if st = kLapped then Done (True, count_lap resume s)
     else if st = kCorrupt then Quit 1
     else let (now, s) = clock W s
          in bind_out (require (flush_pending W now False s)) (\<lambda>s.
             bind_out (require (flush_batch W s)) (\<lambda>s. Done (idle_check W now s, s))))"

definition sender_turn :: "world \<Rightarrow> sender \<Rightarrow> (bool \<times> sender) outcome" where
  "sender_turn W s = bind_out (require (drain_echo W s)) (\<lambda>s.
     let (now, s) = clock W s
     in bind_out (if sn_frames s \<noteq> [] \<and> now - sn_first_ns s \<ge> sc_batch_timeout_us (wd_cfg W) * 1000
                  then require (flush_batch W s) else Done s) (\<lambda>s.
        bind_out (if sc_fec_k (wd_cfg W) \<noteq> 0 \<and> \<not> enc_empty (sn_encoder s) \<and>
                     now - sn_fec_first_ns s \<ge> sc_fec_timeout_us (wd_cfg W) * 1000
                  then require (close_generation W 1 s) else Done s) (\<lambda>s.
          if plain_fast_path W then fast_turn W now s else slow_turn W now s)))"

text \<open>The loop, on the stop flag of every turn; the result says whether it ended by idling.\<close>

fun sender_loop :: "world \<Rightarrow> sender \<Rightarrow> bool list \<Rightarrow> (bool \<times> sender) outcome" where
  "sender_loop W s [] = Running"
| "sender_loop W s (stop # stops) =
     (if stop \<or> \<not> wants_more W s then Done (False, s)
      else bind_out (sender_turn W s) (\<lambda>(go, s). if go then sender_loop W s stops else Done (True, s)))"

section \<open>Start and end of the run\<close>

definition sender_start :: "world \<Rightarrow> region \<Rightarrow> region \<Rightarrow> net \<Rightarrow> sender outcome" where
  "sender_start W g echo net =
     bind_out (lift_out (encoder_new (if sc_fec_k (wd_cfg W) = 0 then 1 else sc_fec_k (wd_cfg W)) (sc_fec_parity (wd_cfg W)))) (\<lambda>e.
       Done \<lparr>sn_frames = [], sn_first_ns = 0, sn_net = net, sn_pending = [], sn_encoder = e, sn_fec_first_ns = 0,
         sn_fec_last_arrival_ns = 0, sn_fec_gen_id = 0, sn_intervals = [],
         sn_read_index = (if sc_from_edge (wd_cfg W) then live_edge g else 0), sn_sent = 0, sn_lapped = 0, sn_skipped = 0,
         sn_parity_sent = 0, sn_closed_by_k = 0, sn_closed_by_timeout = 0, sn_closed_by_flush = 0, sn_data_bytes = 0,
         sn_parity_bytes = 0, sn_dropped = 0, sn_reordered = 0, sn_last_progress = wd_clk W 0, sn_echo = echo,
         sn_echoed = 0, sn_tick = 2, sn_draw = 0, sn_reads = 0, sn_drains = 0\<rparr>)"

text \<open>Waiting for the echoes, with a bound on the turns.\<close>

fun echo_wait :: "world \<Rightarrow> u64 \<Rightarrow> nat \<Rightarrow> sender \<Rightarrow> sender outcome" where
  "echo_wait W deadline 0 s = Running"
| "echo_wait W deadline (Suc fuel) s =
     (if \<not> sn_echoed s < sk_packets (nt_counters (sn_net s)) then Done s
      else bind_out (require (drain_echo W s)) (\<lambda>s.
        let (now, s) = clock W s in if now > deadline then Quit 1 else echo_wait W deadline fuel s))"

definition sender_drain :: "world \<Rightarrow> nat \<Rightarrow> sender \<Rightarrow> sender outcome" where
  "sender_drain W fuel s = bind_out (require (close_generation W 2 s)) (\<lambda>s.
     let (now, s) = clock W s
     in bind_out (require (flush_pending W now True s)) (\<lambda>s.
        bind_out (require (flush_batch W s)) (\<lambda>s.
          if echoing W then let (now, s) = clock W s
            in echo_wait W (now + sc_echo_timeout_ms (wd_cfg W) * 1000000) fuel s
          else Done s)))"

definition sender_exit :: "world \<Rightarrow> bool \<Rightarrow> sender \<Rightarrow> int" where
  "sender_exit W destinations_ok s =
     (if \<not> destinations_ok then 1
      else if sc_count (wd_cfg W) \<noteq> 0 \<and> sn_sent s < sc_count (wd_cfg W) then 1 else 0)"

definition sender_run :: "world \<Rightarrow> region \<Rightarrow> region \<Rightarrow> net \<Rightarrow> bool list \<Rightarrow> nat \<Rightarrow> sender outcome" where
  "sender_run W g echo net stops fuel = bind_out (sender_start W g echo net) (\<lambda>s.
     bind_out (sender_loop W s stops) (\<lambda>(idle, s). sender_drain W fuel s))"

text \<open>
  \<open>finish\<close>, with what the workers do until they have all been joined: \<open>None\<close> when one of them has
  not ended at the end of its schedule.
\<close>

definition sender_finish :: "sender_config \<Rightarrow> (nat \<times> event) list \<Rightarrow> net \<Rightarrow> (bool \<times> net) option" where
  "sender_finish cfg evs n =
     (if \<not> has_fanout cfg then Some (True, n)
      else let lns = run_schedule (unat (sc_repeat cfg)) (sc_durable_acks cfg) evs (map finish_link (nt_links n));
               (ok, c) = finish_totals (map ln_dest lns) (nt_counters n)
           in if list_all (\<lambda>ln. ln_worker ln = Gone) lns then Some (ok, n\<lparr>nt_links := lns, nt_counters := c\<rparr>) else None)"

text \<open>The whole run with its exit code.\<close>

definition sender_main :: "world \<Rightarrow> region \<Rightarrow> region \<Rightarrow> net \<Rightarrow> bool list \<Rightarrow> nat \<Rightarrow> (nat \<times> event) list \<Rightarrow>
    (int \<times> sender) outcome" where
  "sender_main W g echo net stops fuel evs = bind_out (sender_run W g echo net stops fuel) (\<lambda>s.
     case sender_finish (wd_cfg W) evs (sn_net s) of None \<Rightarrow> Running
     | Some (ok, n) \<Rightarrow> Done (sender_exit W ok s, s\<lparr>sn_net := n\<rparr>))"

section \<open>No write outside the buffers\<close>

definition safe :: "('a \<Rightarrow> bool) \<Rightarrow> 'a outcome \<Rightarrow> bool" where
  "safe P m \<longleftrightarrow> m \<noteq> Undef \<and> (\<forall>x. m = Done x \<longrightarrow> P x)"

lemma safe_simps [simp]:
  "safe P (Done x) = P x" "safe P (Quit n)" "safe P (Raised e)" "\<not> safe P Undef" "safe P Running"
  by (simp_all add: safe_def)

lemma safe_bind: "safe P m \<Longrightarrow> (\<And>x. P x \<Longrightarrow> safe Q (f x)) \<Longrightarrow> safe Q (bind_out m f)"
  by (cases m) auto

lemma safe_bind_pair: "safe P m \<Longrightarrow> (\<And>a b. P (a, b) \<Longrightarrow> safe Q (f a b)) \<Longrightarrow> safe Q (bind_out m (\<lambda>(a, b). f a b))"
  by (erule safe_bind) auto

lemma safe_lift: "(\<And>x. m = Inr x \<Longrightarrow> P x) \<Longrightarrow> safe P (lift_out m)"
  by (auto simp: lift_out_def split: sum.splits)

lemma safe_mono: "safe P m \<Longrightarrow> (\<And>x. P x \<Longrightarrow> Q x) \<Longrightarrow> safe Q m"
  by (cases m) auto

lemma safe_require: "safe (\<lambda>(ok, s). ok \<longrightarrow> P s) m \<Longrightarrow> safe P (require m)"
  unfolding require_def by (cases m) auto

text \<open>The largest datagram before it gets its stream header.\<close>

definition payload_cap :: nat where
  "payload_cap = max_frame + kEnvelopeSize + 2"

text \<open>The batch has room for one more, and everything waiting fits a buffer.\<close>

definition fits :: "nat \<Rightarrow> sender \<Rightarrow> bool" where
  "fits n s \<longleftrightarrow> length (sn_frames s) < n \<and> (\<forall>f\<in>set (sn_frames s). length f \<le> payload_cap) \<and>
     (\<forall>p\<in>set (sn_pending s). length (fst p) \<le> payload_cap) \<and> enc_wf (sn_encoder s)"

abbreviation ready :: "world \<Rightarrow> sender \<Rightarrow> bool" where
  "ready W s \<equiv> fits (batch_cap W) s"

abbreviation ready_if :: "world \<Rightarrow> bool \<times> sender \<Rightarrow> bool" where
  "ready_if W \<equiv> \<lambda>(ok, s). ok \<longrightarrow> ready W s"

lemma fits_simps [simp]:
  "fits n (s\<lparr>sn_first_ns := a\<rparr>) = fits n s" "fits n (s\<lparr>sn_net := b\<rparr>) = fits n s"
  "fits n (s\<lparr>sn_tick := t\<rparr>) = fits n s" "fits n (s\<lparr>sn_draw := t\<rparr>) = fits n s" "fits n (s\<lparr>sn_reads := t\<rparr>) = fits n s"
  "fits n (s\<lparr>sn_drains := t\<rparr>) = fits n s" "fits n (s\<lparr>sn_dropped := a\<rparr>) = fits n s" "fits n (s\<lparr>sn_reordered := a\<rparr>) = fits n s"
  "fits n (s\<lparr>sn_parity_sent := a\<rparr>) = fits n s" "fits n (s\<lparr>sn_parity_bytes := a\<rparr>) = fits n s"
  "fits n (s\<lparr>sn_data_bytes := a\<rparr>) = fits n s" "fits n (s\<lparr>sn_fec_gen_id := g\<rparr>) = fits n s"
  "fits n (s\<lparr>sn_fec_first_ns := a\<rparr>) = fits n s" "fits n (s\<lparr>sn_closed_by_k := a\<rparr>) = fits n s"
  "fits n (s\<lparr>sn_closed_by_timeout := a\<rparr>) = fits n s" "fits n (s\<lparr>sn_closed_by_flush := a\<rparr>) = fits n s"
  "fits n (s\<lparr>sn_sent := a\<rparr>) = fits n s" "fits n (s\<lparr>sn_read_index := a\<rparr>) = fits n s" "fits n (s\<lparr>sn_last_progress := a\<rparr>) = fits n s"
  "fits n (s\<lparr>sn_lapped := a\<rparr>) = fits n s" "fits n (s\<lparr>sn_skipped := a\<rparr>) = fits n s"
  "fits n (s\<lparr>sn_echo := e\<rparr>) = fits n s" "fits n (s\<lparr>sn_echoed := a\<rparr>) = fits n s"
  "fits n (s\<lparr>sn_fec_last_arrival_ns := a\<rparr>) = fits n s" "fits n (s\<lparr>sn_intervals := xs\<rparr>) = fits n s"
  by (simp_all add: fits_def)

lemma fits_clock [simp]: "fits n (snd (clock W s)) = fits n s" "fits n (snd (draw W s)) = fits n s"
  by (simp_all add: clock_def draw_def)

lemma safe_queue:
  assumes "ready W s" and "length data \<le> payload_cap" and "0 < batch_cap W"
  shows "safe (\<lambda>s'. fits (Suc (batch_cap W)) s' \<and> sn_pending s' = sn_pending s) (queue_datagram W data s)"
  using assms by (auto simp: queue_datagram_def fits_def datagram_cap_def payload_cap_def clock_def Let_def)

lemma safe_flush:
  assumes "fits (Suc (batch_cap W)) s" and "0 < batch_cap W"
  shows "safe (\<lambda>(ok, s'). ok \<longrightarrow> ready W s' \<and> sn_pending s' = sn_pending s) (flush_batch W s)"
proof (cases "sn_frames s = []")
  case True
  then show ?thesis using assms by (auto simp: flush_batch_def fits_def)
next
  case False
  have "\<not> list_ex (\<lambda>p. length p > datagram_cap) (map (wrap (sender_key W)) (sn_frames s))"
    using assms by (auto simp: fits_def list_ex_iff wrap_eq datagram_cap_def payload_cap_def mux_header_size_def not_less)
  then show ?thesis using assms False by (auto simp: flush_batch_def Let_def fits_def split: prod.splits option.splits)
qed

lemma fits_mono: "fits m s \<Longrightarrow> m \<le> n \<Longrightarrow> fits n s"
  by (auto simp: fits_def)

lemma safe_queue_or_flush:
  assumes "ready W s" and "length data \<le> payload_cap" and "0 < batch_cap W"
  shows "safe (\<lambda>(ok, s'). ok \<longrightarrow> ready W s' \<and> sn_pending s' = sn_pending s) (queue_or_flush W data s)"
  unfolding queue_or_flush_def
proof (rule safe_bind [OF safe_queue [OF assms]])
  fix s' :: "sender" assume s': "fits (Suc (batch_cap W)) s' \<and> sn_pending s' = sn_pending s"
  show "safe (\<lambda>(ok, s'). ok \<longrightarrow> ready W s' \<and> sn_pending s' = sn_pending s)
      (if length (sn_frames s') \<ge> batch_cap W then flush_batch W s' else Done (True, s'))"
  proof (cases "length (sn_frames s') \<ge> batch_cap W")
    case True
    then show ?thesis using safe_flush [of W s'] s' assms(3) by (auto elim: safe_mono)
  next
    case False
    then show ?thesis using s' by (auto simp: fits_def)
  qed
qed

lemma safe_release:
  assumes "0 < batch_cap W"
  shows "ready W s \<Longrightarrow> \<forall>p\<in>set ps. length (fst p) \<le> payload_cap \<Longrightarrow>
    safe (\<lambda>(ok, kept, s'). ok \<longrightarrow> ready W s' \<and> set kept \<subseteq> set ps) (release W now all ps s)"
proof (induction ps arbitrary: s)
  case (Cons p ps)
  obtain data t where p: "p = (data, t)" by fastforce
  show ?case
  proof (cases "all \<or> t \<le> now")
    case True
    have "safe (\<lambda>(ok, kept, s'). ok \<longrightarrow> ready W s' \<and> set kept \<subseteq> set (p # ps))
        (bind_out (queue_or_flush W data s) (\<lambda>(ok, s). if \<not> ok then Done (False, [], s) else release W now all ps s))"
    proof (rule safe_bind_pair [OF safe_queue_or_flush [OF Cons.prems(1) _ assms]])
      fix ok s'
      assume "case (ok, s') of (ok, s') \<Rightarrow> ok \<longrightarrow> ready W s' \<and> sn_pending s' = sn_pending s"
      then have s': "ok \<Longrightarrow> ready W s'" by simp
      show "safe (\<lambda>(ok, kept, s'). ok \<longrightarrow> ready W s' \<and> set kept \<subseteq> set (p # ps))
          (if \<not> ok then Done (False, [], s') else release W now all ps s')"
      proof (cases ok)
        case True
        have "safe (\<lambda>(ok, kept, s'). ok \<longrightarrow> ready W s' \<and> set kept \<subseteq> set ps) (release W now all ps s')"
          using Cons.IH s' [OF True] Cons.prems(2) by simp
        then show ?thesis using True by (auto elim!: safe_mono)
      qed simp
    qed (use Cons.prems(2) p in simp)
    then show ?thesis using True p by simp
  next
    case False
    have "safe (\<lambda>(ok, kept, s'). ok \<longrightarrow> ready W s' \<and> set kept \<subseteq> set (p # ps))
        (bind_out (release W now all ps s) (\<lambda>(ok, kept, s). Done (ok, (data, t) # kept, s)))"
      by (rule safe_bind [OF Cons.IH]) (use Cons.prems p in auto)
    then show ?thesis using False p by simp
  qed
qed simp

lemma safe_flush_pending:
  assumes "ready W s" and "0 < batch_cap W"
  shows "safe (ready_if W) (flush_pending W now all s)"
  unfolding flush_pending_def
proof (rule safe_bind [OF safe_release [OF assms(2,1)]])
  show "\<forall>p\<in>set (sn_pending s). length (fst p) \<le> payload_cap" using assms(1) by (simp add: fits_def)
  fix x :: "bool \<times> (bytes \<times> u64) list \<times> sender"
  obtain ok kept s' where x: "x = (ok, kept, s')" by (cases x)
  assume "case x of (ok, kept, s') \<Rightarrow> ok \<longrightarrow> ready W s' \<and> set kept \<subseteq> set (sn_pending s)"
  then have "ok \<Longrightarrow> ready W s'" "ok \<Longrightarrow> set kept \<subseteq> set (sn_pending s)" using x by auto
  then show "safe (ready_if W) (case x of (ok, kept, s) \<Rightarrow> Done (ok, if ok then s\<lparr>sn_pending := kept\<rparr> else s))"
    using x assms(1) by (cases ok) (auto simp: fits_def subset_iff)
qed

lemma fits_hit [simp]: "fits n (snd (hit W b p s)) = fits n s"
  by (simp add: hit_def draw_def)

lemma safe_emit:
  assumes "ready W s" and data: "length data \<le> payload_cap" and W: "0 < batch_cap W"
  shows "safe (ready_if W) (emit_datagram W data s)"
proof -
  have now: "safe (ready_if W) (emit_now W data s)" if "ready W s" for s
    unfolding emit_now_def
    by (rule safe_bind_pair [OF safe_queue_or_flush [OF that data W]])
      (auto simp: clock_def intro!: safe_flush_pending [OF _ W])
  have later: "safe (ready_if W) (emit_later W data t s)" if "ready W s" for t s
    using that data by (auto simp: emit_later_def fits_def)
  have tail: "safe (ready_if W) (let (dropped, s) = hit W b1 p1 s
      in if dropped then Done (True, s\<lparr>sn_dropped := sn_dropped s + 1\<rparr>)
         else let (delayed, s) = hit W b2 p2 s in if delayed then emit_later W data t s else emit_now W data s)"
    if "ready W s" for s b1 p1 b2 p2 t
    using that now later by (simp add: Let_def case_prod_unfold)
  have flush: "safe (ready_if W) (flush_pending W t False (s\<lparr>sn_tick := u\<rparr>))" for t u
    by (rule safe_flush_pending [OF _ W]) (use assms(1) in simp)
  show ?thesis
    unfolding emit_datagram_def clock_def Let_def [of "wd_cfg W"] Let_def [of "(wd_clk W (sn_tick s), _)"] prod.case
    by (rule safe_bind_pair [OF flush]) (use tail in \<open>auto simp del: Let_def\<close>)
qed

lemma safe_emit_extra:
  assumes "0 < batch_cap W"
  shows "ready W s \<Longrightarrow> \<forall>p\<in>set ps. length p \<le> payload_cap \<Longrightarrow> safe (ready_if W) (emit_extra W ps s)"
proof (induction ps arbitrary: s)
  case (Cons p ps)
  have "safe (ready_if W) (emit_datagram W p s)" using safe_emit [OF Cons.prems(1) _ assms] Cons.prems(2) by simp
  then show ?case unfolding emit_extra.simps
    by (rule safe_bind_pair) (use Cons in auto)
qed simp

lemma close_lengths:
  assumes "enc_wf e" and "enc_close e gid reason = Inr (b, e')"
  shows "enc_wf e'" and "length (bg_parity b) \<le> payload_cap" and "\<forall>p\<in>set (bg_extra_parity b). length p \<le> payload_cap"
proof -
  have ne: "\<not> enc_empty e" using assms(2) by (auto simp: enc_close_def)
  from enc_close_ok [OF assms(1) this, of gid reason] assms(2)
  have e': "e' = e\<lparr>enc_frames := [], enc_max_len := 0\<rparr>" and n: "length (parity_packets b) = unat (enc_parity_count e)"
    and shard: "\<forall>r<unat (enc_parity_count e). \<exists>s. parity_packets b ! r =
       write_envelope (parity_envelope gid r (length (enc_frames e)) (enc_parity_count e) (unat (enc_max_len e) + 2) reason) @ s \<and>
       is_shard (map (block_of (enc_max_len e)) (enc_frames e)) (unat (enc_max_len e) + 2) r s"
    by auto
  have ml: "unat (enc_max_len e) \<le> max_frame" using assms(1) unfolding enc_wf_def frames_ok_def by blast
  have "\<forall>p\<in>set (parity_packets b). length p \<le> payload_cap"
  proof
    fix p assume "p \<in> set (parity_packets b)"
    then obtain r where r: "r < unat (enc_parity_count e)" "p = parity_packets b ! r" using n by (metis in_set_conv_nth)
    obtain s where "p = write_envelope (parity_envelope gid r (length (enc_frames e)) (enc_parity_count e)
        (unat (enc_max_len e) + 2) reason) @ s" "length s = unat (enc_max_len e) + 2"
      using shard r unfolding is_shard_def by blast
    then show "length p \<le> payload_cap" using ml by (simp add: payload_cap_def kEnvelopeSize_def)
  qed
  then show "length (bg_parity b) \<le> payload_cap" "\<forall>p\<in>set (bg_extra_parity b). length p \<le> payload_cap"
    by (auto simp: parity_packets_def)
  show "enc_wf e'" using assms(1) by (simp add: e' enc_wf_def frames_ok_def)
qed

lemma safe_close:
  assumes "ready W s" and W: "0 < batch_cap W"
  shows "safe (ready_if W) (close_generation W reason s)"
proof (cases "sc_fec_k (wd_cfg W) = 0 \<or> enc_empty (sn_encoder s)")
  case False
  have wf: "enc_wf (sn_encoder s)" using assms(1) by (simp add: fits_def)
  show ?thesis
    unfolding close_generation_def if_not_P [OF False]
  proof (rule safe_bind_pair [OF safe_lift])
    fix x assume x: "enc_close (sn_encoder s) (sn_fec_gen_id s) (ucast reason) = Inr x"
    show "enc_close (sn_encoder s) (sn_fec_gen_id s) (ucast reason) = Inr (fst x, snd x)" using x by simp
  next
    fix b e assume "enc_close (sn_encoder s) (sn_fec_gen_id s) (ucast reason) = Inr (fst (b, e), snd (b, e))"
    then have c: "enc_close (sn_encoder s) (sn_fec_gen_id s) (ucast reason) = Inr (b, e)" by simp
    note len = close_lengths [OF wf c]
    have "ready W (s\<lparr>sn_encoder := e\<rparr>)" using assms(1) len(1) by (simp add: fits_def)
    note em = safe_emit [OF this len(2) W]
    have tail: "safe (ready_if W) (bind_out (emit_extra W (bg_extra_parity b) s) (\<lambda>(ok, s).
        if \<not> ok then Done (False, s)
        else let s = s\<lparr>sn_parity_sent := sn_parity_sent s + 1, sn_parity_bytes := sn_parity_bytes s + of_nat (length (bg_parity b))\<rparr>;
                 s = count_close reason s
             in Done (True, s\<lparr>sn_fec_gen_id := sn_fec_gen_id s + 1, sn_fec_first_ns := 0\<rparr>)))" if "ready W s" for s
      by (rule safe_bind_pair [OF safe_emit_extra [OF W that len(3)]]) (auto simp: Let_def count_close_def)
    show "safe (ready_if W) (bind_out (emit_datagram W (bg_parity b) (s\<lparr>sn_encoder := e\<rparr>)) (\<lambda>(ok, s).
        if \<not> ok then Done (False, s)
        else bind_out (emit_extra W (bg_extra_parity b) s) (\<lambda>(ok, s).
          if \<not> ok then Done (False, s)
          else let s = s\<lparr>sn_parity_sent := sn_parity_sent s + 1, sn_parity_bytes := sn_parity_bytes s + of_nat (length (bg_parity b))\<rparr>;
                   s = count_close reason s
               in Done (True, s\<lparr>sn_fec_gen_id := sn_fec_gen_id s + 1, sn_fec_first_ns := 0\<rparr>))))"
      by (rule safe_bind_pair [OF em]) (use tail in \<open>auto simp del: Let_def\<close>)
  qed
qed (use assms(1) in \<open>simp add: close_generation_def\<close>)

lemma safe_drain: "ready W s \<Longrightarrow> safe (ready_if W) (drain W rs s)"
proof (induction W rs s rule: drain.induct)
  case (5 W d rs s)
  show ?case
  proof (cases "length d < sizeof_Header")
    case False
    show ?thesis
      unfolding drain.simps if_not_P [OF False] lift_out_def
      using 5 False by (auto simp: lift_out_def split: sum.split option.split)
  qed simp
qed auto

lemma safe_drain_echo: "ready W s \<Longrightarrow> safe (ready_if W) (drain_echo W s)"
  using safe_drain [of W "s\<lparr>sn_drains := Suc (sn_drains s)\<rparr>"] by (simp add: drain_echo_def)

lemma safe_ring_read:
  "safe (\<lambda>(st, frame, resume, s'). s' = s\<lparr>sn_reads := Suc (sn_reads s)\<rparr> \<and> (st = kOk \<longrightarrow> length frame \<le> kFrameCap)) (ring_read W s)"
  unfolding ring_read_def read_def
  by (auto simp: lift_out_def bind_exn_def Let_def split: prod.split sum.split)

lemma encode_length:
  assumes "encode (Some d) = Inr e"
  shows "validate_frame (Some d)" and "0 < length e" and "length e \<le> 540"
proof -
  show v: "validate_frame (Some d)" using assms by (auto simp: encode_def split: if_splits)
  from encode_valid [OF this validate_header [OF this]] assms
  have "length e = frame_width (h_type (frame_header d)) + 4" by auto
  then show "0 < length e" "length e \<le> 540" by (auto simp: frame_width_def)
qed

lemma caps: "kFrameCap \<le> datagram_cap" "540 \<le> payload_cap" "payload_cap \<le> datagram_cap" "kFrameCap \<le> max_frame + 64"
  by (simp_all add: kFrameCap_def size_consts datagram_cap_def payload_cap_def max_frame_def kEnvelopeSize_def)

lemma safe_fast_fill: "fits (Suc (batch_cap W)) s \<Longrightarrow> safe (\<lambda>(p, s'). fits (Suc (batch_cap W)) s') (fast_fill W now progress s)"
proof (induction W now progress s rule: fast_fill.induct)
  case (1 W now progress s)
  show ?case
  proof (cases "length (sn_frames s) < batch_cap W \<and> wants_more W s")
    case True
    show ?thesis
    proof (cases "ring_read W s")
      case (Done x)
      obtain st frame resume s' where x: "x = (st, frame, resume, s')" by (cases x)
      note d = Done [unfolded x]
      have s': "s' = s\<lparr>sn_reads := Suc (sn_reads s)\<rparr>" "st = kOk \<Longrightarrow> length frame \<le> kFrameCap"
        using safe_ring_read [of s W] d by auto
      show ?thesis
      proof (cases "st = kOk")
        case ok: True
        then have nf: "\<not> length frame > datagram_cap" using s'(2) caps(1) by simp
        show ?thesis
        proof (cases "encode (Some (stamp W frame))")
          case (Inr enc)
          note l = encode_length [OF Inr]
          then have ne: "\<not> length enc > datagram_cap" using caps(2,3) by linarith
          have "fits (Suc (batch_cap W)) (fast_store W now enc (s\<lparr>sn_reads := Suc (sn_reads s)\<rparr>))"
            using "1.prems" True l(3) caps(2) by (auto simp: fits_def fast_store_def)
          from "1.IH" [OF _ d refl refl refl ok nf Inr ne this] True d ok nf Inr ne show ?thesis
            by (subst fast_fill.simps) simp
        qed (use True d ok nf in \<open>subst fast_fill.simps, simp\<close>)
      next
        case False
        then show ?thesis using True d s'(1) "1.prems" by (subst fast_fill.simps) (simp add: count_lap_def)
      qed
    qed (use True safe_ring_read [of s W] in \<open>subst fast_fill.simps, simp\<close>)+
  qed (use "1.prems" in \<open>subst fast_fill.simps, simp\<close>)
qed

lemma safe_fast_turn:
  assumes "ready W s" and W: "0 < batch_cap W"
  shows "safe (\<lambda>(go, s'). ready W s') (fast_turn W now s)"
  unfolding fast_turn_def
proof (rule safe_bind_pair [OF safe_fast_fill])
  show "fits (Suc (batch_cap W)) s" using assms(1) by (rule fits_mono) simp
  fix progress :: bool and s1 :: "sender" assume "case (progress, s1) of (p, s') \<Rightarrow> fits (Suc (batch_cap W)) s'"
  then have s1: "fits (Suc (batch_cap W)) s1" by simp
  have fl: "safe (ready W) (require (flush_batch W s))" if "fits (Suc (batch_cap W)) s" for s
    by (rule safe_require, rule safe_mono [OF safe_flush [OF that W]]) auto
  have one: "safe (ready W) (if length (sn_frames s1) \<ge> batch_cap W then require (flush_batch W s1) else Done s1)"
    using fl [OF s1] s1 by (auto simp: fits_def)
  show "safe (\<lambda>(go, s'). ready W s') (bind_out (if length (sn_frames s1) \<ge> batch_cap W then require (flush_batch W s1) else Done s1) (\<lambda>s.
       let s = (if progress then s\<lparr>sn_last_progress := now\<rparr> else s)
       in bind_out (if sn_frames s \<noteq> [] then require (flush_batch W s) else Done s) (\<lambda>s.
            if progress then Done (True, s)
            else let (now, s) = clock W s in Done (idle_check W now s, s))))"
  proof (rule safe_bind [OF one])
    fix s2 :: "sender" assume s2: "ready W s2"
    define s3 where "s3 = (if progress then s2\<lparr>sn_last_progress := now\<rparr> else s2)"
    have s3: "ready W s3" using s2 by (simp add: s3_def)
    have two: "safe (ready W) (if sn_frames s3 \<noteq> [] then require (flush_batch W s3) else Done s3)"
      using fl [OF fits_mono [OF s3]] s3 by simp
    show "safe (\<lambda>(go, s'). ready W s') (let s = (if progress then s2\<lparr>sn_last_progress := now\<rparr> else s2)
       in bind_out (if sn_frames s \<noteq> [] then require (flush_batch W s) else Done s) (\<lambda>s.
            if progress then Done (True, s)
            else let (now, s) = clock W s in Done (idle_check W now s, s)))"
      unfolding s3_def [symmetric] Let_def
      by (rule safe_bind [OF two]) (simp add: clock_def)
  qed
qed

lemma safe_send_plain:
  assumes "ready W s" and "length enc \<le> payload_cap" and "0 < batch_cap W"
  shows "safe (ready W) (send_plain W enc s)"
  unfolding send_plain_def by (rule safe_require, rule safe_emit [OF _ assms(2,3)]) (use assms(1) in simp)

lemma safe_send_fec:
  assumes s: "ready W s" and enc: "0 < length enc" "length enc \<le> 540" and W: "0 < batch_cap W"
  shows "safe (ready W) (send_fec W now enc s)"
proof -
  define s1 where "s1 = note_arrival now s"
  define s2 where "s2 = (if enc_empty (sn_encoder s1) then s1\<lparr>sn_fec_first_ns := now\<rparr> else s1)"
  obtain ok e where add: "enc_add (sn_encoder s2) (Some enc) (of_nat (length enc)) = (ok, e)" by fastforce
  have s2: "ready W s2" using s by (simp add: s2_def s1_def note_arrival_def)
  have u: "unat (of_nat (length enc) :: u16) = length enc" using enc(2) by (intro unat_of_nat_small) simp
  have "enc_wf (snd (enc_add (sn_encoder s2) (Some enc) (of_nat (length enc))))"
    by (rule enc_wf_add) (use s2 u in \<open>auto simp: fits_def\<close>)
  then have s3: "ready W (s2\<lparr>sn_encoder := e\<rparr>)" using s2 add by (simp add: fits_def)
  let ?d = "data_datagram (sn_fec_gen_id s2) (enc_size (sn_encoder s2)) (sc_fec_k (wd_cfg W)) enc (of_nat (length enc))"
  have d: "length ?d \<le> payload_cap" using enc(2) u by (simp add: data_datagram_def payload_cap_def max_frame_def kEnvelopeSize_def)
  have em: "safe (ready W) (require (emit_datagram W ?d (s2\<lparr>sn_encoder := e, sn_data_bytes := n\<rparr>)))" for n
    by (rule safe_require, rule safe_emit [OF _ d W]) (use s3 in simp)
  have "safe (ready W) (bind_out (require (emit_datagram W ?d (s2\<lparr>sn_encoder := e, sn_data_bytes := n\<rparr>))) (\<lambda>s.
      if enc_full (sn_encoder s) then require (close_generation W 0 s) else Done s))" for n
    by (rule safe_bind [OF em]) (auto intro!: safe_require safe_close [OF _ W])
  then show ?thesis
    unfolding send_fec_def s1_def [symmetric] Let_def s2_def [symmetric] add prod.case by simp
qed

lemma safe_slow_turn:
  assumes s: "ready W s" and W: "0 < batch_cap W"
  shows "safe (\<lambda>(go, s'). ready W s') (slow_turn W now s)"
  unfolding slow_turn_def
proof (rule safe_bind [OF safe_ring_read])
  fix x :: "frame_status \<times> bytes \<times> u64 \<times> sender"
  obtain st frame resume s1 where x: "x = (st, frame, resume, s1)" by (cases x)
  assume "case x of (st, frame, resume, s') \<Rightarrow> s' = s\<lparr>sn_reads := Suc (sn_reads s)\<rparr> \<and> (st = kOk \<longrightarrow> length frame \<le> kFrameCap)"
  then have s1: "ready W s1" and fr: "st = kOk \<Longrightarrow> length frame \<le> kFrameCap" using s x by simp_all
  have ok: "safe (\<lambda>(go, s'). ready W s') (bind_out (lift_out (encode (Some (stamp W frame)))) (\<lambda>enc.
       if length frame > max_frame + 64 \<or> length enc > max_frame + 64 then Undef
       else bind_out (if sc_fec_k (wd_cfg W) = 0 then send_plain W enc s1 else send_fec W now enc s1) (\<lambda>s.
         Done (True, s\<lparr>sn_sent := sn_sent s + 1, sn_read_index := sn_read_index s + 1, sn_last_progress := now\<rparr>))))"
    if "st = kOk"
  proof (rule safe_bind [OF safe_lift])
    fix enc assume "encode (Some (stamp W frame)) = Inr enc"
    note l = encode_length [OF this]
    have "safe (ready W) (if sc_fec_k (wd_cfg W) = 0 then send_plain W enc s1 else send_fec W now enc s1)"
      using safe_send_plain [OF s1 _ W, of enc] safe_send_fec [OF s1 l(2,3) W, of now] l(3) caps(2) by simp
    then show "safe (\<lambda>(go, s'). ready W s') (if length frame > max_frame + 64 \<or> length enc > max_frame + 64 then Undef
       else bind_out (if sc_fec_k (wd_cfg W) = 0 then send_plain W enc s1 else send_fec W now enc s1) (\<lambda>s.
         Done (True, s\<lparr>sn_sent := sn_sent s + 1, sn_read_index := sn_read_index s + 1, sn_last_progress := now\<rparr>)))"
      using fr [OF that] caps(4) l(3) by (auto simp: max_frame_def intro!: safe_bind [of "ready W"])
  qed
  have idle: "safe (\<lambda>(go, s'). ready W s') (let (now, s) = clock W s1
          in bind_out (require (flush_pending W now False s)) (\<lambda>s.
             bind_out (require (flush_batch W s)) (\<lambda>s. Done (idle_check W now s, s))))"
    unfolding clock_def Let_def prod.case
  proof (rule safe_bind [OF safe_require [OF safe_flush_pending [OF _ W]]])
    show "ready W (s1\<lparr>sn_tick := Suc (sn_tick s1)\<rparr>)" using s1 by simp
    fix s2 :: "sender" assume "ready W s2"
    then have "fits (Suc (batch_cap W)) s2" by (rule fits_mono) simp
    then show "safe (\<lambda>(go, s'). ready W s') (bind_out (require (flush_batch W s2)) (\<lambda>s. Done (idle_check W (wd_clk W (sn_tick s1)) s, s)))"
      by (intro safe_bind [OF safe_require [OF safe_mono [OF safe_flush [OF _ W]]]]) auto
  qed
  show "safe (\<lambda>(go, s'). ready W s') (case x of (st, frame, resume, s) \<Rightarrow>
     if st = kOk then bind_out (lift_out (encode (Some (stamp W frame)))) (\<lambda>enc.
       if length frame > max_frame + 64 \<or> length enc > max_frame + 64 then Undef
       else bind_out (if sc_fec_k (wd_cfg W) = 0 then send_plain W enc s else send_fec W now enc s) (\<lambda>s.
         Done (True, s\<lparr>sn_sent := sn_sent s + 1, sn_read_index := sn_read_index s + 1, sn_last_progress := now\<rparr>)))
     else if st = kLapped then Done (True, count_lap resume s)
     else if st = kCorrupt then Quit 1
     else let (now, s) = clock W s
          in bind_out (require (flush_pending W now False s)) (\<lambda>s.
             bind_out (require (flush_batch W s)) (\<lambda>s. Done (idle_check W now s, s))))"
    unfolding x prod.case using ok idle s1 by (simp add: count_lap_def del: Let_def)
qed

lemma safe_turn:
  assumes "ready W s" and W: "0 < batch_cap W"
  shows "safe (\<lambda>(go, s'). ready W s') (sender_turn W s)"
  unfolding sender_turn_def
proof (rule safe_bind [OF safe_require [OF safe_drain_echo [OF assms(1)]]])
  fix s1 :: "sender" assume s1: "ready W s1"
  define s2 where "s2 = s1\<lparr>sn_tick := Suc (sn_tick s1)\<rparr>"
  have s2: "ready W s2" using s1 by (simp add: s2_def)
  let ?now = "wd_clk W (sn_tick s1)"
  have flush: "safe (ready W) (if b then require (flush_batch W s2) else Done s2)" for b
    using safe_require [OF safe_mono [OF safe_flush [OF fits_mono [OF s2] W]]] s2 by auto
  have close: "safe (ready W) (if b then require (close_generation W 1 s) else Done s)" if "ready W s" for b s
    using safe_require [OF safe_close [OF that W]] that by simp
  have turn: "safe (\<lambda>(go, s'). ready W s') (if plain_fast_path W then fast_turn W t s else slow_turn W t s)" if "ready W s" for s t
    using safe_fast_turn [OF that W] safe_slow_turn [OF that W] by simp
  show "safe (\<lambda>(go, s'). ready W s') (let (now, s) = clock W s1
     in bind_out (if sn_frames s \<noteq> [] \<and> now - sn_first_ns s \<ge> sc_batch_timeout_us (wd_cfg W) * 1000
                  then require (flush_batch W s) else Done s) (\<lambda>s.
        bind_out (if sc_fec_k (wd_cfg W) \<noteq> 0 \<and> \<not> enc_empty (sn_encoder s) \<and>
                     now - sn_fec_first_ns s \<ge> sc_fec_timeout_us (wd_cfg W) * 1000
                  then require (close_generation W 1 s) else Done s) (\<lambda>s.
          if plain_fast_path W then fast_turn W now s else slow_turn W now s)))"
    unfolding clock_def Let_def prod.case s2_def [symmetric]
    by (rule safe_bind [OF flush], rule safe_bind [OF close], assumption, rule turn)
qed

lemma safe_loop:
  assumes W: "0 < batch_cap W"
  shows "ready W s \<Longrightarrow> safe (\<lambda>(idle, s'). ready W s') (sender_loop W s stops)"
proof (induction stops arbitrary: s)
  case (Cons stop stops)
  have "safe (\<lambda>(idle, s'). ready W s') (bind_out (sender_turn W s) (\<lambda>(go, s). if go then sender_loop W s stops else Done (True, s)))"
    by (rule safe_bind_pair [OF safe_turn [OF Cons.prems W]]) (use Cons.IH in auto)
  then show ?case using Cons.prems by simp
qed simp

lemma safe_echo_wait: "ready W s \<Longrightarrow> safe (ready W) (echo_wait W deadline fuel s)"
proof (induction fuel arbitrary: s)
  case (Suc fuel)
  have "safe (ready W) (bind_out (require (drain_echo W s)) (\<lambda>s.
        let (now, s) = clock W s in if now > deadline then Quit 1 else echo_wait W deadline fuel s))"
    by (rule safe_bind [OF safe_require [OF safe_drain_echo [OF Suc.prems]]]) (use Suc.IH in \<open>auto simp: clock_def\<close>)
  then show ?case using Suc.prems by simp
qed simp

lemma safe_sender_drain:
  assumes "ready W s" and W: "0 < batch_cap W"
  shows "safe (ready W) (sender_drain W fuel s)"
proof -
  have flush: "safe (ready W) (bind_out (require (flush_batch W s)) (\<lambda>s.
      if echoing W then let (now, s) = clock W s
        in echo_wait W (now + sc_echo_timeout_ms (wd_cfg W) * 1000000) fuel s
      else Done s))" if "ready W s" for s
    by (rule safe_bind [OF safe_require [OF safe_mono [OF safe_flush [OF fits_mono [OF that] W]]]])
      (auto simp: clock_def intro!: safe_echo_wait)
  have pend: "safe (ready W) (require (flush_pending W t True (s\<lparr>sn_tick := u\<rparr>)))" if "ready W s" for s t u
    by (rule safe_require, rule safe_flush_pending [OF _ W]) (use that in simp)
  show ?thesis
    unfolding sender_drain_def clock_def Let_def prod.case
    using flush [unfolded clock_def Let_def prod.case]
    by (intro safe_bind [OF safe_require [OF safe_close [OF assms]]] safe_bind [OF pend]) auto
qed

lemma safe_start:
  assumes W: "0 < batch_cap W"
  shows "safe (ready W) (sender_start W g echo net)"
  unfolding sender_start_def
  by (rule safe_bind [OF safe_lift]) (use W enc_wf_new in \<open>auto simp: fits_def\<close>)

text \<open>
  C3. The sender never writes outside its buffers: with a configuration its command line
  accepts, whatever the ring holds, whatever the sockets, the clock, the random generator and
  the echoes answer, no run of the program (start, main loop and final flush, with or without
  forward error correction, repetition, drops, delays and echoes) puts a datagram into a full
  batch or one that is too long for its buffer.
\<close>

theorem sender_memory_safe:
  assumes "sender_parse_args stod rs argv = Inr (wd_cfg W)"
  shows "sender_run W g echo net stops fuel \<noteq> Undef"
proof -
  have W: "0 < batch_cap W" using sender_parse_ok [OF assms] by (simp add: sender_ok_def batch_cap_def)
  have "safe (ready W) (sender_run W g echo net stops fuel)"
    unfolding sender_run_def
  proof (rule safe_bind [OF safe_start [OF W]])
    fix s :: "sender" assume "ready W s"
    from safe_loop [OF W this] show "safe (ready W) (bind_out (sender_loop W s stops) (\<lambda>(idle, s). sender_drain W fuel s))"
      by (rule safe_bind_pair) (auto intro!: safe_sender_drain [OF _ W])
  qed
  then show ?thesis by (auto simp: safe_def)
qed

definition example_world :: "(nat \<Rightarrow> region \<times> (exn + bool)) \<Rightarrow> world" where
  "example_world rings = \<lparr>wd_cfg = example_sender, wd_reader = snd ring_1, wd_pub = \<lambda>g f. Inr g, wd_clk = of_nat,
     wd_rnd = \<lambda>_. 0, wd_ring = rings, wd_echo = \<lambda>_. []\<rparr>"

lemma example_world_args:
  "sender_parse_args (\<lambda>_. Inl InvalidArgument) (Some 5, Some 6) [''--unix-dst'', ''/tmp/a''] = Inr (wd_cfg (example_world rings))"
  by (simp add: example_world_def example_sender_args)

lemma sender_memory_safe_witness:
  "sender_parse_args (\<lambda>_. Inl InvalidArgument) (Some 5, Some 6) [''--unix-dst'', ''/tmp/a''] =
       Inr (wd_cfg (example_world (\<lambda>_. (fst ring_1, Inr True)))) \<and>
     sender_run (example_world (\<lambda>_. (fst ring_1, Inr True))) (fst ring_1) (fst ring_1)
       (net_init example_sender [] []) [False, True] 3 \<noteq> Undef"
  using sender_memory_safe [OF example_world_args] example_world_args by blast

end
