(* ===== verification/Sender_Order.thy ===== *)
theory Sender_Order
  imports Sender
begin

text \<open>
  What the sender hands to its sockets on the plain path (no forward error correction, no test
  impairment, no echo): the frames of the ring it reads, in order, batch by batch, every batch as
  often as \<open>--repeat\<close> says; and what each destination gets of them, directly or through its queue.
\<close>

section \<open>Properties of what a step returns\<close>

definition yields :: "('a \<Rightarrow> bool) \<Rightarrow> 'a outcome \<Rightarrow> bool" where
  "yields P m \<longleftrightarrow> (\<forall>x. m = Done x \<longrightarrow> P x)"

lemma yields_simps [simp]:
  "yields P (Done x) = P x" "yields P (Quit n)" "yields P (Raised e)" "yields P Undef" "yields P Running"
  by (simp_all add: yields_def)

lemma yields_bind: "yields P m \<Longrightarrow> (\<And>x. P x \<Longrightarrow> yields Q (f x)) \<Longrightarrow> yields Q (bind_out m f)"
  by (cases m) auto

lemma yields_bind_pair: "yields P m \<Longrightarrow> (\<And>a b. P (a, b) \<Longrightarrow> yields Q (f a b)) \<Longrightarrow> yields Q (bind_out m (\<lambda>(a, b). f a b))"
  by (erule yields_bind) auto

section \<open>The frames forwarded so far\<close>

text \<open>The datagram of a frame: stamped with the stream identity, encoded and wrapped.\<close>

definition datagram_of :: "world \<Rightarrow> bytes \<Rightarrow> bytes \<Rightarrow> bool" where
  "datagram_of W f p \<longleftrightarrow> (\<exists>e. encode (Some (stamp W f)) = Inr e \<and> p = wrap (sender_key W) e)"

text \<open>
  The positions of the log, from \<open>a\<close> on, whose frames were handed over or wait in the batch; they
  are consecutive when the ring is large enough to hold the whole log.
\<close>

definition positions :: "bytes list \<Rightarrow> nat \<Rightarrow> nat \<Rightarrow> u64 \<Rightarrow> nat list \<Rightarrow> bool" where
  "positions L n a index is \<longleftrightarrow> sorted_wrt (<) is \<and> (\<forall>i\<in>set is. i < unat index) \<and> unat index \<le> length L \<and>
     (length L \<le> n \<longrightarrow> is = [a..<unat index])"

text \<open>The batches \<open>Bs\<close> as they go out on a socket.\<close>

abbreviation repeated :: "sender_config \<Rightarrow> bytes list list \<Rightarrow> bytes list" where
  "repeated cfg Bs \<equiv> concat (map (\<lambda>fs. concat (replicate (unat (sc_repeat cfg)) fs)) Bs)"

text \<open>The batches handed to the sending side: out on the socket, or enqueued at every destination.\<close>

definition handed :: "sender_config \<Rightarrow> net \<Rightarrow> bytes list list \<Rightarrow> bool" where
  "handed cfg n Bs \<longleftrightarrow>
     (if has_fanout cfg then length (nt_links n) = length (sc_destinations cfg) \<and>
        (\<forall>ln\<in>set (nt_links n). \<not> de_done (ln_dest ln) \<and>
           dest_run (unat (sc_repeat cfg)) (sc_durable_acks cfg) (sc_queue_bytes cfg) ln Bs)
      else nt_out n = repeated cfg Bs)"

definition forwarded :: "world \<Rightarrow> bytes list \<Rightarrow> nat \<Rightarrow> nat \<Rightarrow> sender \<Rightarrow> bool" where
  "forwarded W L n a s \<longleftrightarrow> a \<le> unat (sn_read_index s) \<and> sn_pending s = [] \<and> length (sn_frames s) \<le> batch_cap W \<and>
     (\<exists>is Bs. positions L n a (sn_read_index s) is \<and> sn_sent s = of_nat (length is) \<and> handed (wd_cfg W) (sn_net s) Bs \<and>
       list_all2 (\<lambda>i p. datagram_of W (L ! i) p) is (concat Bs @ map (wrap (sender_key W)) (sn_frames s)))"

lemma forwarded_simps [simp]:
  "forwarded W L n a (s\<lparr>sn_tick := t\<rparr>) = forwarded W L n a s"
  "forwarded W L n a (s\<lparr>sn_reads := t\<rparr>) = forwarded W L n a s"
  "forwarded W L n a (s\<lparr>sn_last_progress := t'\<rparr>) = forwarded W L n a s"
  by (simp_all add: forwarded_def)

lemma positions_snoc:
  assumes "positions L n a index is" and "unat index < length L" and "Suc (length L) < 2 ^ 64" and "a \<le> unat index"
  shows "positions L n a (index + 1) (is @ [unat index])" and "unat (index + 1) = Suc (unat index)"
proof -
  show i: "unat (index + 1) = Suc (unat index)" using assms(2,3) by (simp add: unat_inc)
  show "positions L n a (index + 1) (is @ [unat index])"
    using assms(1,2,4) by (auto simp: positions_def i sorted_wrt_append)
qed

section \<open>Every step keeps them\<close>

lemma link_event_done [simp]: "de_done (ln_dest (link_event k durable ev ln)) = de_done (ln_dest ln)"
proof (cases ev)
  case Wake
  then show ?thesis by (cases "ln_worker ln") (auto simp: link_event_def worker_wake_def Let_def)
next
  case (Flush sock)
  then show ?thesis
    by (cases "ln_worker ln") (auto simp: link_event_def worker_done_def isolate_def Let_def split: option.split)
qed

lemma enqueue_link_done [simp]: "de_done (ln_dest (enqueue_link limit fs ln)) = de_done (ln_dest ln)"
  by (simp add: enqueue_link_def enqueue_dest_def isolate_def Let_def)

lemma run_schedule_keeps:
  assumes "\<And>ln ev. P ln \<Longrightarrow> P (link_event k durable ev ln)"
  shows "\<forall>ln\<in>set lns. P ln \<Longrightarrow> length (run_schedule k durable evs lns) = length lns \<and> (\<forall>ln\<in>set (run_schedule k durable evs lns). P ln)"
proof (induction evs arbitrary: lns)
  case (Cons e evs)
  obtain i ev where e: "e = (i, ev)" by fastforce
  let ?lns = "if i < length lns then lns[i := link_event k durable ev (lns ! i)] else lns"
  have "\<forall>ln\<in>set ?lns. P ln"
    using Cons.prems assms set_update_subset_insert [of lns i "link_event k durable ev (lns ! i)"] by auto
  from Cons.IH [OF this] show ?case by (auto simp: run_schedule_def e)
qed (simp add: run_schedule_def)

lemma send_batch_handed:
  assumes "handed cfg n Bs" and "send_batch cfg ps n = Some (True, n')" and "sum_list (map length ps) < 2 ^ 32"
  shows "handed cfg n' (Bs @ [ps])"
proof (cases "has_fanout cfg")
  case True
  let ?P = "\<lambda>ln. \<not> de_done (ln_dest ln) \<and> dest_run (unat (sc_repeat cfg)) (sc_durable_acks cfg) (sc_queue_bytes cfg) ln Bs"
  obtain evs where n': "nt_links n' = map (enqueue_link (sc_queue_bytes cfg) ps)
      (run_schedule (unat (sc_repeat cfg)) (sc_durable_acks cfg) evs (nt_links n))"
    using assms(2) True by (auto simp: send_batch_def flush_fanout_def enqueue_def Let_def split: list.splits)
  have "\<forall>ln\<in>set (nt_links n). ?P ln" using assms(1) True by (simp add: handed_def)
  from run_schedule_keeps [where P = ?P, OF _ this, of "unat (sc_repeat cfg)" "sc_durable_acks cfg" evs]
  have "length (run_schedule (unat (sc_repeat cfg)) (sc_durable_acks cfg) evs (nt_links n)) = length (nt_links n)"
    "\<forall>ln\<in>set (run_schedule (unat (sc_repeat cfg)) (sc_durable_acks cfg) evs (nt_links n)). ?P ln"
    by (auto intro: dest_run.event)
  then show ?thesis using assms(1,3) True n'
    by (auto simp: handed_def intro!: dest_run.enqueue)
next
  case False
  then show ?thesis using assms(1,2) flush_one(2)
    by (fastforce simp: send_batch_def flush_direct_def handed_def split: list.splits)
qed

lemma flush_forwarded:
  assumes cap: "batch_cap W \<le> 1024" and f: "forwarded W L n a s"
  shows "yields (\<lambda>s'. forwarded W L n a s' \<and> sn_frames s' = []) (require (flush_batch W s))"
proof -
  let ?ps = "map (wrap (sender_key W)) (sn_frames s)"
  show ?thesis
  proof (cases "sn_frames s = [] \<or> list_ex (\<lambda>p. length p > datagram_cap) ?ps")
    case True
    then show ?thesis using f by (auto simp: flush_batch_def require_def Let_def)
  next
    case False
    show ?thesis
    proof (cases "send_batch (wd_cfg W) ?ps (sn_net s)")
      case (Some x)
      obtain ok n' where x: "x = (ok, n')" by fastforce
      obtain "is" Bs where b: "positions L n a (sn_read_index s) is" "sn_sent s = of_nat (length is)" "handed (wd_cfg W) (sn_net s) Bs"
        "list_all2 (\<lambda>i p. datagram_of W (L ! i) p) is (concat Bs @ ?ps)" "length ?ps \<le> 1024"
        using f cap by (auto simp: forwarded_def)
      have "\<forall>p\<in>set ?ps. length p \<le> 2000"
        using False by (fastforce simp: list_ex_iff datagram_cap_def max_frame_def kEnvelopeSize_def mux_header_size_def)
      then have "sum_list (map length ?ps) \<le> length ?ps * 2000"
        using sum_list_mono [of ?ps length "\<lambda>_. 2000"] by (force simp: sum_list_triv comp_def)
      then have "sum_list (map length ?ps) < 2 ^ 32" using b(5) by simp
      from send_batch_handed [OF b(3) _ this] have "ok \<Longrightarrow> handed (wd_cfg W) n' (Bs @ [?ps])" using Some x by simp
      then have "ok \<Longrightarrow> forwarded W L n a (s\<lparr>sn_net := n', sn_frames := [], sn_first_ns := 0\<rparr>)"
        unfolding forwarded_def using f b(1,2,4) by (intro conjI exI [of _ "is"] exI [of _ "Bs @ [?ps]"]) (auto simp: forwarded_def)
      then show ?thesis using Some x False by (cases ok) (auto simp: flush_batch_def require_def Let_def)
    qed (use False in \<open>auto simp: flush_batch_def require_def Let_def\<close>)
  qed
qed

lemma read_forwarded:
  assumes "ring_log (fst (wd_ring W (sn_reads s))) (wd_reader W) n (take m L)" and "unat (sn_read_index s) \<le> length L"
    and L: "Suc (length L) < 2 ^ 64" and "ring_read W s = Done (st, frame, resume, s')"
  shows "st = kOk \<Longrightarrow> unat (sn_read_index s) < length L \<and> frame = L ! unat (sn_read_index s)"
    and "st = kLapped \<Longrightarrow> unat (sn_read_index s) < unat resume \<and> unat resume \<le> length L \<and> n < length L"
    and "s' = s\<lparr>sn_reads := Suc (sn_reads s)\<rparr>"
proof -
  obtain g lock where gl: "wd_ring W (sn_reads s) = (g, lock)" by fastforce
  obtain g' where r: "read g (wd_reader W) (sn_read_index s) lock = Inr (st, frame, resume, g')"
    and s': "s' = s\<lparr>sn_reads := Suc (sn_reads s)\<rparr>"
    using assms(4) gl by (auto simp: ring_read_def lift_out_def split: sum.splits)
  show "s' = s\<lparr>sn_reads := Suc (sn_reads s)\<rparr>" by (rule s')
  have log: "ring_log g (wd_reader W) n (take m L)" using assms(1) gl by simp
  note rd = read_log [OF log, of "sn_read_index s"]
  have ix: "Suc (unat (sn_read_index s)) < 2 ^ 64" using assms(2) L by simp
  have lock: "lock = Inr True \<or> st = kEmpty" using r
    by (cases lock) (auto simp: read_def split: if_splits)
  show "unat (sn_read_index s) < length L \<and> frame = L ! unat (sn_read_index s)" if "st = kOk"
    using lock r rd [OF ix] that by (auto split: if_splits)
  show "unat (sn_read_index s) < unat resume \<and> unat resume \<le> length L \<and> n < length L" if "st = kLapped"
  proof -
    have l: "\<not> length (take m L) \<le> unat (sn_read_index s) + n" "resume = of_nat (length (take m L) - n)"
      using lock r rd [OF ix] that by (auto split: if_splits)
    moreover have "unat (of_nat (length (take m L) - n) :: u64) = length (take m L) - n"
      using L by (intro unat_of_nat_small) simp
    ultimately show ?thesis by auto
  qed
qed

lemma fill_forwarded:
  assumes L: "Suc (length L) < 2 ^ 64" and log: "\<forall>i. \<exists>m. ring_log (fst (wd_ring W i)) (wd_reader W) n (take m L)"
  shows "forwarded W L n a s \<Longrightarrow> yields (\<lambda>(p, s'). forwarded W L n a s') (fast_fill W now progress s)"
  using log
proof (induction W now progress s rule: fast_fill.induct)
  case (1 W now progress s)
  show ?case
  proof (cases "length (sn_frames s) < batch_cap W \<and> wants_more W s")
    case True
    show ?thesis
    proof (cases "ring_read W s")
      case (Done x)
      obtain st frame resume s' where x: "x = (st, frame, resume, s')" by (cases x)
      note d = Done [unfolded x]
      obtain m where m: "ring_log (fst (wd_ring W (sn_reads s))) (wd_reader W) n (take m L)" using "1.prems"(2) by blast
      obtain "is" Bs where ps: "positions L n a (sn_read_index s) is" "sn_sent s = of_nat (length is)" "sn_pending s = []"
        "list_all2 (\<lambda>i p. datagram_of W (L ! i) p) is (concat Bs @ map (wrap (sender_key W)) (sn_frames s))"
        "a \<le> unat (sn_read_index s)" "handed (wd_cfg W) (sn_net s) Bs" "length (sn_frames s) \<le> batch_cap W"
        using "1.prems"(1) by (auto simp: forwarded_def)
      have "unat (sn_read_index s) \<le> length L" using ps(1) by (simp add: positions_def)
      note r = read_forwarded [OF m this L d]
      show ?thesis
      proof (cases "st = kOk")
        case ok: True
        show ?thesis
        proof (cases "length frame > datagram_cap")
          case nf: False
          show ?thesis
          proof (cases "encode (Some (stamp W frame))")
            case (Inr enc)
            show ?thesis
            proof (cases "length enc > datagram_cap")
              case ne: False
              let ?s = "fast_store W now enc (s\<lparr>sn_reads := Suc (sn_reads s)\<rparr>)"
              note p = positions_snoc [OF ps(1) _ L ps(5)]
              have "datagram_of W (L ! unat (sn_read_index s)) (wrap (sender_key W) enc)"
                using r(1) [OF ok] Inr by (simp add: datagram_of_def)
              then have "list_all2 (\<lambda>i p. datagram_of W (L ! i) p) (is @ [unat (sn_read_index s)])
                  (concat Bs @ map (wrap (sender_key W)) (sn_frames ?s))"
                using ps(4) by (simp add: fast_store_def list_all2_appendI flip: append_assoc)
              then have "forwarded W L n a ?s"
                unfolding forwarded_def using p r(1) [OF ok] ps(2,3,5,6) True
                by (intro conjI exI [of _ "is @ [unat (sn_read_index s)]"] exI [of _ Bs]) (auto simp: fast_store_def)
              from "1.IH" [OF _ d refl refl refl ok nf Inr ne this "1.prems"(2)] True d ok nf Inr ne show ?thesis
                by (subst fast_fill.simps) simp
            qed (use True d ok nf Inr in \<open>subst fast_fill.simps, simp\<close>)
          qed (use True d ok nf in \<open>subst fast_fill.simps, simp\<close>)
        qed (use True d ok in \<open>subst fast_fill.simps, simp\<close>)
      next
        case False
        have "forwarded W L n a (count_lap resume s')" if "st = kLapped"
          unfolding forwarded_def using r(2) [OF that] ps
          by (intro conjI exI [of _ "is"] exI [of _ Bs]) (auto simp: count_lap_def r(3) positions_def)
        then show ?thesis using True False d r(3) "1.prems"(1) by (subst fast_fill.simps) simp
      qed
    qed (use True in \<open>subst fast_fill.simps, simp\<close>)+
  qed (use "1.prems" in \<open>subst fast_fill.simps, simp\<close>)
qed

lemma turn_forwarded:
  assumes L: "Suc (length L) < 2 ^ 64" and log: "\<forall>i. \<exists>m. ring_log (fst (wd_ring W i)) (wd_reader W) n (take m L)"
    and cap: "batch_cap W \<le> 1024" and plain: "plain_fast_path W" and s: "forwarded W L n a s"
  shows "yields (\<lambda>(go, s'). forwarded W L n a s') (sender_turn W s)"
proof -
  have fl: "yields (forwarded W L n a) (if b then require (flush_batch W s) else Done s)" if "forwarded W L n a s" for b s
    using flush_forwarded [OF cap that] that by (auto simp: yields_def)
  have fast: "yields (\<lambda>(go, s'). forwarded W L n a s') (fast_turn W now s)" if "forwarded W L n a s" for now s
    unfolding fast_turn_def Let_def
    by (rule yields_bind_pair [OF fill_forwarded [OF L log that]], rule yields_bind [OF fl], simp,
        rule yields_bind [OF fl]) (auto simp: clock_def)
  have "\<not> echoing W" "sc_fec_k (wd_cfg W) = 0" using plain by (simp_all add: plain_fast_path_def)
  then have t: "sender_turn W s = (let (now, s) = clock W s
     in bind_out (if sn_frames s \<noteq> [] \<and> now - sn_first_ns s \<ge> sc_batch_timeout_us (wd_cfg W) * 1000
                  then require (flush_batch W s) else Done s) (fast_turn W now))"
    using plain by (simp add: sender_turn_def drain_echo_def require_def)
  show ?thesis unfolding t clock_def Let_def prod.case
    by (rule yields_bind [OF fl]) (use s fast in auto)
qed

lemma loop_forwarded:
  assumes L: "Suc (length L) < 2 ^ 64" and log: "\<forall>i. \<exists>m. ring_log (fst (wd_ring W i)) (wd_reader W) n (take m L)"
    and cap: "batch_cap W \<le> 1024" and plain: "plain_fast_path W"
  shows "forwarded W L n a s \<Longrightarrow> yields (\<lambda>(idle, s'). forwarded W L n a s') (sender_loop W s stops)"
proof (induction stops arbitrary: s)
  case (Cons stop stops)
  have "yields (\<lambda>(idle, s'). forwarded W L n a s')
      (bind_out (sender_turn W s) (\<lambda>(go, s). if go then sender_loop W s stops else Done (True, s)))"
    by (rule yields_bind_pair [OF turn_forwarded [OF assms Cons.prems]]) (use Cons.IH in auto)
  then show ?case using Cons.prems by simp
qed simp

lemma drain_forwarded:
  assumes cap: "batch_cap W \<le> 1024" and plain: "plain_fast_path W" and s: "forwarded W L n a s"
  shows "yields (\<lambda>s'. forwarded W L n a s' \<and> sn_frames s' = []) (sender_drain W fuel s)"
proof -
  have "\<not> echoing W" "sc_fec_k (wd_cfg W) = 0" using plain by (simp_all add: plain_fast_path_def)
  moreover have "sn_pending s = []" using s by (simp add: forwarded_def)
  ultimately have d: "sender_drain W fuel s = bind_out (require (flush_batch W (s\<lparr>sn_tick := Suc (sn_tick s), sn_pending := []\<rparr>))) Done"
    by (simp add: sender_drain_def close_generation_def flush_pending_def require_def clock_def)
  show ?thesis unfolding d by (rule yields_bind [OF flush_forwarded [OF cap]]) (use s in \<open>simp_all add: forwarded_def\<close>)
qed

text \<open>
  What went out to each destination, and what it may be when the batches are \<open>Bs\<close>: the first of
  them, and at most a part of the next one.
\<close>

definition outputs :: "sender_config \<Rightarrow> net \<Rightarrow> bytes list list" where
  "outputs cfg n = (if has_fanout cfg then map ln_out (nt_links n) else [nt_out n])"

definition gets :: "sender_config \<Rightarrow> bytes list list \<Rightarrow> bytes list \<Rightarrow> bool" where
  "gets cfg Bs out \<longleftrightarrow> (\<exists>Ws p. prefix Ws Bs \<and> out = repeated cfg Ws @ p \<and>
     (p = [] \<or> (\<exists>fs Bs'. Bs = Ws @ fs # Bs' \<and> partly p (repeated cfg [fs]))))"

lemma gets_all: "gets cfg Bs (repeated cfg Bs)"
  unfolding gets_def by (intro exI [of _ Bs] exI [of _ "[]"]) simp

lemma finish_outputs:
  assumes "handed cfg n Bs" and "sender_finish cfg evs n = Some (ok, n')" and "unat (sc_queue_bytes cfg) < 2 ^ 32"
    and "sc_destinations cfg \<noteq> []"
  shows "length (outputs cfg n') = length (sc_destinations cfg)"
    and "\<forall>out\<in>set (outputs cfg n'). gets cfg Bs out \<and> (ok \<longrightarrow> out = repeated cfg Bs)"
proof -
  have "length (outputs cfg n') = length (sc_destinations cfg) \<and>
    (\<forall>out\<in>set (outputs cfg n'). gets cfg Bs out \<and> (ok \<longrightarrow> out = repeated cfg Bs))"
  proof (cases "has_fanout cfg")
    case False
    moreover have "length (sc_destinations cfg) = 1"
      using False assms(4) by (cases "sc_destinations cfg") (auto simp: has_fanout_def)
    ultimately show ?thesis using assms(1,2) gets_all by (auto simp: sender_finish_def outputs_def handed_def)
  next
    case True
    let ?P = "\<lambda>ln. dest_run (unat (sc_repeat cfg)) (sc_durable_acks cfg) (sc_queue_bytes cfg) ln Bs"
    let ?lns = "run_schedule (unat (sc_repeat cfg)) (sc_durable_acks cfg) evs (map finish_link (nt_links n))"
    have n': "nt_links n' = ?lns" "list_all (\<lambda>ln. ln_worker ln = Gone) ?lns" "ok \<longleftrightarrow> list_all (\<lambda>d. \<not> de_failed d) (map ln_dest ?lns)"
      using assms(2) True by (auto simp: sender_finish_def finish_totals_def Let_def split: if_splits)
    have "\<forall>ln\<in>set (map finish_link (nt_links n)). ?P ln" using assms(1) True by (auto simp: handed_def intro: dest_run.finish)
    from run_schedule_keeps [where P = ?P, OF _ this, of "unat (sc_repeat cfg)" "sc_durable_acks cfg" evs]
    have run: "length ?lns = length (nt_links n)" "\<forall>ln\<in>set ?lns. ?P ln" by (auto intro: dest_run.event)
    have "gets cfg Bs (ln_out ln) \<and> (ok \<longrightarrow> ln_out ln = repeated cfg Bs)" if ln: "ln \<in> set ?lns" for ln
    proof -
      have gone: "ln_worker ln = Gone" "ok \<Longrightarrow> \<not> de_failed (ln_dest ln)" using n'(2,3) ln by (auto simp: list_all_iff)
      note h = fanout_history [OF run(2) [rule_format, OF ln] assms(3)]
      have "gets cfg Bs (ln_out ln)" using h unfolding gets_def by fastforce
      moreover have "ok \<longrightarrow> ln_out ln = repeated cfg Bs" using h gone by auto
      ultimately show ?thesis by blast
    qed
    then show ?thesis using True n'(1) run(1) assms(1) by (auto simp: outputs_def handed_def)
  qed
  then show "length (outputs cfg n') = length (sc_destinations cfg)"
    "\<forall>out\<in>set (outputs cfg n'). gets cfg Bs out \<and> (ok \<longrightarrow> out = repeated cfg Bs)" by blast+
qed

lemma sender_forwards:
  assumes "sender_main W g echo (net_init (wd_cfg W) socks schedule) stops fuel evs = Done (code, s)"
    and "plain_fast_path W" and "sender_parse_args stod rs argv = Inr (wd_cfg W)"
    and "\<forall>i. \<exists>m. ring_log (fst (wd_ring W i)) (wd_reader W) n (take m L)" and "ring_log g (wd_reader W) n (take m0 L)"
    and "Suc (length L) < 2 ^ 64"
  shows "\<exists>is Bs. sorted_wrt (<) is \<and> set is \<subseteq> {..<length L} \<and> sn_sent s = of_nat (length is) \<and> sn_frames s = [] \<and>
    list_all2 (\<lambda>i p. datagram_of W (L ! i) p) is (concat Bs) \<and>
    length (outputs (wd_cfg W) (sn_net s)) = length (sc_destinations (wd_cfg W)) \<and>
    (\<forall>out\<in>set (outputs (wd_cfg W) (sn_net s)). gets (wd_cfg W) Bs out \<and> (code = 0 \<longrightarrow> out = repeated (wd_cfg W) Bs)) \<and>
    (length L \<le> n \<longrightarrow> is = [(if sc_from_edge (wd_cfg W) then min m0 (length L) else 0)..<unat (sn_read_index s)])"
proof -
  let ?a = "if sc_from_edge (wd_cfg W) then min m0 (length L) else 0" and ?net = "net_init (wd_cfg W) socks schedule"
  have ok: "sender_ok (wd_cfg W)" using assms(3) by (rule sender_parse_ok)
  then have cap: "batch_cap W \<le> 1024" by (simp add: sender_ok_def batch_cap_def)
  have new: "handed (wd_cfg W) ?net []" by (auto simp: handed_def net_init_def link_init_def dest_init_def intro: dest_run.start [unfolded link_init_def dest_init_def])
  have "unat (live_edge g) = min m0 (length L)" using ring_log_simps(5) [OF assms(5)] by simp
  then have start: "yields (forwarded W L n ?a) (sender_start W g echo ?net)"
    unfolding sender_start_def
    by (cases "encoder_new (if sc_fec_k (wd_cfg W) = 0 then 1 else sc_fec_k (wd_cfg W)) (sc_fec_parity (wd_cfg W))")
      (use new in \<open>auto simp: lift_out_def forwarded_def positions_def intro!: exI [of _ "[]"]\<close>)
  have run: "yields (\<lambda>s'. forwarded W L n ?a s' \<and> sn_frames s' = []) (sender_run W g echo ?net stops fuel)"
    unfolding sender_run_def
    by (rule yields_bind [OF start], rule yields_bind_pair [OF loop_forwarded [OF assms(6,4) cap assms(2)]], assumption)
      (simp add: drain_forwarded [OF cap assms(2)])
  obtain s0 fin n' where s0: "sender_run W g echo ?net stops fuel = Done s0" "sender_finish (wd_cfg W) evs (sn_net s0) = Some (fin, n')"
    "code = sender_exit W fin s0" "s = s0\<lparr>sn_net := n'\<rparr>"
    using assms(1) unfolding sender_main_def by (cases "sender_run W g echo ?net stops fuel") (auto split: option.splits)
  have f: "forwarded W L n ?a s0" "sn_frames s0 = []" using run s0(1) by simp_all
  then obtain "is" Bs where b: "positions L n ?a (sn_read_index s0) is" "sn_sent s0 = of_nat (length is)"
    "handed (wd_cfg W) (sn_net s0) Bs" "list_all2 (\<lambda>i p. datagram_of W (L ! i) p) is (concat Bs)"
    by (auto simp: forwarded_def)
  have lim: "unat (sc_queue_bytes (wd_cfg W)) < 2 ^ 32" "sc_destinations (wd_cfg W) \<noteq> []"
    using ok by (auto simp: sender_ok_def sender_ranges_def)
  note out = finish_outputs [OF b(3) s0(2) lim]
  have "code = 0 \<Longrightarrow> fin" using s0(3) by (simp add: sender_exit_def split: if_splits)
  then show ?thesis using f(2) b out s0(4) by (intro exI [of _ "is"] exI [of _ Bs]) (auto simp: positions_def)
qed


section \<open>The stamped frame\<close>

lemma stamp_frame:
  assumes "validate_frame (Some f)"
  shows "load (get_header LE) (stamp W f) = Inr ((frame_header f)\<lparr>stream_id := sc_stream_id (wd_cfg W), stream_epoch := sc_stream_epoch (wd_cfg W)\<rparr>)"
    and "validate_frame (Some (stamp W f))" and "length (stamp W f) = length f"
proof -
  let ?h = "(frame_header f)\<lparr>stream_id := sc_stream_id (wd_cfg W), stream_epoch := sc_stream_epoch (wd_cfg W)\<rparr>"
  note h = validate_header [OF assms]
  have s: "stamp W f = put_header LE ?h @ drop sizeof_Header f" by (simp add: stamp_def h)
  show l: "load (get_header LE) (stamp W f) = Inr ?h" unfolding s by (rule chdr.load_wr) simp
  have "sizeof_Header \<le> length f" using assms by (auto simp: validate_frame_def split: if_splits)
  then show n: "length (stamp W f) = length f" by (simp add: s size_consts chdr.wr_length [OF TrueI])
  show "validate_frame (Some (stamp W f))"
    using assms by (simp add: validate_frame_iff h l n)
qed

text \<open>The frame as the other side decodes it: the tail padding is cleared.\<close>

definition delivered :: "world \<Rightarrow> bytes \<Rightarrow> bytes" where
  "delivered W f = (let w = frame_width (h_type (frame_header f))
     in take w (stamp W f) @ replicate (length f - w) 0)"

lemma encode_magic: "encode (Some d) = Inr e \<Longrightarrow> \<exists>r. e = put_u32 BE wire_magic @ r"
  by (auto simp: encode_def encode_as_def Let_def bind_exn_Inr_iff split: if_splits)

lemma delivered_frame:
  assumes "validate_frame (Some f)" and "encode (Some (stamp W f)) = Inr e"
  shows "decode (Some e) True = Some (delivered W f)" and "validate_frame (Some (delivered W f))"
    and "frame_header (delivered W f) = (frame_header f)\<lparr>stream_id := sc_stream_id (wd_cfg W), stream_epoch := sc_stream_epoch (wd_cfg W)\<rparr>"
proof -
  let ?h = "(frame_header f)\<lparr>stream_id := sc_stream_id (wd_cfg W), stream_epoch := sc_stream_epoch (wd_cfg W)\<rparr>"
  note s = stamp_frame [OF assms(1), of W]
  show d: "decode (Some e) True = Some (delivered W f)"
    using encode_valid [OF s(2,1)] assms(2) by (simp add: delivered_def s(3) Let_def)
  show "validate_frame (Some (delivered W f))" using decode_canonical [OF d] by blast
  have "stamp W f = put_header LE ?h @ drop sizeof_Header f" by (simp add: stamp_def validate_header [OF assms(1)])
  then have "delivered W f = put_header LE ?h @ drop 40 (delivered W f)"
    by (auto simp: delivered_def Let_def frame_width_def chdr.wr_length [OF TrueI])
  moreover have "load (get_header LE) (put_header LE ?h @ drop 40 (delivered W f)) = Inr ?h" by (rule chdr.load_wr) simp
  ultimately have "load (get_header LE) (delivered W f) = Inr ?h" by simp
  then show "frame_header (delivered W f) = ?h" by (simp add: frame_header_def)
qed

end
