(* ===== verification/Pipeline.thy ===== *)
theory Pipeline
  imports Sender_Order Receiver Consumer Fec_Delivery
begin

text \<open>
  The path of a frame through the system: from the ring the sender reads, through its datagrams
  and the receiver's decoder, identity check and replay window, into the ring the receiver
  writes; and the receiver's callback as the publisher that the decoder works for.
\<close>

section \<open>Recovery into the receiver's callback\<close>

text \<open>
  The callback that the receiver gives to its decoder, with a record of the frames handed to it.
  It accepts every frame of its stream, whether it publishes the frame or drops it as a duplicate.
\<close>

definition logged :: "'s publish \<Rightarrow> ('s \<times> bytes list) publish" where
  "logged hand s f recovered reason =
     bind_exn (hand (fst s) f recovered reason) (\<lambda>(ok, s'). Inr (ok, s', snd s @ [f]))"

definition of_stream :: "key \<Rightarrow> bytes \<Rightarrow> bool" where
  "of_stream k f \<longleftrightarrow> (\<exists>native h. decode (Some f) True = Some native \<and> load (get_header LE) native = Inr h \<and>
     stream_id h = k_stream k \<and> stream_epoch h = k_epoch k)"

lemma publish_frame_takes:
  assumes "publishes_valid pub" and "of_stream k f"
  shows "\<exists>x'. publish_frame pub cfg k x f recovered reason = Inr (True, x')"
proof -
  obtain native h where d: "decode (Some f) True = Some native" "load (get_header LE) native = Inr h"
    "stream_id h = k_stream k" "stream_epoch h = k_epoch k" using assms(2) by (auto simp: of_stream_def)
  have "validate_frame (Some native)" using decode_canonical d(1) by blast
  then have "\<exists>g'. pub g native = Inr g'" for g using assms(1) by (simp add: publishes_valid_def)
  then obtain g' where g': "\<And>g. pub g native = Inr (g' g)" by metis
  obtain res w where o: "observe (rx_dedupe x) (seq_id h) = (res, w)" by fastforce
  show ?thesis using d o g' by (simp add: publish_frame_def Let_def)
qed

interpretation callback: publisher "logged (publish_frame pub cfg k)" snd "\<lambda>_. publishes_valid pub" "of_stream k" for pub cfg k
proof
  fix s :: "rx \<times> bytes list" and f recovered reason
  assume "publishes_valid pub" "of_stream k f"
  then obtain x' where "publish_frame pub cfg k (fst s) f recovered reason = Inr (True, x')"
    using publish_frame_takes by blast
  then show "\<exists>s'. logged (publish_frame pub cfg k) s f recovered reason = Inr (True, s') \<and> publishes_valid pub \<and> snd s' = snd s @ [f]"
    using \<open>publishes_valid pub\<close> by (simp add: logged_def)
qed

text \<open>
  As soon as as many distinct datagrams of a generation of the stream have arrived as it has
  frames, all its frames have been handed to the callback, and nothing else.
\<close>

lemma generation_reaches_callback:
  assumes e: "enc_wf e" "\<not> enc_empty e" "reason \<le> 2" "enc_close e gid reason = Inr (b, e')"
    and d: "d_wf d" "stale gid d" and pub: "publishes_valid pub" and fs: "\<forall>f\<in>set (enc_frames e). of_stream k f"
    and v: "\<forall>x\<in>fst ` set xs. valid_shard (length (enc_frames e)) (unat (enc_parity_count e)) x"
    and enough: "length (enc_frames e) \<le> card (fst ` set xs)"
  shows "\<exists>d' x' log. receive_all (logged (publish_frame pub cfg k)) d (map (\<lambda>(x, now). (packet_of b x, now)) xs) (x0, []) =
    Inr (d', x', log) \<and> set log = set (enc_frames e)"
proof -
  let ?fs = "enc_frames e" and ?ml = "enc_max_len e" and ?kk = "enc_k e" and ?pc = "enc_parity_count e"
  have tr: "tracking ?fs ?ml ?kk ?pc reason gid {} d" using d by (simp add: tracking_def)
  have k0: "known ?fs gid d = {}" using d by (simp add: known_def)
  have c: "complete ?fs gid {} {} d" by (simp add: complete_def)
  from callback.deliver [OF sent_by_encoder [OF e(1-3)] packets_by_encoder [OF e(1,2,4)] fs tr c pub v, of cfg "(x0, [])"]
  obtain d' s' ys where r: "receive_all (logged (publish_frame pub cfg k)) d (map (\<lambda>(x, now). (packet_of b x, now)) xs) (x0, []) = Inr (d', s')"
      "complete ?fs gid ({} \<union> {i. Data i \<in> fst ` set xs}) ({} \<union> {r. Parity r \<in> fst ` set xs}) d'"
      "snd s' = snd (x0, [] :: bytes list) @ ys" "set ys \<subseteq> set ?fs"
      "(\<lambda>i. ?fs ! i) ` (known ?fs gid d' - known ?fs gid d) \<subseteq> set ys"
    by (elim exE conjE)
  have "known ?fs gid d' = {..<length ?fs}"
    by (rule complete_all [OF r(2)]) (use enough card_shards [of "fst ` set xs"] in simp)
  then have "set ?fs \<subseteq> set ys" using r(5) k0 by (auto simp: set_conv_nth)
  then have "set (snd s') = set ?fs" using r(3,4) by auto
  then show ?thesis using r(1) by (cases s') auto
qed

section \<open>A window that has seen increasing numbers\<close>

definition below :: "u64 \<Rightarrow> window \<Rightarrow> bytes list \<Rightarrow> bool" where
  "below sz w F \<longleftrightarrow> (\<exists>a. refines w a \<and> w_size w = sz \<and> (\<forall>f\<in>set F. covered a (unat (frame_seq f))) \<and>
     (\<forall>x. covered a x \<longrightarrow> (\<exists>f\<in>set F. x \<le> unat (frame_seq f))))"

lemma below_new: "window_new sz = Some w \<Longrightarrow> below sz w []"
  using window_new_refines [of sz w] by (auto simp: below_def covered_def)

lemma below_observe:
  assumes "below sz w F" and "\<forall>g\<in>set F. unat (frame_seq g) < unat (frame_seq f)" and "unat (frame_seq f) + unat sz < 2 ^ 64"
  shows "accepted (fst (observe w (frame_seq f)))" and "below sz (snd (observe w (frame_seq f))) (F @ [f])"
proof -
  obtain a where a: "refines w a" "w_size w = sz" "\<forall>x. covered a x \<longrightarrow> (\<exists>f\<in>set F. x \<le> unat (frame_seq f))"
    "\<forall>f\<in>set F. covered a (unat (frame_seq f))"
    using assms(1) by (auto simp: below_def)
  note ok = refines_ok [OF a(1)]
  have "unat (frame_seq f) + N w < 2 ^ 64" using assms(3) a(2) by simp
  note st = observe_step [OF a(1) this]
  let ?a = "snd (abs_observe (N w) a (unat (frame_seq f)))"
  have nc: "\<not> covered a (unat (frame_seq f))" using a(3) assms(2) by fastforce
  then show "accepted (fst (observe w (frame_seq f)))" using st abs_observe_covered(1) [OF ok] by simp
  have "\<exists>g\<in>set (F @ [f]). x \<le> unat (frame_seq g)" if "covered ?a x" for x
    using that a(3) by (auto simp: abs_observe_covered(2) [OF ok] covered_opened split: if_splits)
  moreover have "\<forall>g\<in>set (F @ [f]). covered ?a (unat (frame_seq g))"
    using a(4) covered_mono [OF ok] by (auto simp: abs_observe_covered(2) [OF ok])
  moreover have "w_size (snd (observe w (frame_seq f))) = sz" using st a(2) by (simp add: word_unat_eq_iff)
  ultimately show "below sz (snd (observe w (frame_seq f))) (F @ [f])" using st by (auto simp: below_def)
qed

lemma below_again:
  assumes "below sz w F" and "f \<in> set F" and "unat (frame_seq f) + unat sz < 2 ^ 64"
  shows "\<not> accepted (fst (observe w (frame_seq f)))" and "below sz (snd (observe w (frame_seq f))) F"
proof -
  obtain a where a: "refines w a" "w_size w = sz" "\<forall>x. covered a x \<longrightarrow> (\<exists>f\<in>set F. x \<le> unat (frame_seq f))"
    "\<forall>f\<in>set F. covered a (unat (frame_seq f))"
    using assms(1) by (auto simp: below_def)
  note ok = refines_ok [OF a(1)]
  have "unat (frame_seq f) + N w < 2 ^ 64" using assms(3) a(2) by simp
  note st = observe_step [OF a(1) this]
  let ?a = "snd (abs_observe (N w) a (unat (frame_seq f)))"
  have c: "covered a (unat (frame_seq f))" using a(4) assms(2) by blast
  then show "\<not> accepted (fst (observe w (frame_seq f)))" using st abs_observe_covered(1) [OF ok] by simp
  have some: "a \<noteq> None" using c by (cases a) (auto simp: covered_def)
  have "\<exists>g\<in>set F. x \<le> unat (frame_seq g)" if "covered ?a x" for x
  proof -
    have "covered a x \<or> x \<le> unat (frame_seq f)"
      using that some by (auto simp: abs_observe_covered(2) [OF ok] covered_opened)
    then show ?thesis using a(3) assms(2) by blast
  qed
  moreover have "\<forall>g\<in>set F. covered ?a (unat (frame_seq g))" using a(4) covered_mono [OF ok] by blast
  moreover have "w_size (snd (observe w (frame_seq f))) = sz" using st a(2) by (simp add: word_unat_eq_iff)
  ultimately show "below sz (snd (observe w (frame_seq f))) F" using st by (auto simp: below_def)
qed

section \<open>One datagram\<close>

lemma publish_delivered:
  assumes v: "validate_frame (Some f)" and e: "encode (Some (stamp W f)) = Inr e" and "rc_dedupe_enabled cfg"
    and acc: "accepted (fst (observe (rx_dedupe x) (frame_seq f)))" and pub: "pub (rx_ring x) (delivered W f) = Inr g"
  shows "\<exists>x'. publish_frame pub cfg (sender_key W) x e recovered reason = Inr (True, x') \<and> rx_ring x' = g \<and>
    rx_published x' = rx_published x + 1 \<and> rx_dedupe x' = snd (observe (rx_dedupe x) (frame_seq f))"
proof -
  note d = delivered_frame [OF v e]
  obtain res w where o: "observe (rx_dedupe x) (frame_seq f) = (res, w)" by fastforce
  have h: "load (get_header LE) (delivered W f) =
      Inr ((frame_header f)\<lparr>stream_id := sc_stream_id (wd_cfg W), stream_epoch := sc_stream_epoch (wd_cfg W)\<rparr>)"
    using validate_header [OF d(2)] d(3) by simp
  show ?thesis
    using acc pub assms(3) o [unfolded frame_seq_def]
    by (auto simp: publish_frame_def d(1) h sender_key_def accepted_def frame_seq_def)
qed

lemma publish_refused:
  assumes v: "validate_frame (Some f)" and e: "encode (Some (stamp W f)) = Inr e" and "rc_dedupe_enabled cfg"
    and acc: "\<not> accepted (fst (observe (rx_dedupe x) (frame_seq f)))"
  shows "\<exists>x'. publish_frame pub cfg (sender_key W) x e recovered reason = Inr (True, x') \<and> rx_ring x' = rx_ring x \<and>
    rx_published x' = rx_published x \<and> rx_dedupe x' = snd (observe (rx_dedupe x) (frame_seq f))"
proof -
  note d = delivered_frame [OF v e]
  obtain res w where o: "observe (rx_dedupe x) (frame_seq f) = (res, w)" by fastforce
  have h: "load (get_header LE) (delivered W f) =
      Inr ((frame_header f)\<lparr>stream_id := sc_stream_id (wd_cfg W), stream_epoch := sc_stream_epoch (wd_cfg W)\<rparr>)"
    using validate_header [OF d(2)] d(3) by simp
  show ?thesis
    using acc assms(3) o [unfolded frame_seq_def]
    by (auto simp: publish_frame_def d(1) h sender_key_def accepted_def frame_seq_def)
qed

text \<open>The receiver after it has published the frames \<open>F\<close> of one stream and nothing else.\<close>

definition follows :: "receiver_config \<Rightarrow> key \<Rightarrow> bytes list \<Rightarrow> receiver \<Rightarrow> bool" where
  "follows cfg k F s \<longleftrightarrow> rv_published s = of_nat (length F) \<and> ss_limit (rv_streams s) = unat (rc_max_streams cfg) \<and>
     ss_generations (rv_streams s) = rc_fec_gens cfg \<and> ss_window (rv_streams s) = rc_dedupe_window cfg \<and>
     (ss_values (rv_streams s) = [] \<and> F = [] \<or>
      (\<exists>st. ss_values (rv_streams s) = [(k, st)] \<and> below (rc_dedupe_window cfg) (st_dedupe st) F))"

lemma follows_get:
  assumes "follows cfg k F s" and "rc_max_streams cfg \<noteq> 0" and "window_new (rc_dedupe_window cfg) \<noteq> None"
  obtains ss st where "streams_get (rv_streams s) k = Some (True, ss)" "ss_values ss = [(k, st)]"
    "below (rc_dedupe_window cfg) (st_dedupe st) F" "ss_limit ss = unat (rc_max_streams cfg)"
    "ss_generations ss = rc_fec_gens cfg" "ss_window ss = rc_dedupe_window cfg"
proof (cases "ss_values (rv_streams s) = []")
  case True
  obtain w where w: "window_new (rc_dedupe_window cfg) = Some w" using assms(3) by blast
  have "0 < unat (rc_max_streams cfg)" using assms(2) by (simp add: unat_gt_0)
  then show thesis
    using that [of "(rv_streams s)\<lparr>ss_values := [(k, \<lparr>st_decoder = decoder_new (rc_fec_gens cfg), st_dedupe = w, st_last_seq = 0\<rparr>)]\<rparr>"]
      assms(1) True w below_new [OF w] by (auto simp: follows_def streams_get_def stream_new_def)
next
  case False
  then show thesis using that [of "rv_streams s"] assms(1) by (auto simp: follows_def streams_get_def)
qed

text \<open>
  One datagram of the sender: a new frame reaches the ring, a repeated one changes nothing but
  counters.
\<close>

definition admit :: "bytes list \<Rightarrow> bytes \<Rightarrow> bytes list" where
  "admit F f = (if f \<in> set F then F else F @ [f])"

lemma datagram_delivers:
  assumes v: "validate_frame (Some f)" and p: "datagram_of W f p" and k: "k_stream (sender_key W) \<noteq> 0" "k_epoch (sender_key W) \<noteq> 0"
    and cfg: "rc_dedupe_enabled cfg" "rc_max_streams cfg \<noteq> 0" "window_new (rc_dedupe_window cfg) \<noteq> None"
    and s: "follows cfg (sender_key W) F s" and F: "f \<notin> set F \<Longrightarrow> \<forall>g\<in>set F. unat (frame_seq g) < unat (frame_seq f)"
    and w: "unat (frame_seq f) + unat (rc_dedupe_window cfg) < 2 ^ 64"
    and pub: "if f \<in> set F then g = rv_ring s else pub (rv_ring s) (delivered W f) = Inr g"
  shows "\<exists>s'. receiver_datagram pub cfg False p now s = Some (Inr (Some True, s')) \<and> rv_ring s' = g \<and>
    follows cfg (sender_key W) (admit F f) s'"
proof -
  obtain e where e: "encode (Some (stamp W f)) = Inr e" "p = wrap (sender_key W) e" using p by (auto simp: datagram_of_def)
  obtain ss st where get: "streams_get (rv_streams s) (sender_key W) = Some (True, ss)" "ss_values ss = [(sender_key W, st)]"
    "below (rc_dedupe_window cfg) (st_dedupe st) F" "ss_limit ss = unat (rc_max_streams cfg)"
    "ss_generations ss = rc_fec_gens cfg" "ss_window ss = rc_dedupe_window cfg"
    by (rule follows_get [OF s cfg(2,3)])
  let ?s = "s\<lparr>rv_received := rv_received s + 1, rv_current_key := sender_key W, rv_streams := ss\<rparr>"
  have o: "below (rc_dedupe_window cfg) (snd (observe (st_dedupe st) (frame_seq f))) (admit F f)"
    using below_observe(2) [OF get(3) F w] below_again(2) [OF get(3) _ w] by (auto simp: admit_def)
  have rx: "rx_dedupe (rx_of ?s st) = st_dedupe st" "rx_ring (rx_of ?s st) = rv_ring s" "rx_published (rx_of ?s st) = rv_published s"
    by (simp_all add: rx_of_def)
  obtain x where
    x: "publish_frame pub cfg (sender_key W) (rx_of ?s st) e False 0 = Inr (True, x)" "rx_ring x = g"
      "rx_published x = rv_published s + (if f \<in> set F then 0 else 1)" "rx_dedupe x = snd (observe (st_dedupe st) (frame_seq f))"
  proof (cases "f \<in> set F")
    case True
    then show thesis
      using publish_refused [where x = "rx_of ?s st" and pub = pub and recovered = False and reason = 0, OF v e(1) cfg(1)]
        below_again(1) [OF get(3) _ w] pub rx that by auto
  next
    case False
    then show thesis
      using publish_delivered [where x = "rx_of ?s st" and pub = pub and g = g and recovered = False and reason = 0, OF v e(1) cfg(1)]
        below_observe(1) [OF get(3) F w] pub rx that by auto
  qed
  obtain r where "e = put_u32 BE wire_magic @ r" using encode_magic [OF e(1)] by blast
  moreover have "17 \<le> length e"
    using encode_valid [OF stamp_frame(2,1) [OF v, of W]] e(1) by (auto simp: frame_width_def split: if_splits)
  ultimately have "receive (publish_frame pub cfg (sender_key W)) (st_decoder st) e now (rx_of ?s st) =
      pass_through (publish_frame pub cfg (sender_key W)) (st_decoder st) e (rx_of ?s st)"
    by (rule receive_wire)
  then have "receive (publish_frame pub cfg (sender_key W)) (st_decoder st) e now (rx_of ?s st) = Inr (True, st_decoder st, x)"
    using x(1) by (simp add: pass_through_def)
  moreover have "unwrap p (rv_current_key s) = Inr (True, e, sender_key W)"
    unfolding e(2) wrap_eq unwrap_put using k by simp
  ultimately have "receiver_datagram pub cfg False p now s = Some (Inr (Some True, store_rx ?s (st_decoder st) x))"
    using get(1,2) by (simp add: receiver_datagram_def Let_def)
  moreover have "follows cfg (sender_key W) (admit F f) (store_rx ?s (st_decoder st) x)" "rv_ring (store_rx ?s (st_decoder st) x) = g"
    using s x get o by (simp_all add: follows_def store_rx_def streams_put_def admit_def)
  ultimately show ?thesis by blast
qed

section \<open>Frames that arrive in order, some of them again\<close>

abbreviation admits :: "bytes list \<Rightarrow> bytes list \<Rightarrow> bytes list" where
  "admits F fs \<equiv> foldl admit F fs"

fun in_order :: "bytes list \<Rightarrow> bytes list \<Rightarrow> bool" where
  "in_order F [] = True"
| "in_order F (f # fs) =
     ((f \<notin> set F \<longrightarrow> (\<forall>g\<in>set F. unat (frame_seq g) < unat (frame_seq f))) \<and> in_order (admit F f) fs)"

abbreviation increasing :: "bytes list \<Rightarrow> bool" where
  "increasing F \<equiv> sorted_wrt (\<lambda>f g. unat (frame_seq f) < unat (frame_seq g)) F"

lemma in_order_append: "in_order F (fs @ gs) \<longleftrightarrow> in_order F fs \<and> in_order (admits F fs) gs"
  by (induction fs arbitrary: F) auto

lemma admits_length: "length F \<le> length (admits F fs)"
proof (induction fs arbitrary: F)
  case (Cons f fs)
  have "length F \<le> length (admit F f)" by (simp add: admit_def)
  also have "\<dots> \<le> length (admits (admit F f) fs)" by (rule Cons.IH)
  finally show ?case by simp
qed simp

lemma in_order_new: "increasing (F @ fs) \<Longrightarrow> in_order F fs \<and> admits F fs = F @ fs"
proof (induction fs arbitrary: F)
  case (Cons f fs)
  then have lt: "\<forall>g\<in>set F. unat (frame_seq g) < unat (frame_seq f)" by (auto simp: sorted_wrt_append)
  then have "admit F f = F @ [f]" by (auto simp: admit_def)
  then show ?case using Cons.IH [of "F @ [f]"] Cons.prems lt by simp
qed simp

lemma in_order_again: "set fs \<subseteq> set F \<Longrightarrow> in_order F fs \<and> admits F fs = F"
  by (induction fs) (auto simp: admit_def)

text \<open>Batches sent several times in a row give every frame once.\<close>

lemma in_order_repeated:
  assumes "k \<noteq> 0"
  shows "increasing (F @ concat Fs) \<Longrightarrow>
    in_order F (concat (map (\<lambda>fs. concat (replicate k fs)) Fs)) \<and>
    admits F (concat (map (\<lambda>fs. concat (replicate k fs)) Fs)) = F @ concat Fs"
proof (induction Fs arbitrary: F)
  case (Cons fs Fs)
  obtain j where j: "k = Suc j" using assms by (cases k) auto
  have new: "in_order F fs" "admits F fs = F @ fs"
    using in_order_new [of F fs] Cons.prems by (auto simp: sorted_wrt_append)
  have "set (concat (replicate j fs)) \<subseteq> set (F @ fs)" by auto
  note again = in_order_again [OF this]
  show ?case using Cons.IH [of "F @ fs"] Cons.prems new again by (simp add: j in_order_append)
qed simp

lemma list_all2_concat_split:
  "list_all2 R xs (concat Bs) \<Longrightarrow> \<exists>Xs. concat Xs = xs \<and> list_all2 (list_all2 R) Xs Bs"
proof (induction Bs arbitrary: xs)
  case (Cons B Bs)
  then obtain us vs where u: "xs = us @ vs" "list_all2 R us B" "list_all2 R vs (concat Bs)"
    by (auto simp: list_all2_append2)
  obtain Xs where "concat Xs = vs" "list_all2 (list_all2 R) Xs Bs" using Cons.IH [OF u(3)] by blast
  then show ?case using u by (intro exI [of _ "us # Xs"]) simp
qed auto

lemma list_all2_repeated:
  "list_all2 (list_all2 R) Xs Bs \<Longrightarrow>
   list_all2 R (concat (map (\<lambda>fs. concat (replicate k fs)) Xs)) (concat (map (\<lambda>fs. concat (replicate k fs)) Bs))"
proof (induction Xs Bs rule: list_all2_induct)
  case (Cons X Xs B Bs)
  have "list_all2 R (concat (replicate k X)) (concat (replicate k B))"
    using Cons(1) by (induction k) (auto intro: list_all2_appendI)
  then show ?case using Cons by (auto intro: list_all2_appendI)
qed simp

section \<open>A batch\<close>

text \<open>Messages that arrive whole, whose acknowledgements can be sent.\<close>

definition intact :: "(bool \<times> bytes \<times> u64 \<times> bool) list \<Rightarrow> bytes list \<Rightarrow> bool" where
  "intact msgs ps \<longleftrightarrow> map (\<lambda>(truncated, data, now, ack_ok). (truncated, data, ack_ok)) msgs = map (\<lambda>p. (False, p, True)) ps"

text \<open>The passes of the receiver's loop in which the datagrams \<open>ps\<close> arrive, in any number of receive calls.\<close>

fun arrives :: "(bool \<times> receiver_env) list \<Rightarrow> bytes list \<Rightarrow> bool" where
  "arrives [] ps \<longleftrightarrow> ps = []"
| "arrives ((stop, env) # es) ps \<longleftrightarrow> \<not> stop \<and>
     (case re_input env of Messages msgs sends \<Rightarrow> intact msgs (take (length msgs) ps) \<and> arrives es (drop (length msgs) ps)
      | _ \<Rightarrow> False)"

lemma follows_expire: "follows cfg k F s \<Longrightarrow> follows cfg k F (s\<lparr>rv_streams := expire_streams now (rv_streams s)\<rparr>)"
  by (auto simp: follows_def expire_streams_def)

lemma follows_progress: "follows cfg k F (s\<lparr>rv_last_progress := t\<rparr>) = follows cfg k F s"
  by (simp add: follows_def)

context frame_sink begin

lemma batch_delivers:
  assumes k: "k_stream (sender_key W) \<noteq> 0" "k_epoch (sender_key W) \<noteq> 0"
    and cfg: "rc_dedupe_enabled cfg" "rc_max_streams cfg \<noteq> 0" "window_new (rc_dedupe_window cfg) \<noteq> None"
    and pub: "\<forall>g K f. contents g K \<longrightarrow> length K < m \<longrightarrow> validate_frame (Some f) \<longrightarrow> (\<exists>g'. pub g f = Inr g')"
  shows "length (admits F fs) \<le> m \<Longrightarrow> list_all2 (datagram_of W) fs ps \<Longrightarrow> intact msgs ps \<Longrightarrow> follows cfg (sender_key W) F s \<Longrightarrow>
    contents (rv_ring s) (map (delivered W) F) \<Longrightarrow> \<forall>f\<in>set fs. validate_frame (Some f) \<Longrightarrow> in_order F fs \<Longrightarrow>
    \<forall>f\<in>set fs. unat (frame_seq f) + unat (rc_dedupe_window cfg) < 2 ^ 64 \<Longrightarrow>
    \<exists>s'. receiver_batch pub cfg s msgs = Go s' \<and> follows cfg (sender_key W) (admits F fs) s' \<and>
      contents (rv_ring s') (map (delivered W) (admits F fs))"
proof (induction fs arbitrary: ps msgs F s)
  case Nil
  then show ?case by (auto simp: intact_def)
next
  case (Cons f fs)
  obtain p ps' where ps: "ps = p # ps'" "datagram_of W f p" "list_all2 (datagram_of W) fs ps'"
    using Cons.prems(2) by (auto simp: list_all2_Cons1)
  obtain now msgs' where msgs: "msgs = (False, p, now, True) # msgs'" "intact msgs' ps'"
    using Cons.prems(3) ps(1) by (cases msgs) (auto simp: intact_def)
  have v: "validate_frame (Some f)" using Cons.prems(6) by simp
  obtain e where e: "encode (Some (stamp W f)) = Inr e" using ps(2) by (auto simp: datagram_of_def)
  have "length (map (delivered W) F) < m" if "f \<notin> set F"
  proof -
    have "length F < length (admit F f)" using that by (simp add: admit_def)
    then show ?thesis using Cons.prems(1) admits_length [of "admit F f" fs] by simp
  qed
  then obtain g where g: "if f \<in> set F then g = rv_ring s else pub (rv_ring s) (delivered W f) = Inr g"
    using pub Cons.prems(5) delivered_frame(2) [OF v e] by (metis (full_types))
  obtain s1 where s1: "receiver_datagram pub cfg False p now s = Some (Inr (Some True, s1))" "rv_ring s1 = g"
    "follows cfg (sender_key W) (admit F f) s1"
    using datagram_delivers [where pub = pub and now = now, OF v ps(2) k cfg Cons.prems(4) _ _ g] Cons.prems(7,8) by auto
  have c: "contents (rv_ring s1) (map (delivered W) (admit F f))"
    using append [OF Cons.prems(5), of "delivered W f" g] g s1(2) Cons.prems(5) by (auto simp: admit_def split: if_splits)
  from Cons.IH [OF _ ps(3) msgs(2) s1(3) c] Cons.prems(1,6-8) show ?case
    by (simp add: msgs(1) s1(1))
qed

lemma loop_delivers:
  assumes k: "k_stream (sender_key W) \<noteq> 0" "k_epoch (sender_key W) \<noteq> 0"
    and cfg: "rc_dedupe_enabled cfg" "rc_max_streams cfg \<noteq> 0" "window_new (rc_dedupe_window cfg) \<noteq> None"
    and run: "rc_count cfg = 0" "\<not> rc_echo cfg"
    and pub: "\<forall>g K f. contents g K \<longrightarrow> length K < m \<longrightarrow> validate_frame (Some f) \<longrightarrow> (\<exists>g'. pub g f = Inr g')"
  shows "length (admits F fs) \<le> m \<Longrightarrow> list_all2 (datagram_of W) fs ps \<Longrightarrow> arrives es ps \<Longrightarrow> follows cfg (sender_key W) F s \<Longrightarrow>
    contents (rv_ring s) (map (delivered W) F) \<Longrightarrow> \<forall>f\<in>set fs. validate_frame (Some f) \<Longrightarrow> in_order F fs \<Longrightarrow>
    \<forall>f\<in>set fs. unat (frame_seq f) + unat (rc_dedupe_window cfg) < 2 ^ 64 \<Longrightarrow>
    \<exists>s'. receiver_loop pub cfg s (es @ [(True, env)]) = Some (Leave s') \<and> follows cfg (sender_key W) (admits F fs) s' \<and>
      contents (rv_ring s') (map (delivered W) (admits F fs))"
proof (induction es ps arbitrary: F fs s rule: arrives.induct)
  case (1 ps)
  then show ?case by auto
next
  case (2 stop en es ps)
  obtain msgs sends where m: "re_input en = Messages msgs sends" "intact msgs (take (length msgs) ps)"
    "arrives es (drop (length msgs) ps)" "\<not> stop"
    using 2(4) by (auto split: rx_input.splits)
  let ?n = "length msgs" and ?s = "s\<lparr>rv_streams := expire_streams (re_expire en) (rv_streams s)\<rparr>"
  have all: "list_all2 (datagram_of W) (take ?n fs) (take ?n ps)" "list_all2 (datagram_of W) (drop ?n fs) (drop ?n ps)"
    using 2(3) by (simp_all add: list_all2_takeI list_all2_dropI)
  have ord: "in_order F (take ?n fs)" "in_order (admits F (take ?n fs)) (drop ?n fs)"
    using 2(8) in_order_append [of F "take ?n fs" "drop ?n fs"] by auto
  have adm: "admits (admits F (take ?n fs)) (drop ?n fs) = admits F fs" using foldl_append [of admit F "take ?n fs" "drop ?n fs"] by simp
  have len: "length (admits F (take ?n fs)) \<le> m" using admits_length [of "admits F (take ?n fs)" "drop ?n fs"] 2(2) unfolding adm by (rule order_trans)
  have ok: "\<forall>f\<in>set (take ?n fs). validate_frame (Some f)" "\<forall>f\<in>set (drop ?n fs). validate_frame (Some f)"
    "\<forall>f\<in>set (take ?n fs). unat (frame_seq f) + unat (rc_dedupe_window cfg) < 2 ^ 64"
    "\<forall>f\<in>set (drop ?n fs). unat (frame_seq f) + unat (rc_dedupe_window cfg) < 2 ^ 64"
    using 2(7,9) by (auto dest: in_set_takeD in_set_dropD)
  from batch_delivers [OF k cfg pub len all(1) m(2) follows_expire [OF 2(5)] _ ok(1) ord(1) ok(3), of "re_expire en"] 2(6)
  obtain s1 where s1: "receiver_batch pub cfg ?s msgs = Go s1" "follows cfg (sender_key W) (admits F (take ?n fs)) s1"
    "contents (rv_ring s1) (map (delivered W) (admits F (take ?n fs)))" by auto
  obtain s2 where s2: "receiver_pass pub cfg en s = Go s2" "follows cfg (sender_key W) (admits F (take ?n fs)) s2"
    "contents (rv_ring s2) (map (delivered W) (admits F (take ?n fs)))"
    using s1 m(1) run by (cases "msgs = []") (auto simp: receiver_pass_def Let_def follows_progress)
  show ?case
    using 2(1) [OF m(1) _ all(2) m(3) s2(2,3) ok(2) ord(2) ok(4)] 2(2) unfolding adm
    by (simp add: s2(1) m(4) run receiver_guard_def)
qed

end

lemma follows_new: "follows cfg k [] (receiver_new cfg g now)"
  by (simp add: follows_def receiver_new_def streams_new_def)

section \<open>From ring to ring\<close>

text \<open>
  C1. End to end on the plain path (no forward error correction, no test impairment, no echo).
  Suppose the sender's ring holds ever longer parts of a log of valid frames with strictly
  increasing sequence numbers that stay a window's length below \<open>2\<^sup>6\<^sup>4\<close>; the sender ends with the
  exit code 0; what went out to one of its destinations, with the repetitions that \<open>--repeat\<close>
  asks for, arrives there whole and in order, in any number of receive calls; and the receiver
  started empty, removes duplicates, has no frame limit, and its ring takes every valid frame.
  Then the receiver's loop runs without an error until it is stopped, and its ring holds the
  frames at strictly increasing positions of the sender's log, each once and in order, with the
  sender's stream identity and cleared padding: as many as the sender counted, and none skipped
  when the sender's ring is large enough to hold the log.
\<close>

theorem pipeline_delivers:
  assumes "sender_main W g echo (net_init (wd_cfg W) socks schedule) stops fuel evs = Done (0, s)"
    and "plain_fast_path W" and "sender_parse_args stod rs argv = Inr (wd_cfg W)"
    and "\<forall>i. \<exists>m. ring_log (fst (wd_ring W i)) (wd_reader W) n (take m L)" and "ring_log g (wd_reader W) n (take m0 L)"
    and "Suc (length L) < 2 ^ 64" and "\<forall>f\<in>set L. validate_frame (Some f)"
    and "sorted_wrt (\<lambda>f g. unat (frame_seq f) < unat (frame_seq g)) L"
    and "\<forall>f\<in>set L. unat (frame_seq f) + unat (rc_dedupe_window cfg) < 2 ^ 64"
    and "ps \<in> set (outputs (wd_cfg W) (sn_net s))" and "arrives es ps"
    and "receiver_parse_args argv' = Inr cfg" and "rc_dedupe_enabled cfg" and "rc_count cfg = 0" and "\<not> rc_echo cfg"
    and "\<forall>g K f. ring_log g w n' K \<longrightarrow> validate_frame (Some f) \<longrightarrow> (\<exists>g'. ring_pub w env g f = Inr g')"
    and "ring_log out w n' []" and "length L + n' < 2 ^ 64"
  shows "\<exists>is r. sorted_wrt (<) is \<and> set is \<subseteq> {..<length L} \<and>
    receiver_loop (ring_pub w env) cfg (receiver_new cfg out now) (es @ [(True, end_env)]) = Some (Leave r) \<and>
    rv_published r = of_nat (length is) \<and> sn_sent s = of_nat (length is) \<and>
    ring_log (rv_ring r) w n' (map (\<lambda>i. delivered W (L ! i)) is) \<and>
    (length L \<le> n \<longrightarrow> is = [(if sc_from_edge (wd_cfg W) then min m0 (length L) else 0)..<unat (sn_read_index s)])"
proof -
  obtain "is" Bs where is': "sorted_wrt (<) is" "set is \<subseteq> {..<length L}" "sn_sent s = of_nat (length is)"
    "list_all2 (\<lambda>i p. datagram_of W (L ! i) p) is (concat Bs)" "ps = repeated (wd_cfg W) Bs"
    "length L \<le> n \<longrightarrow> is = [(if sc_from_edge (wd_cfg W) then min m0 (length L) else 0)..<unat (sn_read_index s)]"
    using sender_forwards [OF assms(1-6)] assms(10) by blast
  define fs where "fs = map ((!) L) is"
  have "list_all2 (datagram_of W) fs (concat Bs)" using is'(4) by (simp add: fs_def list_all2_map1)
  then obtain Fs where Fs: "concat Fs = fs" "list_all2 (list_all2 (datagram_of W)) Fs Bs"
    using list_all2_concat_split by blast
  have ok: "sender_ok (wd_cfg W)" using assms(3) by (rule sender_parse_ok)
  then have key: "k_stream (sender_key W) \<noteq> 0" "k_epoch (sender_key W) \<noteq> 0" and rep: "unat (sc_repeat (wd_cfg W)) \<noteq> 0"
    by (auto simp: sender_ok_def sender_ranges_def sender_key_def unat_eq_0)
  let ?rs = "repeated (wd_cfg W) Fs"
  have "increasing fs"
    unfolding fs_def sorted_wrt_map
    by (rule sorted_wrt_mono_rel [OF _ is'(1)]) (use is'(2) assms(8) in \<open>auto simp: sorted_wrt_iff_nth_less subset_iff\<close>)
  then have ord: "in_order [] ?rs" "admits [] ?rs = fs" using in_order_repeated [OF rep, of "[]" Fs] Fs(1) by simp_all
  have ps: "list_all2 (datagram_of W) ?rs ps" unfolding is'(5) by (rule list_all2_repeated [OF Fs(2)])
  have "set (concat Fs) \<subseteq> set L" unfolding Fs(1) using is'(2) by (auto simp: fs_def)
  then have sub: "set ?rs \<subseteq> set L" by fastforce
  have all: "\<forall>f\<in>set ?rs. validate_frame (Some f)" "\<forall>f\<in>set ?rs. unat (frame_seq f) + unat (rc_dedupe_window cfg) < 2 ^ 64"
    using assms(7,9) sub by blast+
  have "length is \<le> length L"
    using card_mono [OF _ is'(2)] distinct_card [of "is"] is'(1) by (simp add: strict_sorted_iff)
  then have len: "length (admits [] ?rs) \<le> length L" unfolding ord(2) by (simp add: fs_def)
  have empty: "ring_contents w n' (rv_ring (receiver_new cfg out now)) (map (delivered W) [])"
    using assms(17) by (simp add: ring_contents_def receiver_new_def)
  have pub: "\<forall>g K f. ring_contents w n' g K \<longrightarrow> length K < length L \<longrightarrow> validate_frame (Some f) \<longrightarrow>
      (\<exists>g'. ring_pub w env g f = Inr g')"
    using assms(16,18) by (auto simp: ring_contents_def)
  from ring_sink.loop_delivers [OF key assms(13) parsed_streams [OF assms(12)] parsed_window [OF assms(12)] assms(14,15) pub len ps
      assms(11) follows_new empty all(1) ord(1) all(2)]
  obtain r where r: "receiver_loop (ring_pub w env) cfg (receiver_new cfg out now) (es @ [(True, end_env)]) = Some (Leave r)"
    "follows cfg (sender_key W) fs r" "ring_contents w n' (rv_ring r) (map (delivered W) fs)"
    unfolding ord(2) by blast
  then have "rv_published r = of_nat (length is)" "ring_log (rv_ring r) w n' (map (\<lambda>i. delivered W (L ! i)) is)"
    using assms(18) len ord(2) by (simp_all add: follows_def fs_def ring_contents_def comp_def)
  then show ?thesis using is' r(1) by blast
qed

section \<open>A run\<close>

text \<open>The sender on a ring that holds one frame, a stream socket for its datagram, and a receiver behind it.\<close>

abbreviation one_world :: world where
  "one_world \<equiv> example_world (\<lambda>_. (example_region, Inr True))"

definition one_socket :: "nat \<Rightarrow> socket_env" where
  "one_socket n =
     (let moved = (\<lambda>k. \<lparr>tu_stop = False, tu_now = 0, tu_poll = PollReady, tu_io = IoMoved k\<rparr>)
      in StreamSocket [\<lparr>fe_now = 0, fe_turns = [moved 2, moved n], fe_ack_now = 0, fe_ack = [], fe_ack_turns = []\<rparr>])"

lemma one_world_read:
  "sn_read_index s = 0 \<Longrightarrow> ring_read one_world s = Done (kOk, example_native, 0, s\<lparr>sn_reads := Suc (sn_reads s)\<rparr>)"
  "sn_read_index s = 1 \<Longrightarrow> ring_read one_world s = Done (kEmpty, [], 0, s\<lparr>sn_reads := Suc (sn_reads s)\<rparr>)"
  using read_log [OF example_log, of "sn_read_index s"] by (simp_all add: ring_read_def example_world_def lift_out_def)

lemma one_world_cfg [simp]: "wd_cfg one_world = example_sender"
  "wd_ring one_world i = (example_region, Inr True)" "wd_reader one_world = snd ring_1"
  by (simp_all add: example_world_def)

lemma one_world_plain: "plain_fast_path one_world"
  by (simp add: plain_fast_path_def echoing_def example_sender_def sender_defaults_def d_eq_def d_nan_def d_order_def)

lemma one_world_direct [simp]: "\<not> has_fanout example_sender" "sc_repeat example_sender = 1" "\<not> sc_durable_acks example_sender"
  by (simp_all add: has_fanout_def example_sender_def sender_defaults_def)

lemma one_world_fill:
  assumes "sn_read_index s = 0" and "sn_frames s = []" and "encode (Some (stamp one_world example_native)) = Inr e"
  shows "\<exists>s'. fast_fill one_world now False s = Done (True, s') \<and> sn_frames s' = [e] \<and> sn_sent s' = sn_sent s + 1 \<and>
    sn_net s' = sn_net s \<and> sn_pending s' = sn_pending s \<and> sn_read_index s' = 1"
proof -
  have cap: "batch_cap one_world = 32" "\<And>s. wants_more one_world s"
    by (simp_all add: batch_cap_def wants_more_def example_sender_def sender_defaults_def)
  have "length example_native \<le> datagram_cap" "length e \<le> datagram_cap"
    using example_frame(2) encode_length(3) [OF assms(3)] caps by (simp_all add: datagram_cap_def max_frame_def)
  then show ?thesis
    using assms by (subst fast_fill.simps, simp add: cap one_world_read(1), subst fast_fill.simps)
      (simp add: cap one_world_read(2) fast_store_def)
qed

lemma one_socket_sends:
  assumes "p \<noteq> []" and "nt_socks n = one_socket (length p) # socks"
  shows "\<exists>n'. send_batch example_sender [p] n = Some (True, n')"
  using assms
  by (simp add: send_batch_def flush_direct_def flush_batch_direct_def flush_socket_def one_socket_def Let_def send_frame_def
      length_prefix_def exI [of _ True])

lemma one_world_run:
  "\<exists>k s. sender_main one_world (fst ring_1) (fst ring_1) (net_init example_sender [one_socket k] []) [False, True] 0 [] = Done (0, s) \<and>
     sn_sent s = 1"
proof -
  obtain e where e: "encode (Some (stamp one_world example_native)) = Inr e"
    using encode_valid [OF stamp_frame(2,1) [OF example_frame(3), of one_world]] by blast
  let ?p = "wrap (sender_key one_world) e"
  let ?net = "net_init example_sender [one_socket (length ?p)] []"
  obtain en where en: "encoder_new 1 1 = Inr en" by (simp add: encoder_new_def kMaxGeneration_def)
  obtain s0 where s0: "sender_start one_world (fst ring_1) (fst ring_1) ?net = Done s0" "sn_read_index s0 = 0" "sn_frames s0 = []"
    "sn_sent s0 = 0" "sn_pending s0 = []" "sn_net s0 = ?net"
    using en by (simp add: sender_start_def lift_out_def example_sender_def sender_defaults_def)
  let ?t = "s0\<lparr>sn_tick := Suc (sn_tick s0)\<rparr>"
  obtain s1 where s1: "fast_fill one_world (wd_clk one_world (sn_tick s0)) False ?t = Done (True, s1)" "sn_frames s1 = [e]" "sn_sent s1 = 1"
    "sn_pending s1 = []" "sn_net s1 = ?net"
    using one_world_fill [OF _ _ e, of ?t] s0 by auto
  have plain: "\<not> echoing one_world" "sc_fec_k example_sender = 0" "batch_cap one_world = 32" "\<And>s. wants_more one_world s"
    "sc_count example_sender = 0"
    by (simp_all add: echoing_def batch_cap_def wants_more_def example_sender_def sender_defaults_def)
  have p: "length ?p \<le> datagram_cap" "?p \<noteq> []"
  proof -
    have "length ?p = 20 + length e" by (simp add: wrap_eq)
    then show "length ?p \<le> datagram_cap" "?p \<noteq> []" using encode_length(3) [OF e] by (auto simp: datagram_cap_def max_frame_def)
  qed
  obtain n where n: "send_batch example_sender [?p] ?net = Some (True, n)"
    using one_socket_sends [OF p(2), of ?net] by (auto simp: net_init_def)
  obtain s2 where s2: "flush_batch one_world (s1\<lparr>sn_last_progress := wd_clk one_world (sn_tick s0)\<rparr>) = Done (True, s2)"
    "sn_frames s2 = []" "sn_sent s2 = 1" "sn_pending s2 = []"
    using s1 p(1) n by (simp add: flush_batch_def)
  have turn: "sender_turn one_world s0 = Done (True, s2)"
    using s0(3) s1 s2 by (simp add: sender_turn_def drain_echo_def require_def clock_def plain one_world_plain fast_turn_def)
  let ?d = "s2\<lparr>sn_tick := Suc (sn_tick s2), sn_pending := []\<rparr>"
  have "sender_drain one_world 0 s2 = Done ?d"
    using s2(2,4) by (simp add: sender_drain_def close_generation_def require_def clock_def flush_pending_def flush_batch_def plain)
  then have "sender_run one_world (fst ring_1) (fst ring_1) ?net [False, True] 0 = Done ?d"
    using s0(1) turn plain(4) by (simp add: sender_run_def)
  then have "sender_main one_world (fst ring_1) (fst ring_1) ?net [False, True] 0 [] = Done (0, ?d)"
    by (simp add: sender_main_def sender_finish_def sender_exit_def plain(5))
  then show ?thesis using s2(3) by (intro exI [of _ "length ?p"] exI [of _ ?d]) simp
qed

lemma one_world_logs:
  "\<forall>i. \<exists>m. ring_log (fst (wd_ring one_world i)) (wd_reader one_world) 1 (take m [example_native])"
  "ring_log (fst ring_1) (wd_reader one_world) 1 (take 0 [example_native])"
  using example_log ring_1_log by (auto intro!: exI [of _ 1])


text \<open>An output ring with one reader that keeps up.\<close>

definition kept_up :: "region \<Rightarrow> bytes \<Rightarrow> u64 \<times> (reader_state list \<times> bool \<times> u64) list \<times> (exn + unit)" where
  "kept_up g f = (0, [([\<lparr>rs_pid = 1, rs_cursor = live_edge g - slot_count g + 1\<rparr>], False, 0)], Inr ())"

lemma kept_up_publishes:
  assumes "ring_log g (snd ring_1) n K" and "validate_frame (Some f)"
  shows "\<exists>g'. ring_pub (snd ring_1) kept_up g f = Inr g'"
proof -
  note l = ring_log_simps [OF assms(1)]
  have "\<not> live_edge g - slot_count g + 1 \<le> live_edge g - slot_count g" if "slot_count g \<le> live_edge g"
  proof -
    have "unat (live_edge g - slot_count g) = length K - n" using that l(3,5) by (simp add: unat_sub)
    then have "Suc (unat (live_edge g - slot_count g)) < 2 ^ 64" using l(1,6) by simp
    then show ?thesis by (simp add: word_le_nat_alt unat_inc)
  qed
  then show ?thesis
    using valid_length [OF assms(2)] ring_1_facts(2)
    by (auto simp: ring_pub_def kept_up_def publish_def overrun_def Let_def)
qed

lemma pipeline_delivers_witness:
  "\<exists>k s is r ps. sender_main one_world (fst ring_1) (fst ring_1) (net_init example_sender [one_socket k] []) [False, True] 0 [] = Done (0, s) \<and>
     sn_sent s = 1 \<and> outputs example_sender (sn_net s) = [ps] \<and>
     receiver_loop (ring_pub (snd ring_1) kept_up) run_cfg (receiver_new run_cfg (fst ring_1) 0)
       ([(False, run_env\<lparr>re_input := Messages (map (\<lambda>p. (False, p, 0, True)) ps) []\<rparr>)] @ [(True, run_env)]) = Some (Leave r) \<and>
     rv_published r = of_nat (length is) \<and> sn_sent s = of_nat (length is) \<and>
     ring_log (rv_ring r) (snd ring_1) 1 (map (\<lambda>i. delivered one_world ([example_native] ! i)) is)"
proof -
  obtain k s where s: "sender_main one_world (fst ring_1) (fst ring_1) (net_init (wd_cfg one_world) [one_socket k] []) [False, True] 0 [] = Done (0, s)"
    "sn_sent s = 1"
    using one_world_run by (auto simp: example_world_def)
  have cfg: "rc_dedupe_enabled run_cfg" "rc_count run_cfg = 0" "\<not> rc_echo run_cfg" "rc_dedupe_window run_cfg = 65536"
    by (simp_all add: run_cfg_def receiver_defaults_def)
  let ?ps = "nt_out (sn_net s)"
  let ?es = "[(False, run_env\<lparr>re_input := Messages (map (\<lambda>p. (False, p, 0, True)) ?ps) []\<rparr>)]"
  have out: "outputs (wd_cfg one_world) (sn_net s) = [?ps]" by (simp add: outputs_def)
  have arr: "arrives ?es ?ps" by (simp add: intact_def comp_def)
  have pub: "\<forall>g K f. ring_log g (snd ring_1) 1 K \<longrightarrow> validate_frame (Some f) \<longrightarrow>
      (\<exists>g'. ring_pub (snd ring_1) kept_up g f = Inr g')" using kept_up_publishes by blast
  have L: "Suc (length [example_native]) < 2 ^ 64" "\<forall>f\<in>set [example_native]. validate_frame (Some f)"
    "sorted_wrt (\<lambda>f g. unat (frame_seq f) < unat (frame_seq g)) [example_native]"
    "\<forall>f\<in>set [example_native]. unat (frame_seq f) + unat (rc_dedupe_window run_cfg) < 2 ^ 64"
    "length [example_native] + 1 < 2 ^ 64"
    using example_frame(3) by (simp_all add: cfg(4) example_key(2))
  have mem: "?ps \<in> set (outputs (wd_cfg one_world) (sn_net s))" unfolding out by simp
  from pipeline_delivers [where now = 0 and end_env = run_env, OF s(1) one_world_plain example_world_args one_world_logs L(1-4) mem arr
      run_cfg cfg(1-3) pub ring_1_log L(5)] s out
  show ?thesis unfolding one_world_cfg by blast
qed

end
