(* ===== verification/Segment.thy ===== *)
theory Segment
  imports Prelude
begin

text \<open>
  Opening the shared-memory segment, \<open>shm_segment.h\<close>: the program that creates a segment holds an
  exclusive lock on it from before it has a size until \<open>ready\<close>, and the programs that open it
  poll for a shared lock and look at the size under it. The processes run interleaved, one
  system call at a time. Locks are those of \<open>flock\<close>: shared ones exclude an exclusive one, and
  closing the descriptor releases them. A deadline may pass wherever the code looks at it.
\<close>

section \<open>States\<close>

text \<open>Where the creator is in \<open>open\<close> and what follows it; \<open>CFailed\<close> is an exception, after the cleanup.\<close>

datatype creator = CStart | COpened | CLocked | CSized | CMapped | CBuilt | CReady | CFailed

text \<open>Where a program that attaches is in \<open>open\<close>; \<open>RMapped\<close> is before and \<open>RDone\<close> after the final unlock.\<close>

datatype opener = RStart | ROpened | RLocked | RMapped | RDone | RFailed

text \<open>
  The name in the file system, the size of the object, whether the ring in it is initialised,
  the creator, and the openers with the size each expects.
\<close>

record segment =
  sg_named :: bool
  sg_size :: u64
  sg_built :: bool
  sg_creator :: creator
  sg_openers :: "(opener \<times> u64) list"

definition segment_init :: "u64 list \<Rightarrow> segment" where
  "segment_init sizes = \<lparr>sg_named = False, sg_size = 0, sg_built = False, sg_creator = CStart,
     sg_openers = map (Pair RStart) sizes\<rparr>"

text \<open>Who holds which lock.\<close>

definition exclusive :: "segment \<Rightarrow> bool" where
  "exclusive s \<longleftrightarrow> sg_creator s \<in> {CLocked, CSized, CMapped, CBuilt}"

definition shared :: "segment \<Rightarrow> bool" where
  "shared s \<longleftrightarrow> (\<exists>r\<in>set (sg_openers s). fst r \<in> {RLocked, RMapped})"

section \<open>Steps\<close>

text \<open>The creator, with the size it asks for.\<close>

inductive creator_step :: "u64 \<Rightarrow> segment \<Rightarrow> segment \<Rightarrow> bool" for sz :: u64 where
  create: "creator_step sz s (s\<lparr>sg_named := True, sg_creator := COpened\<rparr>)"
    if "sg_creator s = CStart" "\<not> sg_named s"
| create_fails: "creator_step sz s (s\<lparr>sg_creator := CFailed\<rparr>)" if "sg_creator s = CStart"
| lock: "creator_step sz s (s\<lparr>sg_creator := CLocked\<rparr>)" if "sg_creator s = COpened" "\<not> shared s"
| truncate: "creator_step sz s (s\<lparr>sg_size := sz, sg_creator := CSized\<rparr>)" if "sg_creator s = CLocked"
| map: "creator_step sz s (s\<lparr>sg_creator := CMapped\<rparr>)" if "sg_creator s = CSized"
| attach: "creator_step sz s (s\<lparr>sg_built := True, sg_creator := CBuilt\<rparr>)" if "sg_creator s = CMapped"
| ready: "creator_step sz s (s\<lparr>sg_creator := CReady\<rparr>)" if "sg_creator s = CBuilt"
| throw: "creator_step sz s (s\<lparr>sg_named := False, sg_creator := CFailed\<rparr>)"
    if "sg_creator s \<in> {COpened, CLocked, CSized, CMapped, CBuilt}"
| unlink: "creator_step sz s (s\<lparr>sg_named := False\<rparr>)" if "sg_creator s = CReady"

text \<open>
  An opener. An object without a size is unlocked and tried again; another size, a failing
  \<open>fstat\<close> or \<open>mmap\<close> and the deadline are exceptions, which close the descriptor.
\<close>

inductive opener_step :: "segment \<Rightarrow> opener \<times> u64 \<Rightarrow> opener \<times> u64 \<Rightarrow> bool" for s where
  open_it: "opener_step s (RStart, n) (ROpened, n)" if "sg_named s"
| open_fails: "opener_step s (RStart, n) (RFailed, n)"
| lock_sh: "opener_step s (ROpened, n) (RLocked, n)" if "\<not> exclusive s"
| lock_fails: "opener_step s (ROpened, n) (RFailed, n)"
| retry: "opener_step s (RLocked, n) (ROpened, n)" if "sg_size s = 0"
| check_fails: "opener_step s (RLocked, n) (RFailed, n)"
| map_it: "opener_step s (RLocked, n) (RMapped, n)" if "sg_size s \<noteq> 0" "sg_size s = n"
| unlock: "opener_step s (RMapped, n) (RDone, n)"

inductive_cases opener_stepE: "opener_step s r r'"

inductive segment_run :: "u64 \<Rightarrow> u64 list \<Rightarrow> segment \<Rightarrow> bool" for sz sizes where
  start: "segment_run sz sizes (segment_init sizes)"
| creates: "segment_run sz sizes s \<Longrightarrow> creator_step sz s s' \<Longrightarrow> segment_run sz sizes s'"
| opens: "segment_run sz sizes s \<Longrightarrow> i < length (sg_openers s) \<Longrightarrow> opener_step s (sg_openers s ! i) r \<Longrightarrow>
    segment_run sz sizes (s\<lparr>sg_openers := (sg_openers s)[i := r]\<rparr>)"

section \<open>The handshake\<close>

text \<open>
  The two locks exclude each other, the object has its size from \<open>CSized\<close> on, and who has mapped
  it saw it with its final size after the creator was through.
\<close>

definition opener_ok :: "u64 \<Rightarrow> segment \<Rightarrow> opener \<times> u64 \<Rightarrow> bool" where
  "opener_ok sz s r \<longleftrightarrow> (fst r \<in> {RMapped, RDone} \<longrightarrow> snd r = sz \<and> sg_size s = sz \<and> sg_creator s \<in> {CReady, CFailed})"

definition segment_inv :: "u64 \<Rightarrow> segment \<Rightarrow> bool" where
  "segment_inv sz s \<longleftrightarrow> \<not> (exclusive s \<and> shared s) \<and>
     (sg_creator s \<in> {CStart, COpened, CLocked} \<longrightarrow> sg_size s = 0) \<and> (sg_size s = 0 \<or> sg_size s = sz) \<and>
     (sg_creator s \<in> {CBuilt, CReady} \<longrightarrow> sg_built s) \<and> (\<forall>r\<in>set (sg_openers s). opener_ok sz s r)"

lemma inv_init: "segment_inv sz (segment_init sizes)"
  by (auto simp: segment_inv_def segment_init_def exclusive_def opener_ok_def)

lemma inv_creator: "creator_step sz s s' \<Longrightarrow> segment_inv sz s \<Longrightarrow> segment_inv sz s'"
  by (induction rule: creator_step.induct)
    (simp_all add: segment_inv_def exclusive_def shared_def opener_ok_def)

lemma inv_opener:
  assumes step: "opener_step s (sg_openers s ! i) r" and "i < length (sg_openers s)" and inv: "segment_inv sz s"
  shows "segment_inv sz (s\<lparr>sg_openers := (sg_openers s)[i := r]\<rparr>)"
proof -
  let ?s = "s\<lparr>sg_openers := (sg_openers s)[i := r]\<rparr>"
  have old: "sg_openers s ! i \<in> set (sg_openers s)" using assms(2) by simp
  have sub: "set (sg_openers ?s) \<subseteq> insert r (set (sg_openers s))" by (simp add: set_update_subset_insert)
  have lock: "\<not> exclusive s" if "fst r \<in> {RLocked, RMapped}"
  proof -
    from step that have "\<not> exclusive s \<or> fst (sg_openers s ! i) = RLocked" by cases auto
    then show ?thesis using inv old unfolding segment_inv_def shared_def by blast
  qed
  have "\<not> (exclusive ?s \<and> shared ?s)"
  proof (cases "exclusive s")
    case True
    then have "fst r \<notin> {RLocked, RMapped}" "\<not> shared s" using lock inv by (auto simp: segment_inv_def)
    then show ?thesis using sub unfolding shared_def by blast
  qed (simp add: exclusive_def)
  moreover have "opener_ok sz s r"
    using step
  proof cases
    case (map_it n)
    then have "\<not> exclusive s" using lock by simp
    then show ?thesis using map_it inv by (cases "sg_creator s") (simp_all add: segment_inv_def exclusive_def opener_ok_def)
  next
    case (unlock n)
    then have "opener_ok sz s (RMapped, n)" using inv old by (simp add: segment_inv_def)
    then show ?thesis using unlock by (simp add: opener_ok_def)
  qed (simp_all add: opener_ok_def)
  then have "\<forall>q\<in>set (sg_openers ?s). opener_ok sz s q" using inv sub by (auto simp: segment_inv_def)
  ultimately show ?thesis using inv by (simp add: segment_inv_def opener_ok_def)
qed

lemma inv_run: "segment_run sz sizes s \<Longrightarrow> segment_inv sz s"
  by (induction rule: segment_run.induct) (auto intro: inv_init inv_creator inv_opener)

text \<open>
  C40. No program maps a segment before its creator is through: in every interleaving of one
  creator and any number of openers, an opener that has mapped the segment mapped one of the size it
  expects, which is the size the creator gave it, and the ring in it was initialised, unless the creator
  failed.
\<close>

theorem segment_handshake:
  assumes "segment_run sz sizes s" and "(phase, n) \<in> set (sg_openers s)" and "phase \<in> {RMapped, RDone}"
  shows "sg_size s = n \<and> sz = n \<and> (sg_built s \<or> sg_creator s = CFailed)"
proof -
  note inv = inv_run [OF assms(1), unfolded segment_inv_def]
  then have "opener_ok sz s (phase, n)" using assms(2) by blast
  then have "n = sz" "sg_size s = sz" "sg_creator s \<in> {CReady, CFailed}" 
    using assms(3) unfolding opener_ok_def fst_conv snd_conv by blast+
  then show ?thesis using inv by blast
qed

lemma segment_handshake_witness:
  "\<exists>s. segment_run 64 [64] s \<and> (RMapped, 64) \<in> set (sg_openers s) \<and> sg_built s"
proof -
  let ?s = "\<lambda>c z b r. \<lparr>sg_named = True, sg_size = z, sg_built = b, sg_creator = c, sg_openers = [(r, 64)]\<rparr>"
  have "segment_run 64 [64] (?s COpened 0 False RStart)"
    using segment_run.creates [OF segment_run.start creator_step.create, of "[64]" 64] by (simp add: segment_init_def)
  from segment_run.creates [OF this creator_step.lock]
  have "segment_run 64 [64] (?s CLocked 0 False RStart)" by (simp add: shared_def)
  from segment_run.creates [OF this creator_step.truncate]
  have "segment_run 64 [64] (?s CSized 64 False RStart)" by simp
  from segment_run.creates [OF this creator_step.map]
  have "segment_run 64 [64] (?s CMapped 64 False RStart)" by simp
  from segment_run.creates [OF this creator_step.attach]
  have "segment_run 64 [64] (?s CBuilt 64 True RStart)" by simp
  from segment_run.creates [OF this creator_step.ready]
  have "segment_run 64 [64] (?s CReady 64 True RStart)" by simp
  from segment_run.opens [OF this, of 0 "(ROpened, 64)"]
  have "segment_run 64 [64] (?s CReady 64 True ROpened)" by (simp add: opener_step.open_it)
  from segment_run.opens [OF this, of 0 "(RLocked, 64)"]
  have "segment_run 64 [64] (?s CReady 64 True RLocked)" by (simp add: opener_step.lock_sh exclusive_def)
  from segment_run.opens [OF this, of 0 "(RMapped, 64)"]
  have run: "segment_run 64 [64] (?s CReady 64 True RMapped)" by (simp add: opener_step.map_it)
  from segment_handshake [OF run, of RMapped 64] run show ?thesis by (intro exI [of _ "?s CReady 64 True RMapped"]) simp
qed

end
