(* ===== verification/Spec2Isabelle.thy ===== *)
theory Spec2Isabelle
  imports Fec_Delivery Fec_Total Consumer Receiver Transport Producer Sender_Order Pipeline Segment
begin

text \<open>
  Verification of PulseFanout, the low-latency UDP fan-out under \<open>src/harness\<close>.

  \<^bold>\<open>The program.\<close> Four programs move market-data frames from machine to machine. The producer
  (\<open>producer.cpp\<close>) builds synthetic trades, quotes and books and publishes them into a
  shared-memory ring. The sender (\<open>sender.cpp\<close>) follows that ring, stamps its stream identity
  into each frame, encodes and wraps it, optionally adds forward error correction (FEC), and
  sends batches over UDP or Unix stream sockets to one or several destinations. The receiver
  (\<open>receiver.cpp\<close>) unwraps the datagrams, finds the stream they belong to, recovers lost frames,
  drops duplicates with a replay window and publishes into its own ring. Consumers
  (\<open>consumer.cpp\<close>) follow that ring and measure. The headers under \<open>include\<close> hold the parts they
  share: ring, segment, wire format, FEC, window, stream table, stream transport, metrics.

  \<^bold>\<open>Conventions.\<close> A C++ struct is a record or datatype with one field per member, an integer of
  \<open>w\<close> bits a word of \<open>w\<close> bits, a buffer a list of bytes. A function that may throw returns
  \<open>exn + 'a\<close>; \<open>None\<close> in an \<open>option\<close> is an abort or a loop that has not ended when the trace of its
  surroundings ends. Clocks, the stop flag, lock results, kernel answers and the schedule of
  threads are arguments: lists of what each poll or call finds. So theorems hold for everything
  the surroundings may do. A loop with a structural or measured bound is a total function; there
  is no fuel except in \<open>sender_drain\<close>, whose last loop waits for echoes, and there the number of
  rounds is an argument of the theorems, which hold for each of them.

  \<^bold>\<open>Theories\<close>, bottom up.

  \<^item> \<open>Prelude\<close>: word sizes, exceptions, generic lemmas on lists, words and sums.
  \<^item> \<open>Wire\<close>, \<open>Message\<close>, \<open>Wire_Message\<close>: \<open>wire.h\<close> and \<open>message.h\<close>. The locale \<open>codec\<close> states what a
    field type promises (fixed width, decoding undoes encoding and only accepts encodings) and is
    interpreted for every integer type, the header, the levels and the three messages; the locale
    \<open>message_type\<close> extends it. Shown: \<open>decode\<close> undoes \<open>encode\<close> on all valid frames and accepts
    nothing but encodings.
  \<^item> \<open>GF256\<close>, \<open>Linear\<close>, \<open>Fec_Solve\<close>, \<open>Fec_Encoder\<close>, \<open>Fec_Decoder\<close>, \<open>Fec_Recovery\<close>, \<open>Fec_Delivery\<close>,
    \<open>Fec_Total\<close>, \<open>Samples\<close>: \<open>fec.h\<close> and \<open>samples.h\<close>. The field arithmetic is proved to be the field
    with 256 elements, Cauchy matrices to be regular (locale \<open>erasure_code\<close>, interpreted on the
    coefficients of the code), the elimination in \<open>try_recover\<close> to solve its system. Shown: as many
    distinct datagrams of a generation as it has frames give all its frames, nothing is invented,
    and no bytes make the decoder throw or leave its vectors. The locale \<open>publisher\<close> is the
    callback the decoder works for; it is interpreted on a log and, in \<open>Pipeline\<close>, on the callback
    of the receiver.
  \<^item> \<open>Dedupe\<close>: \<open>dedupe_window.h\<close>. The bit ring refines a position and a set of numbers; no number is
    accepted twice, no fresh one in reach is refused, the loss counter is exact. These facts ask
    for sequence numbers a window size below \<open>2 ^ 64\<close>, where the 64-bit position wraps.
  \<^item> \<open>Multiplex\<close>: \<open>multiplex.h\<close>, the stream header and the bounded stream table.
  \<^item> \<open>Metrics\<close>: \<open>metrics.h\<close> and the summaries of \<open>fec.h\<close> and \<open>sender.cpp\<close> with their percentiles.
  \<^item> \<open>Ring\<close>: \<open>shm_ring.h\<close>. A region of slots refines the log of all frames ever published
    (\<open>ring_log\<close>); \<open>read\<close> and \<open>publish\<close> are specified on it; a writer that dies between two stores
    exposes no torn frame; \<open>attach_reader\<close> and the registry. \<open>ring_run\<close> interleaves the single loads
    of the writer's scan of the reader table, its stores, and the steps of the readers: readers
    that join in time lose nothing. \<open>late_reader_lapped\<close> shows that the condition is needed.
  \<^item> \<open>Segment\<close>: \<open>shm_segment.h\<close>, the handshake of the creator of a segment with any number of openers.
  \<^item> \<open>Sink\<close>: the locale \<open>frame_sink\<close>, what a program that publishes relies on, interpreted on the ring.
  \<^item> \<open>Transport\<close>: \<open>stream_transport.h\<close>, frames on a byte stream that the kernel moves in pieces.
  \<^item> \<open>Args\<close>, \<open>Sender_Config\<close>: the command lines, with the bounds that every accepted configuration
    satisfies.
  \<^item> \<open>Producer\<close>, \<open>Consumer\<close>, \<open>Receiver\<close>: the three programs with their main loops.
  \<^item> \<open>Fanout\<close>, \<open>Sender\<close>, \<open>Sender_Order\<close>: \<open>sender.cpp\<close>. \<open>Fanout\<close> has \<open>flush_batch_direct\<close> with what
    goes out on each socket, also when it fails half way, and the queue and worker of each
    destination; \<open>dest_run\<close> is one destination under any schedule. \<open>Sender\<close> has the main loop on the
    record \<open>net\<close>, which is the socket or the destinations with their queues, and on the record
    \<open>world\<close> of what it reads from; \<open>sender_main\<close> is the whole run with its exit code. \<open>Sender_Order\<close>
    follows the frames of the ring to every destination.
  \<^item> \<open>Pipeline\<close>: from the sender's ring to the receiver's ring.

  \<^bold>\<open>Assumptions.\<close> Each is a hypothesis of the theorems that need it or a choice of the model:

  \<^item> The stores of \<open>publish\<close> reach memory in program order (\<open>publish_stores\<close>). The stores under the
    slot's lock are one step of \<open>ring_run\<close>, since readers take the same lock.
  \<^item> A value-initialised struct has zero tail padding in \<open>decode\<close>; the frames that the producer
    builds and that \<open>encode\<close> takes may have any. Integers in memory are little-endian.
  \<^item> \<open>sizeof(Slot)\<close>, which depends on the platform's mutex, is an argument.
  \<^item> Doubles: the producer's prices and the percentile ranks are computed with every operation
    rounded to 53 bits, without fused multiply-add; \<open>std::stod\<close> is an argument.
  \<^item> The end-to-end theorem takes a transport that loses and reorders nothing between the sockets,
    and a receiver ring that takes every valid frame; \<open>--repeat\<close> is part of it.
  \<^item> The theorems about the order of what the sender sends are about its plain path, without FEC,
    impairment and echo; its memory safety covers all of them.

  \<^bold>\<open>Not modelled.\<close> The scripts under \<open>src/scripts\<close> (sockets, TLS, SQLite and subprocesses of
  libraries); creating and connecting sockets; printing, CSV files and the summaries beyond their
  percentiles; the quotients \<open>drop_rate\<close>, \<open>lat_mean\<close> and the one that turns a rate into an interval;
  initialising the pthread mutexes; mapping, moving and destroying a segment; the destructor of
  \<open>Fanout\<close>, which has nothing left to do after \<open>finish\<close> and otherwise abandons a failed run; tests and build files.
\<close>

end
